(* ===== verification/Prelude.thy ===== *)
theory Prelude
  imports Main "HOL-Library.Word" "HOL-Library.Monad_Syntax" "HOL-Library.Multiset"
begin

text \<open>
  Shared vocabulary of the development: \<open>size_t\<close> arithmetic with its wrap-around, byte
  memory with \<open>memcpy\<close>, list iterators as positions, and the generic list and map lemmas
  that the component theories use.

  Undefined behaviour of C++ (dereferencing \<open>end()\<close> or a deleted object, \<open>memcpy\<close> on
  overlapping or foreign memory) is the value \<^const>\<open>None\<close> of an option-valued definition;
  exceptions that the code throws are values of a sum type inside \<^const>\<open>Some\<close>.
\<close>

section \<open>Machine sizes\<close>

text \<open>
  A \<open>size_t\<close> is a \<open>nat\<close> below \<open>SZ\<close>; additions and subtractions wrap modulo \<open>SZ\<close>,
  as written out in \<open>sz_add\<close> and \<open>sz_sub\<close>.
\<close>

named_theorems sz_simps "wrap-free cases of the size_t operations"

type_synonym size_t = nat
type_synonym addr = nat
type_synonym byte = "8 word"

definition SZ :: nat where
  "SZ = 2 ^ 64"

definition sz_add :: "size_t \<Rightarrow> size_t \<Rightarrow> size_t" where
  "sz_add a b = (a + b) mod SZ"

definition sz_sub :: "size_t \<Rightarrow> size_t \<Rightarrow> size_t" where
  "sz_sub a b = (a + (SZ - b)) mod SZ"

lemma SZ_pos [simp, intro]: "0 < SZ"
  by (simp add: SZ_def)

lemma sz_add_exact [sz_simps]: "a + b < SZ \<Longrightarrow> sz_add a b = a + b"
  by (simp add: sz_add_def)

lemma sz_sub_exact [sz_simps]:
  assumes "b \<le> a" "a < SZ" shows "sz_sub a b = a - b"
proof -
  have e: "a + (SZ - b) = (a - b) + SZ" using assms by simp
  show ?thesis unfolding sz_sub_def e mod_add_self2 using assms by (intro mod_less) simp
qed

lemma sz_sub_wrap: "a < b \<Longrightarrow> b \<le> SZ \<Longrightarrow> sz_sub a b = SZ - (b - a)"
  by (simp add: sz_sub_def)

text \<open>
  The 32-bit types. An \<open>int\<close> is an \<open>int\<close> of HOL: \<open>to_int32\<close> is the conversion of a wider number
  to it, \<open>int_next\<close> the increment of a counter, undefined past the largest \<open>int\<close>. A
  product or sum of a \<open>uint32_t\<close> wraps modulo \<open>2 ^ 32\<close> (\<open>mul32\<close>, \<open>add32\<close>).
\<close>

definition INT_MAX :: int where
  "INT_MAX = 2 ^ 31 - 1"

definition INT_MIN :: int where
  "INT_MIN = - (2 ^ 31)"

definition in_int32 :: "int \<Rightarrow> bool" where
  "in_int32 x \<longleftrightarrow> INT_MIN \<le> x \<and> x \<le> INT_MAX"

definition to_int32 :: "int \<Rightarrow> int" where
  "to_int32 x = sint (word_of_int x :: 32 word)"

definition int_next :: "nat \<Rightarrow> nat option" where
  "int_next i = (if Suc i < 2 ^ 31 then Some (Suc i) else None)"

definition add32 :: "nat \<Rightarrow> nat \<Rightarrow> nat" where
  "add32 a b = (a + b) mod 2 ^ 32"

definition mul32 :: "nat \<Rightarrow> nat \<Rightarrow> nat" where
  "mul32 a b = (a * b) mod 2 ^ 32"

lemma to_int32_eq: "to_int32 x = (x + 2 ^ 31) mod 2 ^ 32 - 2 ^ 31"
  unfolding to_int32_def by (simp add: sint_sbintrunc' signed_take_bit_eq_take_bit_shift take_bit_eq_mod)

lemma to_int32_id: "in_int32 x \<Longrightarrow> to_int32 x = x"
  unfolding to_int32_eq in_int32_def INT_MAX_def INT_MIN_def by simp

lemma mul32_exact: "a * b < 2 ^ 32 \<Longrightarrow> mul32 a b = a * b"
  by (simp add: mul32_def)

lemma mul32_le: "mul32 a b \<le> a * b"
  by (simp add: mul32_def)

lemma mul32_short:
  assumes "2 ^ 32 \<le> a * b" shows "mul32 a b < a * b"
proof -
  have "mul32 a b < 2 ^ 32" by (simp add: mul32_def)
  then show ?thesis using assms by (rule less_le_trans)
qed

section \<open>Byte memory\<close>

type_synonym memory = "addr \<Rightarrow> byte"

definition rd_bytes :: "memory \<Rightarrow> addr \<Rightarrow> nat \<Rightarrow> byte list" where
  "rd_bytes m p n = map m [p..<p + n]"

definition copied :: "memory \<Rightarrow> addr \<Rightarrow> addr \<Rightarrow> nat \<Rightarrow> memory" where
  "copied m dst src n = (\<lambda>x. if dst \<le> x \<and> x < dst + n then m (src + (x - dst)) else m x)"

text \<open>
  \<open>memcpy\<close> inside one object that occupies \<open>[lo, hi)\<close>: both ranges must lie in the object
  and must not overlap, otherwise the behaviour is undefined.
\<close>

definition memcpy :: "addr \<Rightarrow> addr \<Rightarrow> memory \<Rightarrow> addr \<Rightarrow> addr \<Rightarrow> size_t \<Rightarrow> memory option" where
  "memcpy lo hi m dst src n =
     (if lo \<le> dst \<and> dst + n \<le> hi \<and> lo \<le> src \<and> src + n \<le> hi
         \<and> (dst + n \<le> src \<or> src + n \<le> dst)
      then Some (copied m dst src n) else None)"

lemma length_rd_bytes [simp]: "length (rd_bytes m p n) = n"
  by (simp add: rd_bytes_def)

lemma rd_bytes_0 [simp]: "rd_bytes m p 0 = []"
  by (simp add: rd_bytes_def)

lemma rd_bytes_split: "rd_bytes m p (i + j) = rd_bytes m p i @ rd_bytes m (p + i) j"
  unfolding rd_bytes_def add.assoc [symmetric] by (subst upt_add_eq_append) simp_all

lemma take_rd_bytes: "i \<le> n \<Longrightarrow> take i (rd_bytes m p n) = rd_bytes m p i"
  by (simp add: rd_bytes_def take_map)

lemma rd_bytes_cong:
  "(\<And>x. p \<le> x \<Longrightarrow> x < p + n \<Longrightarrow> m x = m' x) \<Longrightarrow> rd_bytes m p n = rd_bytes m' p n"
  by (simp add: rd_bytes_def)

lemma rd_bytes_copied [simp]: "rd_bytes (copied m dst src n) dst n = rd_bytes m src n"
  by (rule nth_equalityI) (auto simp: rd_bytes_def copied_def)

lemma rd_bytes_copied_outside:
  "p + k \<le> dst \<or> dst + n \<le> p \<Longrightarrow> rd_bytes (copied m dst src n) p k = rd_bytes m p k"
  by (rule rd_bytes_cong) (auto simp: copied_def)

section \<open>List iterators\<close>

text \<open>
  An iterator into a \<open>std::list\<close> is the position of its element, \<open>end()\<close> the length.
  Advancing \<open>end()\<close> and stepping back from \<open>begin()\<close> are undefined.
\<close>

type_synonym iter = nat

definition iter_next :: "'a list \<Rightarrow> iter \<Rightarrow> iter option" where
  "iter_next xs it = (if it < length xs then Some (Suc it) else None)"

definition iter_prev :: "iter \<Rightarrow> iter option" where
  "iter_prev it = (if it = 0 then None else Some (it - 1))"

definition iter_get :: "'a list \<Rightarrow> iter \<Rightarrow> 'a option" where
  "iter_get xs it = (if it < length xs then Some (xs ! it) else None)"

definition insert_at :: "iter \<Rightarrow> 'a \<Rightarrow> 'a list \<Rightarrow> 'a list" where
  "insert_at it x xs = take it xs @ x # drop it xs"

definition erase_at :: "iter \<Rightarrow> 'a list \<Rightarrow> 'a list" where
  "erase_at it xs = take it xs @ drop (Suc it) xs"

text \<open>\<open>std::find\<close> on a list: the first position that holds the value, or \<open>end()\<close>.\<close>

fun find_iter :: "'a \<Rightarrow> 'a list \<Rightarrow> iter" where
  "find_iter x [] = 0"
| "find_iter x (y # ys) = (if y = x then 0 else Suc (find_iter x ys))"

lemma find_iter_append: "x \<notin> set xs \<Longrightarrow> find_iter x (xs @ x # ys) = length xs"
  by (induction xs) auto

lemma find_iter_le: "find_iter x xs \<le> length xs"
  by (induction xs) auto

lemma find_iter_end: "find_iter x xs = length xs \<longleftrightarrow> x \<notin> set xs"
  by (induction xs) auto

section \<open>Decimal numbers\<close>

text \<open>An unsigned number as an output stream writes it.\<close>

definition digit :: "nat \<Rightarrow> char" where
  "digit n = char_of (48 + n)"

fun decimal :: "nat \<Rightarrow> string" where
  "decimal n = (if n < 10 then [digit n] else decimal (n div 10) @ [digit (n mod 10)])"

declare decimal.simps [simp del]

lemma digit_eq: "m < 10 \<Longrightarrow> n < 10 \<Longrightarrow> digit m = digit n \<longleftrightarrow> m = n"
proof
  assume "m < 10" "n < 10" "digit m = digit n"
  then have "of_char (char_of (48 + m)) = (of_char (char_of (48 + n)) :: nat)" unfolding digit_def by simp
  then show "m = n" using \<open>m < 10\<close> \<open>n < 10\<close> by simp
qed simp

lemma decimal_not_Nil: "decimal n \<noteq> []"
  by (subst decimal.simps) simp

lemma decimal_inj: "decimal m = decimal n \<Longrightarrow> m = n"
proof (induction m arbitrary: n rule: decimal.induct)
  case (1 m)
  show ?case
  proof (cases "m < 10")
    case True
    then have "decimal n = [digit m]" using 1(2) by (simp add: decimal.simps [of m])
    then have "n < 10" "digit n = digit m" using decimal_not_Nil [of "n div 10"]
      by (subst (asm) decimal.simps; simp split: if_splits)+
    then show ?thesis using True digit_eq by auto
  next
    case False
    then have m: "decimal m = decimal (m div 10) @ [digit (m mod 10)]" by (simp add: decimal.simps [of m])
    have n: "\<not> n < 10"
    proof
      assume "n < 10"
      then have "decimal n = [digit n]" by (simp add: decimal.simps [of n])
      then show False using 1(2) m decimal_not_Nil by simp
    qed
    then have "decimal n = decimal (n div 10) @ [digit (n mod 10)]" by (simp add: decimal.simps [of n])
    then have "decimal (m div 10) = decimal (n div 10)" "digit (m mod 10) = digit (n mod 10)" using m 1(2) by auto
    then have "m div 10 = n div 10" "m mod 10 = n mod 10" using 1(1) [OF False] digit_eq by auto
    then show ?thesis by (metis div_mult_mod_eq)
  qed
qed

section \<open>Generic lemmas\<close>

lemma unat_byte: "unat (word_of_nat n :: byte) = n mod 256"
  by (simp add: unat_of_nat)

lemma split_at_index:
  assumes "i < length xs"
  obtains ys x zs where "xs = ys @ x # zs" "length ys = i" "x = xs ! i"
  using assms id_take_nth_drop [of i xs] by (metis length_take min.absorb4)

end
