(* ===== verification/Alloc_Model.thy ===== *)
theory Alloc_Model
  imports Prelude
begin

text \<open>
  Model of the relocating allocator of \<^verbatim>\<open>src/p1/allocator.h\<close> and
  \<^verbatim>\<open>src/p1/allocator.cpp\<close>.

  A \<open>MemoryBlock\<close> object lives on the C++ heap and is referred to by its address
  (\<open>blk\<close>) from the list \<open>list_blocks\<close> and from the client's \<open>Pointer\<close>s; the aliasing is
  kept by an explicit store \<open>heap\<close>. \<open>new\<close> takes an address that was never used before,
  \<open>delete\<close> removes the object, and every access to a missing object is undefined
  (\<^const>\<open>None\<close>). The bytes of the arena \<open>[base, base + size)\<close> are \<open>mem\<close>. Iterators of
  \<open>list_blocks\<close> are positions; \<open>std::list\<close> keeps them valid across insertions, so each
  definition shifts them where the code's iterator keeps pointing to its element.
  Exceptions leave the state as it was, since no throw follows a change of state.
\<close>

section \<open>Data\<close>

datatype AllocErrorType = InvalidFree | NoMemory

record MemoryBlock =
  mb_ptr :: addr
  mb_size :: size_t
  mb_free :: bool

type_synonym blk = nat

datatype Pointer = Pointer (ptr_block: "blk option")

record Allocator =
  ping_pong :: bool
  ptr_memory :: addr
  size_memory :: size_t
  ptr_memory_part1 :: addr
  ptr_memory_part2 :: addr
  size_memory_part :: size_t
  list_blocks :: "blk list"
  size_free_memory :: size_t
  heap :: "blk \<rightharpoonup> MemoryBlock"
  next_blk :: blk
  mem :: memory
  cout :: "(bool \<times> size_t \<times> addr) list"

section \<open>Objects and the arena\<close>

definition store :: "blk \<Rightarrow> MemoryBlock \<Rightarrow> Allocator \<Rightarrow> Allocator" where
  "store b m a = a\<lparr>heap := (heap a)(b \<mapsto> m)\<rparr>"

definition new_block :: "MemoryBlock \<Rightarrow> Allocator \<Rightarrow> blk \<times> Allocator" where
  "new_block m a = (next_blk a, a\<lparr>heap := (heap a)(next_blk a \<mapsto> m), next_blk := Suc (next_blk a)\<rparr>)"

definition delete_block :: "blk \<Rightarrow> Allocator \<Rightarrow> Allocator option" where
  "delete_block b a =
     (if heap a b = None then None else Some (a\<lparr>heap := (heap a)(b := None)\<rparr>))"

definition arena_memcpy :: "addr \<Rightarrow> addr \<Rightarrow> size_t \<Rightarrow> Allocator \<Rightarrow> Allocator option" where
  "arena_memcpy dst src n a =
     map_option (\<lambda>m. a\<lparr>mem := m\<rparr>)
       (memcpy (ptr_memory a) (ptr_memory a + size_memory a) (mem a) dst src n)"

text \<open>\<open>Pointer::get\<close> with \<open>MemoryBlock::get_ptr\<close>; the inner \<^const>\<open>None\<close> is \<open>nullptr\<close>.\<close>

definition get :: "Allocator \<Rightarrow> Pointer \<Rightarrow> addr option option" where
  "get a p = (case ptr_block p of
      None \<Rightarrow> Some None
    | Some b \<Rightarrow> do { m \<leftarrow> heap a b; Some (Some (mb_ptr m)) })"

section \<open>Operations\<close>

definition Allocator_init :: "addr \<Rightarrow> size_t \<Rightarrow> memory \<Rightarrow> Allocator" where
  "Allocator_init base sz m =
     (let part = sz div 2;
          a = \<lparr>ping_pong = False, ptr_memory = base, size_memory = sz,
               ptr_memory_part1 = base, ptr_memory_part2 = base + part,
               size_memory_part = part, list_blocks = [], size_free_memory = part,
               heap = Map.empty, next_blk = 0, mem = m, cout = []\<rparr>;
          (b, a) = new_block \<lparr>mb_ptr = base, mb_size = part, mb_free = True\<rparr> a
      in a\<lparr>list_blocks := list_blocks a @ [b]\<rparr>)"

fun findblock_loop :: "(blk \<rightharpoonup> MemoryBlock) \<Rightarrow> size_t \<Rightarrow> blk list \<Rightarrow> iter \<Rightarrow> iter option" where
  "findblock_loop h N [] it = Some it"
| "findblock_loop h N (b # bs) it = do {
     m \<leftarrow> h b;
     if mb_free m = True \<and> mb_size m \<ge> N then Some it
     else findblock_loop h N bs (Suc it)
   }"

definition findblock :: "Allocator \<Rightarrow> size_t \<Rightarrow> iter option" where
  "findblock a N = findblock_loop (heap a) N (list_blocks a) 0"

definition appendfollow :: "Allocator \<Rightarrow> iter \<Rightarrow> Allocator option" where
  "appendfollow a it = do {
     it \<leftarrow> iter_next (list_blocks a) it;
     b \<leftarrow> iter_get (list_blocks a) it;
     m \<leftarrow> heap a b;
     let size_block = mb_size m;
     a \<leftarrow> delete_block b a;
     let a = a\<lparr>list_blocks := erase_at it (list_blocks a)\<rparr>;
     it \<leftarrow> iter_prev it;
     b \<leftarrow> iter_get (list_blocks a) it;
     m \<leftarrow> heap a b;
     Some (store b (m\<lparr>mb_size := sz_add (mb_size m) size_block\<rparr>) a)
   }"

text \<open>The two halves of \<open>joinfree\<close>: "check before element" and "check follow element".\<close>

definition joinfree_before :: "Allocator \<Rightarrow> iter \<Rightarrow> (Allocator \<times> iter) option" where
  "joinfree_before a it =
     (if it \<noteq> 0 then do {
        it \<leftarrow> iter_prev it;
        b \<leftarrow> iter_get (list_blocks a) it;
        m \<leftarrow> heap a b;
        if mb_free m = True then do { a \<leftarrow> appendfollow a it; Some (a, it) }
        else do { it \<leftarrow> iter_next (list_blocks a) it; Some (a, it) }
      } else Some (a, it))"

definition joinfree_follow :: "Allocator \<Rightarrow> iter \<Rightarrow> Allocator option" where
  "joinfree_follow a it = do {
     it \<leftarrow> iter_next (list_blocks a) it;
     if it \<noteq> length (list_blocks a) then do {
       b \<leftarrow> iter_get (list_blocks a) it;
       m \<leftarrow> heap a b;
       if mb_free m then do { it \<leftarrow> iter_prev it; appendfollow a it }
       else Some a
     } else Some a
   }"

definition joinfree :: "Allocator \<Rightarrow> iter \<Rightarrow> Allocator option" where
  "joinfree a it = do {
     (a, it) \<leftarrow> joinfree_before a it;
     joinfree_follow a it
   }"

definition shortSizeBlock :: "Allocator \<Rightarrow> iter \<Rightarrow> size_t \<Rightarrow> (iter \<times> Allocator) option" where
  "shortSizeBlock a it N = do {
     b \<leftarrow> iter_get (list_blocks a) it;
     m \<leftarrow> heap a b;
     let ptr = mb_ptr m;
     let sz = mb_size m;
     let is_free = mb_free m;
     let a = store b (m\<lparr>mb_size := sz_sub sz N, mb_ptr := mb_ptr m + N, mb_free := True\<rparr>) a;
     let (nb, a) = new_block \<lparr>mb_ptr = ptr, mb_size = N, mb_free = is_free\<rparr> a;
     let a = a\<lparr>list_blocks := insert_at it nb (list_blocks a)\<rparr>;
     it \<leftarrow> iter_prev (Suc it);
     Some (it, a)
   }"

text \<open>
  The loop of \<open>defrag\<close>: allocated blocks are copied to \<open>cur\<close> and appended to the new list,
  free ones deleted.
\<close>

fun defrag_loop :: "blk list \<Rightarrow> Allocator \<Rightarrow> addr \<Rightarrow> blk list \<Rightarrow> (Allocator \<times> addr \<times> blk list) option" where
  "defrag_loop [] a cur new_list = Some (a, cur, new_list)"
| "defrag_loop (b # bs) a cur new_list = do {
     m \<leftarrow> heap a b;
     if mb_free m = False then do {
       a \<leftarrow> arena_memcpy cur (mb_ptr m) (mb_size m) a;
       defrag_loop bs (store b (m\<lparr>mb_ptr := cur\<rparr>) a) (cur + mb_size m) (new_list @ [b])
     } else do {
       a \<leftarrow> delete_block b a;
       defrag_loop bs a cur new_list
     }
   }"

definition other_part :: "Allocator \<Rightarrow> addr" where
  "other_part a = (if ping_pong a then ptr_memory_part1 a else ptr_memory_part2 a)"

text \<open>The end shared by \<open>defrag\<close> and \<open>defragWithLast\<close>: the closing free block and the swap.\<close>

definition defrag_finish :: "Allocator \<Rightarrow> addr \<Rightarrow> blk list \<Rightarrow> Allocator" where
  "defrag_finish a cur new_list =
     (let (nb, a) = new_block \<lparr>mb_ptr = cur, mb_size = size_free_memory a, mb_free = True\<rparr> a
      in a\<lparr>ping_pong := \<not> ping_pong a, list_blocks := new_list @ [nb]\<rparr>)"

definition defrag :: "Allocator \<Rightarrow> Allocator option" where
  "defrag a = do {
     (a, cur, new_list) \<leftarrow> defrag_loop (list_blocks a) a (other_part a) [];
     Some (defrag_finish a cur new_list)
   }"

text \<open>
  \<open>defragWithLast\<close> skips the block at the given position in the loop and moves it last;
  the loop with the skip is the loop over the list without that position.
\<close>

definition defragWithLast :: "Allocator \<Rightarrow> iter \<Rightarrow> Allocator option" where
  "defragWithLast a it = do {
     (a, cur, new_list) \<leftarrow> defrag_loop (erase_at it (list_blocks a)) a (other_part a) [];
     b \<leftarrow> iter_get (list_blocks a) it;
     m \<leftarrow> heap a b;
     a \<leftarrow> arena_memcpy cur (mb_ptr m) (mb_size m) a;
     let a = store b (m\<lparr>mb_ptr := cur\<rparr>) a;
     Some (defrag_finish a (cur + mb_size m) (new_list @ [b]))
   }"

text \<open>The second half of \<open>alloc\<close>: the block found is taken as it is or split.\<close>

definition alloc_at :: "Allocator \<Rightarrow> iter \<Rightarrow> size_t \<Rightarrow> (Pointer \<times> Allocator) option" where
  "alloc_at a it N = do {
     b \<leftarrow> iter_get (list_blocks a) it;
     m \<leftarrow> heap a b;
     if mb_size m = N then
       (let a = store b (m\<lparr>mb_free := False\<rparr>) a;
            a = a\<lparr>size_free_memory := sz_sub (size_free_memory a) N\<rparr>
        in Some (Pointer (Some b), a))
     else
       (let ptr = mb_ptr m;
            a = store b (m\<lparr>mb_size := sz_sub (mb_size m) N, mb_ptr := mb_ptr m + N\<rparr>) a;
            (nb, a) = new_block \<lparr>mb_ptr = ptr, mb_size = N, mb_free = False\<rparr> a;
            a = a\<lparr>list_blocks := insert_at it nb (list_blocks a)\<rparr>;
            a = a\<lparr>size_free_memory := sz_sub (size_free_memory a) N\<rparr>
        in Some (Pointer (Some nb), a))
   }"

definition alloc :: "Allocator \<Rightarrow> size_t \<Rightarrow> (AllocErrorType + Pointer \<times> Allocator) option" where
  "alloc a N =
     (if N > size_free_memory a then Some (Inl NoMemory)
      else do {
        it \<leftarrow> findblock a N;
        (it, a) \<leftarrow>
          (if it = length (list_blocks a) then do {
             a \<leftarrow> defrag a;
             it \<leftarrow> findblock a N;
             Some (it, a)
           } else Some (it, a));
        r \<leftarrow> alloc_at a it N;
        Some (Inr r)
      })"

definition free :: "Allocator \<Rightarrow> Pointer \<Rightarrow> (AllocErrorType + Pointer \<times> Allocator) option" where
  "free a p = (case ptr_block p of
      None \<Rightarrow> Some (Inl InvalidFree)
    | Some b \<Rightarrow> do {
        m \<leftarrow> heap a b;
        let size_block = mb_size m;
        let a = store b (m\<lparr>mb_free := True\<rparr>) a;
        let it = find_iter b (list_blocks a);
        a \<leftarrow> joinfree a it;
        let a = a\<lparr>size_free_memory := sz_add (size_free_memory a) size_block\<rparr>;
        Some (Inr (Pointer None, a))
      })"

text \<open>\<open>print\<close> writes one record per block; \<open>realloc\<close> calls it after its defragmentation.\<close>

fun print_loop :: "(blk \<rightharpoonup> MemoryBlock) \<Rightarrow> blk list \<Rightarrow> (bool \<times> size_t \<times> addr) list option" where
  "print_loop h [] = Some []"
| "print_loop h (b # bs) = do {
     m \<leftarrow> h b;
     rest \<leftarrow> print_loop h bs;
     Some ((mb_free m, mb_size m, mb_ptr m) # rest)
   }"

definition print :: "Allocator \<Rightarrow> Allocator option" where
  "print a = do {
     out \<leftarrow> print_loop (heap a) (list_blocks a);
     Some (a\<lparr>cout := cout a @ out\<rparr>)
   }"

text \<open>The three branches of \<open>realloc\<close> on a non-null pointer to the block \<open>b\<close>.\<close>

definition realloc_shrink :: "Allocator \<Rightarrow> blk \<Rightarrow> MemoryBlock \<Rightarrow> size_t \<Rightarrow> Allocator option" where
  "realloc_shrink a b m N = do {
     let it = find_iter b (list_blocks a);
     let new_ptr_data = mb_ptr m + N;
     let new_size = sz_sub (mb_size m) N;
     let (nb, a) = new_block \<lparr>mb_ptr = new_ptr_data, mb_size = new_size, mb_free = True\<rparr> a;
     let a = store b (m\<lparr>mb_size := N\<rparr>) a;
     (it, a) \<leftarrow>
       (if it \<noteq> length (list_blocks a) then do {
          it \<leftarrow> iter_next (list_blocks a) it;
          let a = a\<lparr>list_blocks := insert_at it nb (list_blocks a)\<rparr>;
          it \<leftarrow> iter_prev (Suc it);
          Some (it, a)
        } else do {
          let a = a\<lparr>list_blocks := list_blocks a @ [nb]\<rparr>;
          it \<leftarrow> iter_next (list_blocks a) (length (list_blocks a));
          Some (it, a)
        });
     a \<leftarrow> joinfree a it;
     Some (a\<lparr>size_free_memory := sz_add (size_free_memory a) new_size\<rparr>)
   }"

definition realloc_in_place :: "Allocator \<Rightarrow> iter \<Rightarrow> MemoryBlock \<Rightarrow> size_t \<Rightarrow> Allocator option" where
  "realloc_in_place a it k delta = do {
     (it, a) \<leftarrow> (if mb_size k \<noteq> delta then shortSizeBlock a it delta else Some (it, a));
     it \<leftarrow> iter_prev it;
     appendfollow a it
   }"

definition realloc_move_to :: "Allocator \<Rightarrow> blk \<Rightarrow> iter \<Rightarrow> size_t \<Rightarrow> Allocator option" where
  "realloc_move_to a b find_it N = do {
     fb \<leftarrow> iter_get (list_blocks a) find_it;
     k \<leftarrow> heap a fb;
     (find_it, a) \<leftarrow> (if mb_size k \<noteq> N then shortSizeBlock a find_it N else Some (find_it, a));
     let it = find_iter b (list_blocks a);
     fb \<leftarrow> iter_get (list_blocks a) find_it;
     k \<leftarrow> heap a fb;
     let find_memory = mb_ptr k;
     a \<leftarrow> delete_block fb a;
     m \<leftarrow> heap a b;
     let prev_size = mb_size m;
     let prev_memory = mb_ptr m;
     a \<leftarrow> arena_memcpy find_memory (mb_ptr m) (mb_size m) a;
     let a = a\<lparr>list_blocks := (list_blocks a)[find_it := b]\<rparr>;
     let a = store b (m\<lparr>mb_ptr := find_memory, mb_size := N\<rparr>) a;
     let (nb, a) = new_block \<lparr>mb_ptr = prev_memory, mb_size = prev_size, mb_free = True\<rparr> a;
     _ \<leftarrow> iter_get (list_blocks a) it;
     let a = a\<lparr>list_blocks := (list_blocks a)[it := nb]\<rparr>;
     joinfree a it
   }"

definition realloc_move :: "Allocator \<Rightarrow> blk \<Rightarrow> size_t \<Rightarrow> Allocator option" where
  "realloc_move a b N = do {
     find_it \<leftarrow> findblock a N;
     (find_it, a) \<leftarrow>
       (if find_it = length (list_blocks a) then do {
          a \<leftarrow> defrag a;
          a \<leftarrow> print a;
          find_it \<leftarrow> findblock a N;
          Some (find_it, a)
        } else Some (find_it, a));
     realloc_move_to a b find_it N
   }"

definition realloc_next :: "Allocator \<Rightarrow> blk \<Rightarrow> iter \<Rightarrow> size_t \<Rightarrow> size_t \<Rightarrow> Allocator option" where
  "realloc_next a b it N delta = do {
     it \<leftarrow> iter_next (list_blocks a) it;
     in_place \<leftarrow>
       (if it \<noteq> length (list_blocks a) then do {
          c \<leftarrow> iter_get (list_blocks a) it;
          k \<leftarrow> heap a c;
          Some (if mb_free k = True \<and> mb_size k \<ge> delta then Some k else None)
        } else Some None);
     (case in_place of
         Some k \<Rightarrow> realloc_in_place a it k delta
       | None \<Rightarrow> realloc_move a b N)
   }"

definition realloc_grow ::
  "Allocator \<Rightarrow> blk \<Rightarrow> MemoryBlock \<Rightarrow> size_t \<Rightarrow> (AllocErrorType + Allocator) option" where
  "realloc_grow a b m N =
     (let delta = sz_sub N (mb_size m) in
      if delta > size_free_memory a then Some (Inl NoMemory)
      else do {
        let it = find_iter b (list_blocks a);
        (it, a) \<leftarrow>
          (if size_free_memory a < N then do {
             a \<leftarrow> defragWithLast a it;
             Some (find_iter b (list_blocks a), a)
           } else Some (it, a));
        a \<leftarrow> realloc_next a b it N delta;
        Some (Inr (a\<lparr>size_free_memory := sz_sub (size_free_memory a) delta\<rparr>))
      })"

definition realloc :: "Allocator \<Rightarrow> Pointer \<Rightarrow> size_t \<Rightarrow> (AllocErrorType + Pointer \<times> Allocator) option" where
  "realloc a p N = (case ptr_block p of
      None \<Rightarrow> alloc a N
    | Some b \<Rightarrow> do {
        m \<leftarrow> heap a b;
        if mb_size m = N then Some (Inr (p, a))
        else if mb_size m > N then do {
          a \<leftarrow> realloc_shrink a b m N;
          Some (Inr (p, a))
        } else do {
          r \<leftarrow> realloc_grow a b m N;
          Some (case r of Inl e \<Rightarrow> Inl e | Inr a \<Rightarrow> Inr (p, a))
        }
      })"

end
