(* ===== verification/Alloc_View.thy ===== *)
theory Alloc_View
  imports Alloc_Model
begin

text \<open>
  The proof view of the allocator: the list of \<open>(block address, block)\<close> pairs that the
  list of pointers and the object store represent together. Every operation of
  \<^verbatim>\<open>Alloc_Model\<close> is shown to act on the view as a plain list operation.
\<close>

section \<open>Views\<close>

type_synonym view = "(blk \<times> MemoryBlock) list"

definition set_view :: "view \<Rightarrow> blk \<Rightarrow> Allocator \<Rightarrow> Allocator" where
  "set_view bs nx a = a\<lparr>list_blocks := map fst bs, heap := map_of bs, next_blk := nx\<rparr>"

definition blocks :: "Allocator \<Rightarrow> view" where
  "blocks a = map (\<lambda>b. (b, the (heap a b))) (list_blocks a)"

definition view_wf :: "view \<Rightarrow> blk \<Rightarrow> bool" where
  "view_wf bs nx \<longleftrightarrow> distinct (map fst bs) \<and> (\<forall>b \<in> fst ` set bs. b < nx)"

text \<open>
  The store holds exactly the listed objects (nothing leaks, nothing dangles), each listed
  once, and the next address is fresh.
\<close>

definition store_wf :: "Allocator \<Rightarrow> bool" where
  "store_wf a \<longleftrightarrow> distinct (list_blocks a) \<and> dom (heap a) = set (list_blocks a)
     \<and> (\<forall>b \<in> set (list_blocks a). b < next_blk a)"

named_theorems view_simps "operations evaluated on a view"

lemma set_view_sel [simp]:
  "list_blocks (set_view bs nx a) = map fst bs" "heap (set_view bs nx a) = map_of bs"
  "next_blk (set_view bs nx a) = nx" "mem (set_view bs nx a) = mem a"
  "ping_pong (set_view bs nx a) = ping_pong a" "ptr_memory (set_view bs nx a) = ptr_memory a"
  "size_memory (set_view bs nx a) = size_memory a"
  "ptr_memory_part1 (set_view bs nx a) = ptr_memory_part1 a"
  "ptr_memory_part2 (set_view bs nx a) = ptr_memory_part2 a"
  "size_memory_part (set_view bs nx a) = size_memory_part a"
  "size_free_memory (set_view bs nx a) = size_free_memory a"
  "cout (set_view bs nx a) = cout a"
  by (simp_all add: set_view_def)

lemma set_view_set_view [simp]: "set_view bs nx (set_view bs' nx' a) = set_view bs nx a"
  by (simp add: set_view_def)

lemma set_view_upd [simp]:
  "(set_view bs nx a)\<lparr>mem := m\<rparr> = set_view bs nx (a\<lparr>mem := m\<rparr>)"
  "(set_view bs nx a)\<lparr>size_free_memory := f\<rparr> = set_view bs nx (a\<lparr>size_free_memory := f\<rparr>)"
  "(set_view bs nx a)\<lparr>ping_pong := p\<rparr> = set_view bs nx (a\<lparr>ping_pong := p\<rparr>)"
  "(set_view bs nx a)\<lparr>cout := c\<rparr> = set_view bs nx (a\<lparr>cout := c\<rparr>)"
  by (simp_all add: set_view_def)

lemma blocks_set_view:
  "view_wf bs nx \<Longrightarrow> blocks (set_view bs nx a) = bs"
  unfolding blocks_def view_wf_def by (auto intro!: map_idI)

lemma map_of_blocks: "dom (heap a) = set (list_blocks a) \<Longrightarrow> map_of (blocks a) = heap a"
proof (rule ext)
  fix b assume d: "dom (heap a) = set (list_blocks a)"
  have "map_of (map (\<lambda>b. (b, the (heap a b))) l) b = (if b \<in> set l then Some (the (heap a b)) else None)"
    for l by (induction l) auto
  then show "map_of (blocks a) b = heap a b" using d unfolding blocks_def
    by (metis (mono_tags) domIff option.collapse)
qed

lemma store_wf_view:
  assumes "store_wf a"
  shows "a = set_view (blocks a) (next_blk a) a" "view_wf (blocks a) (next_blk a)"
proof -
  have "map fst (blocks a) = list_blocks a" by (simp add: blocks_def comp_def)
  with assms show "a = set_view (blocks a) (next_blk a) a"
    by (simp add: set_view_def map_of_blocks store_wf_def)
  from assms show "view_wf (blocks a) (next_blk a)"
    by (auto simp: view_wf_def store_wf_def blocks_def comp_def)
qed

lemma view_store_wf: "view_wf bs nx \<Longrightarrow> store_wf (set_view bs nx a)"
  by (simp add: store_wf_def view_wf_def dom_map_of_conv_image_fst)

text \<open>The object store under the list operations.\<close>

declare map_of_append [simp del]

lemma map_of_mid [simp]: "b \<notin> fst ` set xs \<Longrightarrow> map_of (xs @ (b, m) # ys) b = Some m"
  by (induction xs) auto

lemma map_of_mid2 [simp]:
  "c \<notin> fst ` set xs \<Longrightarrow> c \<noteq> b \<Longrightarrow> map_of (xs @ (b, m) # (c, k) # ys) c = Some k"
  using map_of_mid [of c "xs @ [(b, m)]" k ys] by simp

lemma map_of_upd_mid:
  "b \<notin> fst ` set xs \<Longrightarrow> (map_of (xs @ (b, m) # ys))(b \<mapsto> m') = map_of (xs @ (b, m') # ys)"
  by (simp add: map_of_append map_add_upd_left dom_map_of_conv_image_fst)

lemma map_of_ins_mid:
  "b \<notin> fst ` set xs \<Longrightarrow> (map_of (xs @ ys))(b \<mapsto> m) = map_of (xs @ (b, m) # ys)"
  by (simp add: map_of_append map_add_upd_left dom_map_of_conv_image_fst)

lemma map_of_del_mid:
  assumes "b \<notin> fst ` set xs" "b \<notin> fst ` set ys"
  shows "(map_of (xs @ (b, m) # ys))(b := None) = map_of (xs @ ys)"
proof -
  have "map_of (xs @ ys) b = None" using assms by (simp add: map_of_append map_of_eq_None_iff)
  then show ?thesis using assms
    by (simp add: map_of_append map_add_upd_left dom_map_of_conv_image_fst fun_upd_idem)
qed

lemma store_view [view_simps]:
  "b \<notin> fst ` set xs \<Longrightarrow>
   store b m' (set_view (xs @ (b, m) # ys) nx a) = set_view (xs @ (b, m') # ys) nx a"
  using map_of_upd_mid [of b xs m ys m'] by (simp add: store_def set_view_def)

lemma new_block_view [view_simps]:
  "nx \<notin> fst ` set xs \<Longrightarrow>
   new_block m (set_view bs nx a) =
     (nx, (set_view bs (Suc nx) a)\<lparr>heap := (map_of bs)(nx \<mapsto> m)\<rparr>)"
  by (simp add: new_block_def set_view_def)

lemma set_view_insert:
  "nx \<notin> fst ` set xs \<Longrightarrow>
   (set_view (xs @ ys) (Suc nx) a)\<lparr>heap := (map_of (xs @ ys))(nx \<mapsto> m),
      list_blocks := insert_at (length xs) nx (map fst (xs @ ys))\<rparr>
   = set_view (xs @ (nx, m) # ys) (Suc nx) a"
  using map_of_ins_mid [of nx xs ys m] by (simp add: set_view_def insert_at_def)

lemma iter_get_mid [simp]: "iter_get (map fst (xs @ (b, m) # ys)) (length xs) = Some b"
  by (simp add: iter_get_def nth_append)

lemma iter_next_mid [simp]: "iter_next (map fst (xs @ x # ys)) (length xs) = Some (Suc (length xs))"
  by (simp add: iter_next_def)

lemma appendfollow_view [view_simps]:
  assumes d: "distinct (map fst (xs @ (b, m) # (c, k) # ys))"
  shows "appendfollow (set_view (xs @ (b, m) # (c, k) # ys) nx a) (length xs)
    = Some (set_view (xs @ (b, m\<lparr>mb_size := sz_add (mb_size m) (mb_size k)\<rparr>) # ys) nx a)"
proof -
  have c: "c \<notin> fst ` set xs" "c \<noteq> b" "b \<notin> fst ` set xs" "c \<notin> fst ` set ys" using d by auto
  have del: "(map_of (xs @ (b, m) # (c, k) # ys))(c := None) = map_of (xs @ (b, m) # ys)"
    using map_of_del_mid [of c "xs @ [(b, m)]" ys k] c by simp
  have upd: "(map_of (xs @ (b, m) # ys))(b \<mapsto> k') = map_of (xs @ (b, k') # ys)" for k'
    using map_of_upd_mid [of b xs m ys] c by simp
  show ?thesis using c
    by (simp add: appendfollow_def iter_next_def iter_get_def nth_append delete_block_def del
        erase_at_def iter_prev_def store_def set_view_def upd)
qed

text \<open>Coalescing on the view.\<close>

definition absorb :: "blk \<times> MemoryBlock \<Rightarrow> blk \<times> MemoryBlock \<Rightarrow> blk \<times> MemoryBlock" where
  "absorb x y = (fst x, (snd x)\<lparr>mb_size := sz_add (mb_size (snd x)) (mb_size (snd y))\<rparr>)"

fun join_next :: "blk \<times> MemoryBlock \<Rightarrow> view \<Rightarrow> view" where
  "join_next x [] = [x]"
| "join_next x (y # ys) = (if mb_free (snd y) then absorb x y # ys else x # y # ys)"

definition join_view :: "view \<Rightarrow> blk \<times> MemoryBlock \<Rightarrow> view \<Rightarrow> view" where
  "join_view xs x ys =
     (if xs \<noteq> [] \<and> mb_free (snd (last xs)) then butlast xs @ join_next (absorb (last xs) x) ys
      else xs @ join_next x ys)"

lemma joinfree_follow_view:
  assumes d: "distinct (map fst (xs @ x # ys))"
  shows "joinfree_follow (set_view (xs @ x # ys) nx a) (length xs) = Some (set_view (xs @ join_next x ys) nx a)"
proof (cases ys)
  case Nil
  then show ?thesis by (simp add: joinfree_follow_def iter_next_def)
next
  case (Cons y zs)
  obtain b m c k where xy: "x = (b, m)" "y = (c, k)" by (metis surj_pair)
  have c: "c \<notin> fst ` set xs" "c \<noteq> b" using d by (auto simp: xy Cons)
  have dd: "distinct (map fst (xs @ (b, m) # (c, k) # zs))" using d by (simp add: xy Cons)
  show ?thesis using c appendfollow_view [OF dd]
    by (simp add: joinfree_follow_def iter_next_def iter_get_def nth_append iter_prev_def
        xy Cons absorb_def)
qed

lemma joinfree_view [view_simps]:
  assumes d: "distinct (map fst (xs @ x # ys))"
  shows "joinfree (set_view (xs @ x # ys) nx a) (length xs) = Some (set_view (join_view xs x ys) nx a)"
proof (cases xs rule: rev_cases)
  case Nil
  then show ?thesis using joinfree_follow_view [of "[]" x ys nx a] d
    by (simp add: joinfree_def joinfree_before_def join_view_def)
next
  case (snoc zs w)
  obtain b m c k where wx: "w = (b, m)" "x = (c, k)" by (metis surj_pair)
  have dd: "distinct (map fst (zs @ (b, m) # (c, k) # ys))" using d by (simp add: snoc wx)
  have b: "b \<notin> fst ` set zs" using dd by auto
  show ?thesis
  proof (cases "mb_free m")
    case True
    have d2: "distinct (map fst (zs @ absorb w x # ys))" using dd by (simp add: absorb_def wx)
    show ?thesis using True b appendfollow_view [OF dd, of nx a] joinfree_follow_view [OF d2, of nx a]
      by (simp add: joinfree_def joinfree_before_def join_view_def snoc iter_prev_def iter_get_def
          nth_append wx absorb_def)
  next
    case False
    show ?thesis using False b joinfree_follow_view [OF d, of nx a]
      by (simp add: joinfree_def joinfree_before_def join_view_def snoc iter_prev_def iter_get_def
          iter_next_def nth_append wx)
  qed
qed

text \<open>Searching and splitting on the view.\<close>

definition fits :: "size_t \<Rightarrow> blk \<times> MemoryBlock \<Rightarrow> bool" where
  "fits N x \<longleftrightarrow> mb_free (snd x) \<and> N \<le> mb_size (snd x)"

lemma findblock_loop_view:
  "\<forall>x \<in> set ys. h (fst x) = Some (snd x) \<Longrightarrow>
   findblock_loop h N (map fst ys) it = Some (it + length (takeWhile (\<lambda>x. \<not> fits N x) ys))"
  by (induction ys arbitrary: it) (auto simp: fits_def)

lemma findblock_view [view_simps]:
  assumes "distinct (map fst bs)"
  shows "findblock (set_view bs nx a) N = Some (length (takeWhile (\<lambda>x. \<not> fits N x) bs))"
  using assms by (simp add: findblock_def findblock_loop_view)

lemma takeWhile_found:
  "\<forall>y \<in> set xs. \<not> fits N y \<Longrightarrow> fits N x \<Longrightarrow> takeWhile (\<lambda>x. \<not> fits N x) (xs @ x # ys) = xs"
  by (induction xs) auto

lemma takeWhile_end:
  "\<forall>y \<in> set xs. \<not> fits N y \<Longrightarrow> takeWhile (\<lambda>x. \<not> fits N x) xs = xs"
  by (induction xs) auto

definition split_view :: "view \<Rightarrow> blk \<times> MemoryBlock \<Rightarrow> view \<Rightarrow> blk \<Rightarrow> size_t \<Rightarrow> bool \<Rightarrow> view" where
  "split_view xs x ys nx N fr =
     xs @ (nx, \<lparr>mb_ptr = mb_ptr (snd x), mb_size = N, mb_free = fr\<rparr>)
        # (fst x, (snd x)\<lparr>mb_size := sz_sub (mb_size (snd x)) N, mb_ptr := mb_ptr (snd x) + N\<rparr>) # ys"

lemma shortSizeBlock_view [view_simps]:
  assumes w: "view_wf (xs @ x # ys) nx" and free: "mb_free (snd x)"
  shows "shortSizeBlock (set_view (xs @ x # ys) nx a) (length xs) N
    = Some (length xs, set_view (split_view xs x ys nx N True) (Suc nx) a)"
proof -
  obtain b m where x: "x = (b, m)" by force
  have c: "b \<notin> fst ` set xs" "nx \<notin> fst ` set xs" using w by (auto simp: view_wf_def x)
  have f: "m\<lparr>mb_size := s, mb_ptr := p, mb_free := True\<rparr> = m\<lparr>mb_size := s, mb_ptr := p\<rparr>" for s p
    using free by (simp add: x)
  show ?thesis using c free
    set_view_insert [of nx xs "(b, m\<lparr>mb_size := sz_sub (mb_size m) N, mb_ptr := mb_ptr m + N\<rparr>) # ys"
      "\<lparr>mb_ptr = mb_ptr m, mb_size = N, mb_free = True\<rparr>" a]
    by (simp add: shortSizeBlock_def iter_get_def nth_append x store_view new_block_view f
        iter_prev_def split_view_def)
qed

lemma alloc_at_exact_view [view_simps]:
  assumes "b \<notin> fst ` set xs" "mb_size m = N"
  shows "alloc_at (set_view (xs @ (b, m) # ys) nx a) (length xs) N
    = Some (Pointer (Some b), set_view (xs @ (b, m\<lparr>mb_free := False\<rparr>) # ys) nx
        (a\<lparr>size_free_memory := sz_sub (size_free_memory a) N\<rparr>))"
  using assms by (simp add: alloc_at_def iter_get_def nth_append store_view)

lemma alloc_at_split_view [view_simps]:
  assumes w: "view_wf (xs @ x # ys) nx" and "mb_size (snd x) \<noteq> N"
  shows "alloc_at (set_view (xs @ x # ys) nx a) (length xs) N
    = Some (Pointer (Some nx), set_view (split_view xs x ys nx N False) (Suc nx)
        (a\<lparr>size_free_memory := sz_sub (size_free_memory a) N\<rparr>))"
proof -
  obtain b m where x: "x = (b, m)" by force
  have c: "b \<notin> fst ` set xs" "nx \<notin> fst ` set xs" using w by (auto simp: view_wf_def x)
  show ?thesis using c assms(2)
    set_view_insert [of nx xs "(b, m\<lparr>mb_size := sz_sub (mb_size m) N, mb_ptr := mb_ptr m + N\<rparr>) # ys"
      "\<lparr>mb_ptr = mb_ptr m, mb_size = N, mb_free = False\<rparr>" a]
    by (simp add: alloc_at_def iter_get_def nth_append x store_view new_block_view split_view_def
        flip: set_view_upd)
qed

section \<open>Defragmentation on the view\<close>

definition used :: "view \<Rightarrow> view" where
  "used bs = filter (\<lambda>x. \<not> mb_free (snd x)) bs"

definition view_size :: "view \<Rightarrow> nat" where
  "view_size bs = sum_list (map (\<lambda>x. mb_size (snd x)) bs)"

fun relocate :: "addr \<Rightarrow> view \<Rightarrow> view" where
  "relocate p [] = []"
| "relocate p (x # xs) = (fst x, (snd x)\<lparr>mb_ptr := p\<rparr>) # relocate (p + mb_size (snd x)) xs"

fun moved :: "memory \<Rightarrow> addr \<Rightarrow> view \<Rightarrow> memory" where
  "moved m p [] = m"
| "moved m p (x # xs) =
     moved (copied m p (mb_ptr (snd x)) (mb_size (snd x))) (p + mb_size (snd x)) xs"

definition copy_safe :: "addr \<Rightarrow> addr \<Rightarrow> addr \<Rightarrow> view \<Rightarrow> bool" where
  "copy_safe lo hi p us \<longleftrightarrow> lo \<le> p \<and> p + view_size us \<le> hi \<and>
     (\<forall>x \<in> set us. lo \<le> mb_ptr (snd x) \<and> mb_ptr (snd x) + mb_size (snd x) \<le> hi \<and>
        (p + view_size us \<le> mb_ptr (snd x) \<or> mb_ptr (snd x) + mb_size (snd x) \<le> p))"

lemma used_simps [simp]:
  "used [] = []"
  "used (x # xs) = (if mb_free (snd x) then used xs else x # used xs)"
  "used (xs @ ys) = used xs @ used ys"
  by (simp_all add: used_def)

lemma view_size_simps [simp]:
  "view_size [] = 0" "view_size (x # xs) = mb_size (snd x) + view_size xs" "view_size (xs @ ys) = view_size xs + view_size ys"
  by (simp_all add: view_size_def)

lemma map_fst_relocate [simp]: "map fst (relocate p us) = map fst us"
  by (induction us arbitrary: p) auto

lemma view_size_relocate [simp]: "view_size (relocate p us) = view_size us"
  by (induction us arbitrary: p) auto

lemma set_used: "set (used bs) \<subseteq> set bs"
  by (auto simp: used_def)

lemma notin_used: "b \<notin> fst ` set bs \<Longrightarrow> b \<notin> fst ` set (used bs)"
  using set_used [of bs] by blast

lemma distinct_used: "distinct (map fst bs) \<Longrightarrow> distinct (map fst (used bs))"
  by (simp add: used_def distinct_map_filter)

lemma arena_memcpy_Some:
  "copy_safe (ptr_memory a) (ptr_memory a + size_memory a) p (x # us) \<Longrightarrow>
   arena_memcpy p (mb_ptr (snd x)) (mb_size (snd x)) a
     = Some (a\<lparr>mem := copied (mem a) p (mb_ptr (snd x)) (mb_size (snd x))\<rparr>)"
  by (auto simp: arena_memcpy_def memcpy_def copy_safe_def)

lemma copy_safe_tl:
  "copy_safe lo hi p (x # us) \<Longrightarrow> copy_safe lo hi (p + mb_size (snd x)) us"
  by (fastforce simp: copy_safe_def)

lemma defrag_loop_view:
  assumes "distinct (map fst (ds @ ys @ zs))" "heap a = map_of (ds @ ys @ zs)"
    and "copy_safe (ptr_memory a) (ptr_memory a + size_memory a) p (used ys)"
  shows "defrag_loop (map fst ys) a p (map fst ds)
    = Some (a\<lparr>heap := map_of (ds @ relocate p (used ys) @ zs), mem := moved (mem a) p (used ys)\<rparr>,
            p + view_size (used ys), map fst ds @ map fst (used ys))"
  using assms
proof (induction ys arbitrary: ds a p)
  case Nil
  then show ?case by simp
next
  case (Cons x ys)
  obtain b m where x: "x = (b, m)" by force
  have b: "b \<notin> fst ` set ds" "b \<notin> fst ` set (ys @ zs)" using Cons.prems(1) by (auto simp: x)
  have h: "heap a b = Some m" using b Cons.prems(2) by (simp add: x)
  show ?case
  proof (cases "mb_free m")
    case True
    have "(heap a)(b := None) = map_of (ds @ ys @ zs)"
      using b Cons.prems(2) by (simp add: x map_of_del_mid)
    then show ?thesis using True h Cons.prems Cons.IH [of ds "a\<lparr>heap := (heap a)(b := None)\<rparr>" p]
      by (simp add: x delete_block_def)
  next
    case False
    let ?m = "m\<lparr>mb_ptr := p\<rparr>"
    let ?a = "store b ?m (a\<lparr>mem := copied (mem a) p (mb_ptr m) (mb_size m)\<rparr>)"
    have cs: "copy_safe (ptr_memory a) (ptr_memory a + size_memory a) p ((b, m) # used ys)"
      using Cons.prems(3) False by (simp add: x)
    have "heap ?a = map_of ((ds @ [(b, ?m)]) @ ys @ zs)"
      using b Cons.prems(2) by (simp add: x store_def map_of_upd_mid)
    moreover have "distinct (map fst ((ds @ [(b, ?m)]) @ ys @ zs))" using Cons.prems(1) by (simp add: x)
    ultimately have "defrag_loop (map fst ys) ?a (p + mb_size m) (map fst (ds @ [(b, ?m)])) =
        Some (?a\<lparr>heap := map_of ((ds @ [(b, ?m)]) @ relocate (p + mb_size m) (used ys) @ zs),
                mem := moved (mem ?a) (p + mb_size m) (used ys)\<rparr>,
              p + mb_size m + view_size (used ys), map fst (ds @ [(b, ?m)]) @ map fst (used ys))"
      using copy_safe_tl [OF cs] by (intro Cons.IH) (simp_all add: store_def)
    then show ?thesis using False h arena_memcpy_Some [OF cs] by (simp add: x store_def add.assoc)
  qed
qed

lemma relocate_append [simp]: "relocate p (xs @ ys) = relocate p xs @ relocate (p + view_size xs) ys"
  by (induction xs arbitrary: p) (auto simp: add.assoc)

lemma moved_append [simp]: "moved m p (xs @ ys) = moved (moved m p xs) (p + view_size xs) ys"
  by (induction xs arbitrary: m p) (auto simp: add.assoc)

lemma copy_safe_appendD1: "copy_safe lo hi p (xs @ ys) \<Longrightarrow> copy_safe lo hi p xs"
  by (auto simp: copy_safe_def ball_Un)

lemma copy_safe_appendD2:
  "copy_safe lo hi p (xs @ ys) \<Longrightarrow> copy_safe lo hi (p + view_size xs) ys"
  by (auto simp: copy_safe_def ball_Un)

definition defragged :: "view \<Rightarrow> blk \<Rightarrow> Allocator \<Rightarrow> Allocator" where
  "defragged us nx a =
     set_view (relocate (other_part a) us
         @ [(nx, \<lparr>mb_ptr = other_part a + view_size us, mb_size = size_free_memory a, mb_free = True\<rparr>)])
       (Suc nx) (a\<lparr>mem := moved (mem a) (other_part a) us, ping_pong := \<not> ping_pong a\<rparr>)"

lemma fst_used_fresh: "view_wf bs nx \<Longrightarrow> nx \<notin> fst ` set (used bs)"
  using set_used [of bs] by (auto simp: view_wf_def)

lemma fst_relocate_set [simp]: "fst ` set (relocate p us) = fst ` set us"
  by (metis list.set_map map_fst_relocate)

lemma defrag_finish_view:
  assumes "nx \<notin> fst ` set us" "next_blk a = nx"
  shows "defrag_finish (a\<lparr>heap := map_of (relocate (other_part a) us), mem := m\<rparr>) q (map fst us)
    = set_view (relocate (other_part a) us
         @ [(nx, \<lparr>mb_ptr = q, mb_size = size_free_memory a, mb_free = True\<rparr>)])
       (Suc nx) (a\<lparr>mem := m, ping_pong := \<not> ping_pong a\<rparr>)"
  using map_of_ins_mid [of nx "relocate (other_part a) us" "[]"] assms
  by (simp add: defrag_finish_def new_block_def set_view_def)

lemma other_part_set_view [simp]: "other_part (set_view bs nx a) = other_part a"
  by (simp add: other_part_def)

lemma heap_mem_swap: "(a::Allocator)\<lparr>heap := h, mem := m\<rparr> = a\<lparr>mem := m, heap := h\<rparr>"
  by simp

lemma defrag_view [view_simps]:
  assumes w: "view_wf bs nx"
    and cs: "copy_safe (ptr_memory a) (ptr_memory a + size_memory a) (other_part a) (used bs)"
  shows "defrag (set_view bs nx a) = Some (defragged (used bs) nx a)"
proof -
  note defrag_loop_view [of "[]" bs "[]" "set_view bs nx a" "other_part a"]
  moreover note defrag_finish_view [of nx "used bs" "set_view bs nx a"
      "moved (mem a) (other_part a) (used bs)" "other_part a + view_size (used bs)"]
  ultimately show ?thesis using fst_used_fresh [OF w] w cs
    by (simp add: defrag_def defragged_def view_wf_def)
qed

lemma defragWithLast_view [view_simps]:
  assumes w: "view_wf (xs @ (b, m) # ys) nx"
    and cs: "copy_safe (ptr_memory a) (ptr_memory a + size_memory a) (other_part a)
      (used (xs @ ys) @ [(b, m)])"
  shows "defragWithLast (set_view (xs @ (b, m) # ys) nx a) (length xs)
    = Some (defragged (used (xs @ ys) @ [(b, m)]) nx a)"
proof -
  let ?bs = "xs @ (b, m) # ys" and ?us = "used (xs @ ys)" and ?p = "other_part a"
  let ?q = "?p + view_size ?us"
  have b: "b \<notin> fst ` set xs" "b \<notin> fst ` set ys" using w by (auto simp: view_wf_def)
  have bu: "b \<notin> fst ` set (relocate ?p ?us)" using b notin_used [of b "xs @ ys"]
    by (simp only: fst_relocate_set) auto
  have perm: "map_of ?bs = map_of (xs @ ys @ [(b, m)])"
    using map_of_ins_mid [of b xs ys m] map_of_ins_mid [of b "xs @ ys" "[]" m] b
    by (simp add: image_Un)
  let ?a1 = "(set_view ?bs nx (a\<lparr>mem := moved (mem a) ?p ?us\<rparr>))\<lparr>heap := map_of (relocate ?p ?us @ [(b, m)])\<rparr>"
  have "distinct (map fst ([] @ (xs @ ys) @ [(b, m)]))" using w by (auto simp: view_wf_def)
  from defrag_loop_view [OF this, of "set_view ?bs nx a" ?p] copy_safe_appendD1 [OF cs] perm
  have loop: "defrag_loop (map fst xs @ map fst ys) (set_view ?bs nx a) ?p [] = Some (?a1, ?q, map fst ?us)"
    by (simp add: heap_mem_swap)
  have "copy_safe (ptr_memory a) (ptr_memory a + size_memory a) ?q [(b, m)]"
    using copy_safe_appendD2 [OF cs] .
  then have mc: "arena_memcpy ?q (mb_ptr m) (mb_size m) ?a1
      = Some (?a1\<lparr>mem := copied (mem ?a1) ?q (mb_ptr m) (mb_size m)\<rparr>)"
    using arena_memcpy_Some [of ?a1 ?q "(b, m)" "[]"] by simp
  have st: "(map_of (relocate ?p ?us @ [(b, m)]))(b \<mapsto> m') = map_of (relocate ?p ?us @ [(b, m')])" for m'
    using map_of_upd_mid [OF bu, of m "[]"] by simp
  have er: "erase_at (length xs) (map fst ?bs) = map fst xs @ map fst ys"
    by (simp add: erase_at_def)
  have hb: "map_of (relocate ?p ?us @ [(b, m)]) b = Some m" using map_of_mid [OF bu] .
  have nx: "nx \<notin> fst ` set (?us @ [(b, m)])"
    using fst_used_fresh [of "xs @ ys" nx] w by (auto simp: view_wf_def)
  have fin: "defrag_finish (?a1\<lparr>heap := map_of (relocate ?p ?us @ [(b, m\<lparr>mb_ptr := ?q\<rparr>)]),
        mem := copied (moved (mem a) ?p ?us) ?q (mb_ptr m) (mb_size m)\<rparr>) (?q + mb_size m) (map fst ?us @ [b])
      = defragged (?us @ [(b, m)]) nx a"
    using defrag_finish_view [of nx "?us @ [(b, m)]" "set_view ?bs nx a"
        "copied (moved (mem a) ?p ?us) ?q (mb_ptr m) (mb_size m)" "?q + mb_size m"] nx
    by (simp add: defragged_def add.assoc heap_mem_swap del: used_simps)
  show ?thesis using fin
    by (simp add: defragWithLast_def er loop mc hb store_def st iter_get_mid heap_mem_swap
        del: used_simps relocate_append map_append)
qed

end
