(* ===== verification/Alloc_Inv.thy ===== *)
theory Alloc_Inv
  imports Alloc_View
begin

text \<open>
  The allocator's invariant (\<open>alloc_inv\<close>), its abstraction (\<open>contents\<close>: block address to
  the bytes the client owns) and the preservation of both by every operation, proved on
  views.
\<close>

section \<open>Invariant and abstraction\<close>

definition cur_part :: "Allocator \<Rightarrow> addr" where
  "cur_part a = (if ping_pong a then ptr_memory_part2 a else ptr_memory_part1 a)"

fun tiles :: "addr \<Rightarrow> view \<Rightarrow> bool" where
  "tiles p [] = True"
| "tiles p (x # xs) = (mb_ptr (snd x) = p \<and> tiles (p + mb_size (snd x)) xs)"

definition free_size :: "view \<Rightarrow> nat" where
  "free_size bs = view_size (filter (\<lambda>x. mb_free (snd x)) bs)"

definition coalesced :: "view \<Rightarrow> bool" where
  "coalesced bs = successively (\<lambda>x y. \<not> (mb_free (snd x) \<and> mb_free (snd y))) bs"

definition layout :: "Allocator \<Rightarrow> bool" where
  "layout a \<longleftrightarrow> ptr_memory_part1 a = ptr_memory a
     \<and> ptr_memory_part2 a = ptr_memory a + size_memory_part a
     \<and> 2 * size_memory_part a \<le> size_memory a \<and> ptr_memory a + size_memory a < SZ"

definition view_inv :: "view \<Rightarrow> blk \<Rightarrow> Allocator \<Rightarrow> bool" where
  "view_inv bs nx a \<longleftrightarrow> view_wf bs nx \<and> layout a \<and> tiles (cur_part a) bs
     \<and> view_size bs = size_memory_part a \<and> free_size bs = size_free_memory a \<and> coalesced bs"

definition alloc_inv :: "Allocator \<Rightarrow> bool" where
  "alloc_inv a \<longleftrightarrow> store_wf a \<and> view_inv (blocks a) (next_blk a) a"

definition bytes_of :: "memory \<Rightarrow> view \<Rightarrow> (blk \<times> byte list) list" where
  "bytes_of m us = map (\<lambda>x. (fst x, rd_bytes m (mb_ptr (snd x)) (mb_size (snd x)))) us"

text \<open>What a client sees: each allocated block with its bytes.\<close>

definition contents :: "Allocator \<Rightarrow> blk \<rightharpoonup> byte list" where
  "contents a b = (case heap a b of
      None \<Rightarrow> None
    | Some m \<Rightarrow> if mb_free m then None else Some (rd_bytes (mem a) (mb_ptr m) (mb_size m)))"

subsection \<open>Lists of blocks\<close>

lemma free_size_simps [simp]:
  "free_size [] = 0"
  "free_size (x # xs) = (if mb_free (snd x) then mb_size (snd x) else 0) + free_size xs"
  "free_size (xs @ ys) = free_size xs + free_size ys"
  by (simp_all add: free_size_def)

lemma tiles_append [simp]: "tiles p (xs @ ys) \<longleftrightarrow> tiles p xs \<and> tiles (p + view_size xs) ys"
  by (induction xs arbitrary: p) (auto simp: add.assoc)

lemma tiles_relocate [simp]: "tiles p (relocate p us)"
  by (induction us arbitrary: p) auto

lemma tiles_range: "tiles p bs \<Longrightarrow> x \<in> set bs \<Longrightarrow>
   p \<le> mb_ptr (snd x) \<and> mb_ptr (snd x) + mb_size (snd x) \<le> p + view_size bs"
  by (induction bs arbitrary: p) fastforce+

lemma used_free_size: "view_size bs = view_size (used bs) + free_size bs"
  by (induction bs) auto

lemma free_size_used [simp]: "free_size (used bs) = 0"
  by (induction bs) auto

lemma used_used [simp]: "used (used bs) = used bs"
  by (induction bs) auto

lemma used_relocate [simp]: "used (relocate p (used us)) = relocate p (used us)"
  by (induction us arbitrary: p) auto

lemma not_free_used: "x \<in> set (used bs) \<Longrightarrow> \<not> mb_free (snd x)"
  by (simp add: used_def)

lemma coalesced_append:
  "coalesced (xs @ ys) \<longleftrightarrow> coalesced xs \<and> coalesced ys
     \<and> \<not> (xs \<noteq> [] \<and> ys \<noteq> [] \<and> mb_free (snd (last xs)) \<and> mb_free (snd (hd ys)))"
  by (auto simp: coalesced_def successively_append_iff)

lemma coalesced_simps [simp]:
  "coalesced []" "coalesced [x]"
  "coalesced (x # y # zs) \<longleftrightarrow> \<not> (mb_free (snd x) \<and> mb_free (snd y)) \<and> coalesced (y # zs)"
  by (simp_all add: coalesced_def)

lemma coalesced_Cons:
  "coalesced (x # ys) \<longleftrightarrow> coalesced ys \<and> \<not> (ys \<noteq> [] \<and> mb_free (snd x) \<and> mb_free (snd (hd ys)))"
  by (cases ys) auto

lemma coalesced_all_used: "\<forall>x \<in> set us. \<not> mb_free (snd x) \<Longrightarrow> coalesced us"
  by (induction us) (auto simp: coalesced_Cons)

lemma not_free_relocate: "x \<in> set (relocate p (used us)) \<Longrightarrow> \<not> mb_free (snd x)"
  by (metis not_free_used used_relocate)

lemma bytes_of_simps [simp]:
  "bytes_of m [] = []"
  "bytes_of m (x # xs) = (fst x, rd_bytes m (mb_ptr (snd x)) (mb_size (snd x))) # bytes_of m xs"
  "bytes_of m (xs @ ys) = bytes_of m xs @ bytes_of m ys"
  by (simp_all add: bytes_of_def)

lemma fst_bytes_of [simp]: "fst ` set (bytes_of m us) = fst ` set us"
  by (induction us) auto

lemma moved_below: "x < p \<or> p + view_size us \<le> x \<Longrightarrow> moved m p us x = m x"
  by (induction us arbitrary: m p) (auto simp: copied_def)

text \<open>Relocation preserves every byte of every block.\<close>

lemma bytes_of_moved:
  "copy_safe lo hi p us \<Longrightarrow> bytes_of (moved m p us) (relocate p us) = bytes_of m us"
proof (induction us arbitrary: m p)
  case Nil
  then show ?case by simp
next
  case (Cons x us)
  let ?n = "mb_size (snd x)" and ?src = "mb_ptr (snd x)"
  let ?m = "copied m p ?src ?n"
  have "rd_bytes (moved ?m (p + ?n) us) p ?n = rd_bytes ?m p ?n"
    by (rule rd_bytes_cong) (simp add: moved_below)
  moreover have "bytes_of ?m us = bytes_of m us"
    using Cons.prems by (auto simp: bytes_of_def copy_safe_def intro!: rd_bytes_copied_outside)
  moreover have "bytes_of (moved ?m (p + ?n) us) (relocate (p + ?n) us) = bytes_of ?m us"
    using copy_safe_tl [OF Cons.prems] by (rule Cons.IH)
  ultimately show ?case by simp
qed

subsection \<open>The invariant on views\<close>

lemma layout_set_view [simp]: "layout (set_view bs nx a) = layout a"
  by (simp add: layout_def)

lemma cur_part_set_view [simp]: "cur_part (set_view bs nx a) = cur_part a"
  by (simp add: cur_part_def)

lemma view_inv_set_view [simp]: "view_inv bs nx (set_view bs' nx' a) = view_inv bs nx a"
  by (simp add: view_inv_def)

lemma alloc_inv_set_view [simp]: "alloc_inv (set_view bs nx a) = view_inv bs nx a"
proof
  assume "alloc_inv (set_view bs nx a)"
  then have s: "store_wf (set_view bs nx a)" and v: "view_inv (blocks (set_view bs nx a)) nx a"
    by (simp_all add: alloc_inv_def)
  have "view_wf bs nx" using s by (auto simp: store_wf_def view_wf_def)
  with v show "view_inv bs nx a" by (simp add: blocks_set_view)
next
  assume v: "view_inv bs nx a"
  then have "view_wf bs nx" by (simp add: view_inv_def)
  with v show "alloc_inv (set_view bs nx a)"
    by (simp add: alloc_inv_def blocks_set_view view_store_wf)
qed

lemma map_of_used_bytes:
  "distinct (map fst bs) \<Longrightarrow> map_of (bytes_of m (used bs)) b = (case map_of bs b of
      None \<Rightarrow> None
    | Some k \<Rightarrow> if mb_free k then None else Some (rd_bytes m (mb_ptr k) (mb_size k)))"
proof (induction bs)
  case Nil
  then show ?case by simp
next
  case (Cons x bs)
  have "fst x \<notin> fst ` set (used bs)" using Cons.prems notin_used [of "fst x" bs] by simp
  then have "map_of (bytes_of m (used bs)) (fst x) = None"
    by (simp add: map_of_eq_None_iff)
  then show ?case using Cons by auto
qed

lemma contents_set_view:
  "view_wf bs nx \<Longrightarrow> contents (set_view bs nx a) = map_of (bytes_of (mem a) (used bs))"
  by (rule ext) (simp add: contents_def map_of_used_bytes view_wf_def split: option.split)

text \<open>Every state with the invariant is a view.\<close>

lemma alloc_invE:
  assumes "alloc_inv a"
  obtains bs nx where "a = set_view bs nx a" "view_inv bs nx a" "view_wf bs nx" "bs = blocks a"
  using assms store_wf_view [of a] by (auto simp: alloc_inv_def)

lemma view_inv_bounds:
  assumes "view_inv bs nx a"
  shows "size_memory_part a < SZ" "size_free_memory a \<le> size_memory_part a"
    "x \<in> set bs \<Longrightarrow> mb_size (snd x) \<le> size_memory_part a"
proof -
  show "size_memory_part a < SZ" using assms by (auto simp: view_inv_def layout_def)
  show "size_free_memory a \<le> size_memory_part a"
    using assms used_free_size [of bs] by (simp add: view_inv_def)
  assume "x \<in> set bs"
  then have "mb_size (snd x) \<le> view_size bs" by (induction bs) auto
  then show "mb_size (snd x) \<le> size_memory_part a" using assms by (simp add: view_inv_def)
qed

lemma view_inv_copy_safe:
  assumes v: "view_inv bs nx a" and us: "set us \<subseteq> set bs" "view_size us \<le> size_memory_part a"
  shows "copy_safe (ptr_memory a) (ptr_memory a + size_memory a) (other_part a) us"
proof -
  have t: "tiles (cur_part a) bs" "view_size bs = size_memory_part a" "layout a"
    using v by (auto simp: view_inv_def)
  have "\<forall>x \<in> set us. cur_part a \<le> mb_ptr (snd x) \<and>
      mb_ptr (snd x) + mb_size (snd x) \<le> cur_part a + size_memory_part a"
    using tiles_range [OF t(1)] us(1) t(2) by auto
  then show ?thesis using t(3) us(2)
    by (fastforce simp: copy_safe_def layout_def cur_part_def other_part_def)
qed

subsection \<open>Coalescing\<close>

text \<open>
  A view is coarser than another when free neighbours were merged: the allocated blocks,
  the sizes and the tiling stay, and no address appears that was not there.
\<close>

definition coarser :: "view \<Rightarrow> view \<Rightarrow> bool" where
  "coarser bs bs' \<longleftrightarrow> used bs' = used bs \<and> view_size bs' = view_size bs \<and> free_size bs' = free_size bs
     \<and> (\<forall>p. tiles p bs \<longrightarrow> tiles p bs') \<and> (distinct (map fst bs) \<longrightarrow> distinct (map fst bs'))
     \<and> fst ` set bs' \<subseteq> fst ` set bs"

lemma coarser_refl [simp]: "coarser bs bs"
  by (simp add: coarser_def)

lemma coarser_trans: "coarser as bs \<Longrightarrow> coarser bs cs \<Longrightarrow> coarser as cs"
  by (simp add: coarser_def) (meson order_trans)

lemma coarser_absorb:
  assumes "mb_free (snd w)" "mb_free (snd x)" "view_size (zs @ w # x # ys) < SZ"
  shows "coarser (zs @ w # x # ys) (zs @ absorb w x # ys)"
  using assms by (auto simp: coarser_def absorb_def sz_simps add.assoc)

lemma coarser_join_next:
  assumes "mb_free (snd x)" "view_size (zs @ x # ys) < SZ"
  shows "coarser (zs @ x # ys) (zs @ join_next x ys)"
  using assms by (cases ys) (auto intro: coarser_absorb)

lemma coarser_join_view:
  assumes f: "mb_free (snd x)" and b: "view_size (xs @ x # ys) < SZ"
  shows "coarser (xs @ x # ys) (join_view xs x ys)"
proof (cases "xs \<noteq> [] \<and> mb_free (snd (last xs))")
  case True
  then obtain zs w where xs: "xs = zs @ [w]" and w: "mb_free (snd w)"
    by (cases xs rule: rev_cases) auto
  have c: "coarser (zs @ w # x # ys) (zs @ absorb w x # ys)"
    using w f b by (intro coarser_absorb) (simp_all add: xs)
  have "mb_free (snd (absorb w x))" using w by (simp add: absorb_def)
  moreover have "view_size (zs @ absorb w x # ys) < SZ" using c b by (simp add: coarser_def xs)
  ultimately have "coarser (zs @ absorb w x # ys) (zs @ join_next (absorb w x) ys)"
    by (rule coarser_join_next)
  then show ?thesis using coarser_trans [OF c] True by (simp add: join_view_def xs)
next
  case False
  then show ?thesis using coarser_join_next [OF f b] by (auto simp: join_view_def)
qed

lemma coalesced_join_next:
  "mb_free (snd x) \<Longrightarrow> coalesced ys \<Longrightarrow> coalesced (join_next x ys)"
  by (cases ys) (auto simp: absorb_def coalesced_Cons)

lemma join_next_not_Nil [simp]: "join_next x ys \<noteq> []"
  by (cases ys) auto

lemma coalesced_join_view:
  assumes f: "mb_free (snd x)" and c: "coalesced xs" "coalesced ys"
  shows "coalesced (join_view xs x ys)"
proof (cases "xs \<noteq> [] \<and> mb_free (snd (last xs))")
  case True
  then obtain zs w where xs: "xs = zs @ [w]" and w: "mb_free (snd w)"
    by (cases xs rule: rev_cases) auto
  have "mb_free (snd (absorb w x))" using w by (simp add: absorb_def)
  then have "coalesced (join_next (absorb w x) ys)" using c(2) by (rule coalesced_join_next)
  then show ?thesis using True c(1) w by (auto simp: join_view_def xs coalesced_append)
next
  case False
  then show ?thesis using coalesced_join_next [OF f c(2)] c(1) by (auto simp: join_view_def coalesced_append)
qed

end
