(* ===== verification/Alloc_Correct.thy ===== *)
theory Alloc_Correct
  imports Alloc_Inv
begin

text \<open>
  Each operation of the allocator against the invariant and the abstraction: no operation
  runs into undefined behaviour, every one keeps \<open>alloc_inv\<close>, and its effect on
  \<open>contents\<close> is the effect of the corresponding map operation.
\<close>

section \<open>Operations on views\<close>

lemma layout_upd [simp]:
  "layout (a\<lparr>size_free_memory := f\<rparr>) = layout a" "layout (a\<lparr>cout := c\<rparr>) = layout a"
  "layout (a\<lparr>mem := m\<rparr>) = layout a" "layout (a\<lparr>ping_pong := q\<rparr>) = layout a"
  by (simp_all add: layout_def)

lemma cur_part_upd [simp]:
  "cur_part (a\<lparr>size_free_memory := f\<rparr>) = cur_part a" "cur_part (a\<lparr>cout := c\<rparr>) = cur_part a"
  "cur_part (a\<lparr>mem := m\<rparr>) = cur_part a" "cur_part (a\<lparr>ping_pong := \<not> ping_pong a\<rparr>) = other_part a"
  by (simp_all add: cur_part_def other_part_def)

lemma view_inv_upd [simp]:
  "view_inv bs nx (a\<lparr>cout := c\<rparr>) = view_inv bs nx a"
  by (simp add: view_inv_def layout_def cur_part_def)

lemma view_inv_free_mem:
  "view_inv bs nx (a\<lparr>size_free_memory := f\<rparr>) \<longleftrightarrow>
     view_wf bs nx \<and> layout a \<and> tiles (cur_part a) bs \<and> view_size bs = size_memory_part a
     \<and> free_size bs = f \<and> coalesced bs"
  by (simp add: view_inv_def layout_def cur_part_def)

lemma view_inv_coarser:
  assumes "coarser bs bs'" "view_wf bs nx" "layout a" "tiles (cur_part a) bs"
    "view_size bs = size_memory_part a" "free_size bs = f" "coalesced bs'"
  shows "view_inv bs' nx (a\<lparr>size_free_memory := f\<rparr>)"
proof -
  have "fst ` set bs' \<subseteq> fst ` set bs" using assms(1) by (simp add: coarser_def)
  then have "\<forall>b \<in> fst ` set bs'. b < nx" using assms(2) unfolding view_wf_def by blast
  then show ?thesis using assms by (simp add: view_inv_free_mem coarser_def view_wf_def)
qed

text \<open>
  Cutting \<open>N\<close> bytes from the front of a block: a new block for the bytes when some are left
  over, the block itself otherwise.
\<close>

definition cut_blk :: "blk \<times> MemoryBlock \<Rightarrow> blk \<Rightarrow> size_t \<Rightarrow> blk" where
  "cut_blk x nx N = (if mb_size (snd x) = N then fst x else nx)"

definition cut_nx :: "blk \<times> MemoryBlock \<Rightarrow> blk \<Rightarrow> size_t \<Rightarrow> blk" where
  "cut_nx x nx N = (if mb_size (snd x) = N then nx else Suc nx)"

definition cut_rest :: "blk \<times> MemoryBlock \<Rightarrow> size_t \<Rightarrow> view" where
  "cut_rest x N = (if mb_size (snd x) = N then []
     else [(fst x, (snd x)\<lparr>mb_size := mb_size (snd x) - N, mb_ptr := mb_ptr (snd x) + N\<rparr>)])"

definition cut_view :: "bool \<Rightarrow> view \<Rightarrow> blk \<times> MemoryBlock \<Rightarrow> view \<Rightarrow> blk \<Rightarrow> size_t \<Rightarrow> view" where
  "cut_view fr xs x ys nx N =
     xs @ (cut_blk x nx N, \<lparr>mb_ptr = mb_ptr (snd x), mb_size = N, mb_free = fr\<rparr>) # cut_rest x N @ ys"

lemmas cut_defs = cut_blk_def cut_nx_def cut_rest_def cut_view_def

lemma block_eta: "m = \<lparr>mb_ptr = mb_ptr m, mb_size = mb_size m, mb_free = mb_free m\<rparr>"
  by simp

lemma block_free_upd:
  "m\<lparr>mb_free := fr\<rparr> = \<lparr>mb_ptr = mb_ptr m, mb_size = mb_size m, mb_free = fr\<rparr>"
  by (cases m) simp

lemma split_view_cut:
  "N \<le> mb_size (snd x) \<Longrightarrow> mb_size (snd x) < SZ \<Longrightarrow> mb_size (snd x) \<noteq> N \<Longrightarrow>
   split_view xs x ys nx N fr = cut_view fr xs x ys nx N"
  by (simp add: split_view_def cut_defs sz_sub_exact)

lemma fits_bounds:
  assumes v: "view_inv (xs @ x # ys) nx a" and f: "fits N x"
  shows "N \<le> mb_size (snd x)" "mb_size (snd x) < SZ" "N \<le> size_free_memory a" "mb_free (snd x)"
    "size_free_memory a < SZ"
  using view_inv_bounds(1,2) [OF v] view_inv_bounds(3) [OF v, of x] v f
  by (auto simp: fits_def view_inv_def)

lemma alloc_at_view:
  assumes v: "view_inv (xs @ x # ys) nx a" and f: "fits N x"
  shows "alloc_at (set_view (xs @ x # ys) nx a) (length xs) N
    = Some (Pointer (Some (cut_blk x nx N)), set_view (cut_view False xs x ys nx N) (cut_nx x nx N)
        (a\<lparr>size_free_memory := size_free_memory a - N\<rparr>))"
proof -
  note B = fits_bounds [OF v f]
  have w: "view_wf (xs @ x # ys) nx" using v by (simp add: view_inv_def)
  have F: "sz_sub (size_free_memory a) N = size_free_memory a - N" using B by (simp add: sz_sub_exact)
  show ?thesis
  proof (cases "mb_size (snd x) = N")
    case True
    obtain b m where x: "x = (b, m)" by force
    have "b \<notin> fst ` set xs" using w by (auto simp: view_wf_def x)
    from alloc_at_exact_view [OF this, of m N ys nx a] show ?thesis using True F
      by (simp add: x cut_defs block_free_upd)
  next
    case False
    from alloc_at_split_view [OF w this, of a] show ?thesis
      using False F split_view_cut [OF B(1,2) False] by (simp add: cut_blk_def cut_nx_def)
  qed
qed

lemma cut_view_wf:
  assumes "view_wf (xs @ x # ys) nx"
  shows "view_wf (cut_view fr xs x ys nx N) (cut_nx x nx N)"
  using assms by (auto simp: view_wf_def cut_defs intro: less_SucI)

lemma cut_view_inv:
  assumes v: "view_inv (xs @ x # ys) nx a" and f: "fits N x"
  shows "view_inv (cut_view False xs x ys nx N) (cut_nx x nx N)
    (a\<lparr>size_free_memory := size_free_memory a - N\<rparr>)"
proof -
  note B = fits_bounds [OF v f]
  have "tiles (cur_part a) (cut_view False xs x ys nx N)"
    using v B by (auto simp: view_inv_def cut_defs add.assoc)
  moreover have "view_size (cut_view False xs x ys nx N) = size_memory_part a"
    "free_size (cut_view False xs x ys nx N) = size_free_memory a - N"
    using v B by (auto simp: view_inv_def cut_defs)
  moreover have "coalesced (cut_view False xs x ys nx N)"
    using v B by (auto simp: view_inv_def cut_defs coalesced_append coalesced_Cons)
  ultimately show ?thesis using v cut_view_wf by (simp add: view_inv_def)
qed

lemma used_cut_view:
  "mb_free (snd x) \<Longrightarrow> used (cut_view fr xs x ys nx N) = used xs
     @ (if fr then [] else [(cut_blk x nx N, \<lparr>mb_ptr = mb_ptr (snd x), mb_size = N, mb_free = False\<rparr>)])
     @ used ys"
  by (simp add: cut_defs)

lemma cut_blk_fresh:
  assumes w: "view_wf (xs @ x # ys) nx" and f: "mb_free (snd x)"
  shows "cut_blk x nx N \<notin> fst ` set (used (xs @ x # ys))"
proof -
  have "fst x \<notin> fst ` set xs" "fst x \<notin> fst ` set ys" using w by (auto simp: view_wf_def)
  then have "fst x \<notin> fst ` set (used (xs @ x # ys))"
    using f notin_used [of "fst x" xs] notin_used [of "fst x" ys] by auto
  then show ?thesis using fst_used_fresh [OF w] by (simp add: cut_blk_def)
qed

section \<open>Defragmentation\<close>

definition after_defrag :: "view \<Rightarrow> blk \<Rightarrow> Allocator \<Rightarrow> view" where
  "after_defrag us nx a = relocate (other_part a) us
     @ [(nx, \<lparr>mb_ptr = other_part a + view_size us, mb_size = size_free_memory a, mb_free = True\<rparr>)]"

definition swapped :: "view \<Rightarrow> Allocator \<Rightarrow> Allocator" where
  "swapped us a = a\<lparr>mem := moved (mem a) (other_part a) us, ping_pong := \<not> ping_pong a\<rparr>"

lemma defragged_eq: "defragged us nx a = set_view (after_defrag us nx a) (Suc nx) (swapped us a)"
  by (simp add: defragged_def after_defrag_def swapped_def)

lemma swapped_sel [simp]:
  "size_free_memory (swapped us a) = size_free_memory a" "layout (swapped us a) = layout a"
  "size_memory_part (swapped us a) = size_memory_part a" "cur_part (swapped us a) = other_part a"
  "mem (swapped us a) = moved (mem a) (other_part a) us" "cout (swapped us a) = cout a"
  by (simp_all add: swapped_def layout_def cur_part_def other_part_def)

lemma perm_used:
  assumes "mset us = mset (used bs)"
  shows "set us = set (used bs)" "used us = us" "view_size us = view_size (used bs)" "free_size us = 0"
    "set us \<subseteq> set bs"
proof -
  show s: "set us = set (used bs)" using assms by (metis set_mset_mset)
  then show "set us \<subseteq> set bs" using set_used by auto
  have n: "\<forall>x \<in> set us. \<not> mb_free (snd x)" using s not_free_used by auto
  then show "used us = us" "free_size us = 0" by (auto simp: used_def free_size_def filter_id_conv filter_empty_conv)
  have "view_size us = sum_mset (image_mset (\<lambda>x. mb_size (snd x)) (mset us))"
    by (simp add: view_size_def sum_mset_sum_list flip: mset_map)
  also have "\<dots> = view_size (used bs)"
    by (simp add: assms view_size_def sum_mset_sum_list flip: mset_map)
  finally show "view_size us = view_size (used bs)" .
qed

lemma perm_distinct:
  "mset us = mset (used bs) \<Longrightarrow> distinct (map fst bs) \<Longrightarrow> distinct (map fst us)"
  by (metis distinct_used mset_eq_imp_distinct_iff mset_map)

lemma perm_bytes_of:
  assumes "mset us = mset (used bs)" "distinct (map fst bs)"
  shows "map_of (bytes_of m us) = map_of (bytes_of m (used bs))"
proof -
  have "distinct (map fst (bytes_of m us))" "distinct (map fst (bytes_of m (used bs)))"
    using perm_distinct [OF assms] distinct_used [OF assms(2)] by (simp_all add: bytes_of_def comp_def)
  moreover have "set (bytes_of m us) = set (bytes_of m (used bs))"
    using perm_used(1) [OF assms(1)] by (simp add: bytes_of_def)
  ultimately show ?thesis by (simp add: map_of_inject_set)
qed

lemma used_after_defrag:
  "mset us = mset (used bs) \<Longrightarrow> used (after_defrag us nx a) = relocate (other_part a) us"
  using used_relocate [of "other_part a" us] perm_used(2) [of us bs] by (simp add: after_defrag_def)

lemma after_defrag_inv:
  assumes v: "view_inv bs nx a" and p: "mset us = mset (used bs)"
  shows "view_inv (after_defrag us nx a) (Suc nx) (swapped us a)"
proof -
  have w: "view_wf bs nx" and sz: "view_size bs = size_memory_part a" "free_size bs = size_free_memory a"
    using v by (auto simp: view_inv_def)
  have u: "\<forall>x \<in> set (relocate (other_part a) us). \<not> mb_free (snd x)"
    using not_free_relocate [of _ "other_part a" us] perm_used(2) [OF p] by auto
  have "view_wf (after_defrag us nx a) (Suc nx)"
    using w perm_distinct [OF p] perm_used(5) [OF p] fst_relocate_set [of "other_part a" us]
    unfolding view_wf_def after_defrag_def by (auto 4 4 intro: less_SucI)
  moreover have "coalesced (after_defrag us nx a)"
    using coalesced_all_used [OF u] u by (auto simp: after_defrag_def coalesced_append)
  moreover have "free_size (relocate (other_part a) us) = 0"
    using u by (auto simp: free_size_def filter_empty_conv)
  ultimately show ?thesis
    using v sz used_free_size [of bs] perm_used(3) [OF p] by (simp add: view_inv_def after_defrag_def)
qed

lemma after_defrag_bytes:
  assumes v: "view_inv bs nx a" and p: "mset us = mset (used bs)"
  shows "map_of (bytes_of (mem (swapped us a)) (used (after_defrag us nx a)))
    = map_of (bytes_of (mem a) (used bs))"
proof -
  have "view_size us \<le> size_memory_part a"
    using v used_free_size [of bs] perm_used(3) [OF p] by (simp add: view_inv_def)
  then have "copy_safe (ptr_memory a) (ptr_memory a + size_memory a) (other_part a) us"
    using view_inv_copy_safe [OF v] perm_used(5) [OF p] by blast
  then show ?thesis using bytes_of_moved perm_bytes_of [OF p] v
    by (simp add: used_after_defrag [OF p] view_inv_def view_wf_def)
qed

lemma defrag_correct_view:
  assumes v: "view_inv bs nx a"
  shows "defrag (set_view bs nx a)
    = Some (set_view (after_defrag (used bs) nx a) (Suc nx) (swapped (used bs) a))"
proof -
  have "view_size (used bs) \<le> size_memory_part a"
    using v used_free_size [of bs] by (simp add: view_inv_def)
  then have "copy_safe (ptr_memory a) (ptr_memory a + size_memory a) (other_part a) (used bs)"
    using view_inv_copy_safe [OF v set_used] by blast
  then show ?thesis using v by (simp add: defrag_view defragged_eq view_inv_def)
qed

lemma after_defrag_fits:
  assumes v: "view_inv bs nx a" and p: "mset us = mset (used bs)"
  shows "\<forall>y \<in> set (relocate (other_part a) us). \<not> fits N y"
  using not_free_relocate [of _ "other_part a" us] perm_used(2) [OF p] by (auto simp: fits_def)

section \<open>Allocation\<close>

definition same_arena :: "Allocator \<Rightarrow> Allocator \<Rightarrow> bool" where
  "same_arena a a' \<longleftrightarrow> ptr_memory a' = ptr_memory a \<and> size_memory a' = size_memory a
     \<and> size_memory_part a' = size_memory_part a"

lemma same_arena_simps [simp]:
  "same_arena a a" "same_arena a (set_view bs nx a') = same_arena a a'"
  "same_arena (set_view bs nx a) a' = same_arena a a'"
  "same_arena a (a'\<lparr>size_free_memory := f\<rparr>) = same_arena a a'"
  "same_arena a (a'\<lparr>cout := c\<rparr>) = same_arena a a'"
  "same_arena a (swapped us a') = same_arena a a'" "same_arena (swapped us a) a' = same_arena a a'"
  by (simp_all add: same_arena_def swapped_def)

lemma map_of_bytes_mid:
  "b \<notin> fst ` set xs \<Longrightarrow> map_of (bytes_of m (xs @ (b, k) # ys))
    = (map_of (bytes_of m (xs @ ys)))(b \<mapsto> rd_bytes m (mb_ptr k) (mb_size k))"
  using map_of_ins_mid [of b "bytes_of m xs" "bytes_of m ys" "rd_bytes m (mb_ptr k) (mb_size k)"] by simp

lemma alloc_found:
  assumes v: "view_inv (xs @ x # ys) nx a" and f: "fits N x" and d: "contents a0 = map_of (bytes_of (mem a) (used (xs @ x # ys)))"
  shows "\<exists>b a'. alloc_at (set_view (xs @ x # ys) nx a) (length xs) N = Some (Pointer (Some b), a')
      \<and> alloc_inv a' \<and> b \<notin> dom (contents a0) \<and> same_arena a a'
      \<and> (\<exists>zs. length zs = N \<and> contents a' = (contents a0)(b \<mapsto> zs))
      \<and> size_free_memory a' = size_free_memory a - N"
proof -
  let ?a' = "set_view (cut_view False xs x ys nx N) (cut_nx x nx N)
    (a\<lparr>size_free_memory := size_free_memory a - N\<rparr>)"
  let ?b = "cut_blk x nx N"
  have w: "view_wf (xs @ x # ys) nx" and fr: "mb_free (snd x)"
    using v f by (simp_all add: view_inv_def fits_def)
  have b: "?b \<notin> fst ` set (used (xs @ x # ys))" using w fr by (rule cut_blk_fresh)
  have "?b \<notin> fst ` set (used xs)" using b fr by auto
  then have "contents ?a' = (contents a0)(?b \<mapsto> rd_bytes (mem a) (mb_ptr (snd x)) N)"
    using map_of_bytes_mid [of ?b "used xs" "mem a"
        "\<lparr>mb_ptr = mb_ptr (snd x), mb_size = N, mb_free = False\<rparr>" "used ys"] fr d
    by (simp add: contents_set_view [OF cut_view_wf [OF w]] used_cut_view)
  moreover have "?b \<notin> dom (contents a0)"
    using b unfolding d by (metis dom_map_of_conv_image_fst fst_bytes_of)
  ultimately show ?thesis using alloc_at_view [OF v f] cut_view_inv [OF v f]
    by (intro exI [of _ ?b] exI [of _ ?a'] conjI)
      (auto intro!: exI [of _ "rd_bytes (mem a) (mb_ptr (snd x)) N"])
qed

theorem alloc_ok:
  assumes inv: "alloc_inv a" and N: "N \<le> size_free_memory a"
  shows "\<exists>b a'. alloc a N = Some (Inr (Pointer (Some b), a')) \<and> alloc_inv a'
      \<and> b \<notin> dom (contents a) \<and> same_arena a a'
      \<and> (\<exists>zs. length zs = N \<and> contents a' = (contents a)(b \<mapsto> zs))
      \<and> size_free_memory a' = size_free_memory a - N"
proof -
  obtain bs nx where a: "a = set_view bs nx a" and v: "view_inv bs nx a" and w: "view_wf bs nx"
    using inv by (rule alloc_invE)
  have c: "contents a = map_of (bytes_of (mem a) (used bs))" using a contents_set_view [OF w, of a] by simp
  have fb: "findblock a N = Some (length (takeWhile (\<lambda>x. \<not> fits N x) bs))"
    using a findblock_view [of bs nx a N] w by (simp add: view_wf_def)
  have lb: "list_blocks a = map fst bs" using a set_view_sel(1) by metis
  show ?thesis
  proof (cases "\<exists>x \<in> set bs. fits N x")
    case True
    then obtain xs x ys where bs: "bs = xs @ x # ys" and f: "fits N x" "\<forall>y \<in> set xs. \<not> fits N y"
      using split_list_first_prop [OF True] by blast
    have "findblock a N = Some (length xs)" using fb f bs by (simp add: takeWhile_found)
    then show ?thesis using alloc_found [of xs x ys nx a N a] v c f(1) N a bs lb
      by (auto simp: alloc_def)
  next
    case False
    let ?us = "relocate (other_part a) (used bs)" and ?sa = "swapped (used bs) a"
    let ?x = "(nx, \<lparr>mb_ptr = other_part a + view_size (used bs), mb_size = size_free_memory a, mb_free = True\<rparr>)"
    have e: "after_defrag (used bs) nx a = ?us @ [?x]" by (simp add: after_defrag_def)
    have fx: "fits N ?x" using N by (simp add: fits_def)
    have v': "view_inv (?us @ [?x]) (Suc nx) ?sa" using after_defrag_inv [OF v refl] by (simp add: e)
    have "defrag a = Some (set_view (?us @ [?x]) (Suc nx) ?sa)"
      using defrag_correct_view [OF v] a by (simp add: e)
    moreover have "findblock (set_view (?us @ [?x]) (Suc nx) ?sa) N = Some (length ?us)"
      using findblock_view [of "?us @ [?x]" "Suc nx" ?sa N] v' after_defrag_fits [OF v refl, of N] fx
      by (simp add: view_inv_def view_wf_def takeWhile_found del: map_append)
    moreover have "findblock a N = Some (length (list_blocks a))" using fb False lb by (simp add: takeWhile_end)
    moreover have "contents a = map_of (bytes_of (mem ?sa) (used (?us @ [?x])))"
      using after_defrag_bytes [OF v refl] c by (simp add: e)
    moreover from this obtain b a' zs where "alloc_at (set_view (?us @ [?x]) (Suc nx) ?sa) (length ?us) N
        = Some (Pointer (Some b), a')" "alloc_inv a'" "b \<notin> dom (contents a)" "same_arena a a'"
      "length zs = N" "contents a' = (contents a)(b \<mapsto> zs)" "size_free_memory a' = size_free_memory a - N"
      using alloc_found [OF v' fx, of a] by auto
    ultimately show ?thesis using N by (intro exI [of _ b] exI [of _ a'] conjI) (auto simp: alloc_def)
  qed
qed

section \<open>Release\<close>

lemma contents_split:
  assumes "a = set_view bs nx a" "view_wf bs nx" "b \<in> dom (contents a)"
  obtains xs m ys where "bs = xs @ (b, m) # ys" "\<not> mb_free m" "heap a b = Some m"
    "b \<notin> fst ` set xs" "b \<notin> fst ` set ys"
    "contents a b = Some (rd_bytes (mem a) (mb_ptr m) (mb_size m))"
proof -
  have h: "heap a = map_of bs" using assms(1) by (metis set_view_sel(2))
  then obtain m where m: "map_of bs b = Some m" "\<not> mb_free m"
    using assms(3) by (auto simp: contents_def split: option.splits if_splits)
  then obtain xs ys where bs: "bs = xs @ (b, m) # ys"
    using map_of_SomeD [OF m(1)] by (auto dest: split_list)
  show thesis
    using assms(2) h m by (intro that [OF bs]) (auto simp: bs view_wf_def contents_def)
qed

lemma list_blocks_view: "a = set_view bs nx a \<Longrightarrow> list_blocks a = map fst bs"
  by (metis set_view_sel(1))

text \<open>Turning an allocated block of the view into a free one and coalescing it.\<close>

lemma release_correct:
  assumes v: "view_inv (xs @ (b, m) # ys) nx a" and u: "\<not> mb_free m"
  shows "joinfree (set_view (xs @ (b, m\<lparr>mb_free := True\<rparr>) # ys) nx a) (length xs)
      = Some (set_view (join_view xs (b, m\<lparr>mb_free := True\<rparr>) ys) nx a)"
    and "view_inv (join_view xs (b, m\<lparr>mb_free := True\<rparr>) ys) nx
      (a\<lparr>size_free_memory := size_free_memory a + mb_size m\<rparr>)"
    and "used (join_view xs (b, m\<lparr>mb_free := True\<rparr>) ys) = used xs @ used ys"
proof -
  let ?x = "(b, m\<lparr>mb_free := True\<rparr>)" and ?bs = "join_view xs (b, m\<lparr>mb_free := True\<rparr>) ys"
  have w: "distinct (map fst (xs @ ?x # ys))" using v by (simp add: view_inv_def view_wf_def)
  then show "joinfree (set_view (xs @ ?x # ys) nx a) (length xs) = Some (set_view ?bs nx a)"
    by (rule joinfree_view)
  have "view_size (xs @ ?x # ys) < SZ" using v view_inv_bounds(1) [OF v] by (simp add: view_inv_def)
  then have c: "coarser (xs @ ?x # ys) ?bs" by (intro coarser_join_view) simp_all
  then show "used ?bs = used xs @ used ys" by (simp add: coarser_def)
  have "coalesced ?bs"
    using v by (intro coalesced_join_view) (auto simp: view_inv_def coalesced_append coalesced_Cons)
  then show "view_inv ?bs nx (a\<lparr>size_free_memory := size_free_memory a + mb_size m\<rparr>)"
    using v u by (intro view_inv_coarser [OF c]) (auto simp: view_inv_def view_wf_def)
qed

lemma map_of_bytes_del:
  assumes "view_wf (xs @ (b, m) # ys) nx" "\<not> mb_free m"
  shows "map_of (bytes_of mm (used xs @ used ys)) = (map_of (bytes_of mm (used (xs @ (b, m) # ys))))(b := None)"
proof -
  have "b \<notin> fst ` set (used xs)" "b \<notin> fst ` set (used ys)"
    using assms notin_used [of b] by (auto simp: view_wf_def)
  then show ?thesis using assms(2) map_of_del_mid [of b "bytes_of mm (used xs)" "bytes_of mm (used ys)"]
    by simp
qed

theorem free_ok:
  assumes inv: "alloc_inv a" and b: "contents a b = Some zs"
  shows "\<exists>a'. free a (Pointer (Some b)) = Some (Inr (Pointer None, a')) \<and> alloc_inv a'
      \<and> contents a' = (contents a)(b := None) \<and> same_arena a a'
      \<and> size_free_memory a' = size_free_memory a + length zs"
proof -
  obtain bs nx where a: "a = set_view bs nx a" and v: "view_inv bs nx a" and w: "view_wf bs nx"
    using inv by (rule alloc_invE)
  have c: "contents a = map_of (bytes_of (mem a) (used bs))" using a contents_set_view [OF w, of a] by simp
  from b have "b \<in> dom (contents a)" by blast
  from a w this obtain xs m ys where bs: "bs = xs @ (b, m) # ys" and m: "\<not> mb_free m"
    and h: "heap a b = Some m" and nb: "b \<notin> fst ` set xs" "b \<notin> fst ` set ys"
    and cb: "contents a b = Some (rd_bytes (mem a) (mb_ptr m) (mb_size m))"
    by (rule contents_split)
  have zs: "length zs = mb_size m" using b cb by auto
  let ?bs = "join_view xs (b, m\<lparr>mb_free := True\<rparr>) ys"
  note R = release_correct [OF v [unfolded bs] m]
  have st: "store b (m\<lparr>mb_free := True\<rparr>) a = set_view (xs @ (b, m\<lparr>mb_free := True\<rparr>) # ys) nx a"
    using a store_view [OF nb(1), of "m\<lparr>mb_free := True\<rparr>" m ys nx a] bs by simp
  have it: "find_iter b (map fst (xs @ (b, m\<lparr>mb_free := True\<rparr>) # ys)) = length xs"
    using nb(1) find_iter_append [of b "map fst xs"] by simp
  have le: "size_free_memory a + mb_size m < SZ"
    using v m used_free_size [of bs] view_inv_bounds(1) [OF v] by (simp add: view_inv_def bs)
  let ?a' = "set_view ?bs nx (a\<lparr>size_free_memory := size_free_memory a + mb_size m\<rparr>)"
  have j: "joinfree (store b (m\<lparr>mb_free := True\<rparr>) a)
      (find_iter b (list_blocks (store b (m\<lparr>mb_free := True\<rparr>) a))) = Some (set_view ?bs nx a)"
    unfolding st set_view_sel it by (rule R(1))
  have "free a (Pointer (Some b)) = Some (Inr (Pointer None, ?a'))"
    by (simp add: free_def h j sz_add_exact [OF le])
  moreover have "contents ?a' = map_of (bytes_of (mem a) (used xs @ used ys))"
    using R(2) contents_set_view [of ?bs nx] by (simp only: view_inv_def R(3)) simp
  then have "contents ?a' = (contents a)(b := None)"
    unfolding c bs map_of_bytes_del [OF w [unfolded bs] m] .
  ultimately show ?thesis using R(2) zs by (intro exI [of _ ?a']) simp
qed

end
