(* ===== verification/Alloc_Realloc.thy ===== *)
theory Alloc_Realloc
  imports Alloc_Correct
begin

text \<open>
  \<open>realloc\<close> on an allocated block: shrinking, growing into the free block that follows, and
  moving to another free block, with the defragmentations that come before.
\<close>

lemma view_wf_mid:
  assumes "view_wf (xs @ (b, m) # ys) nx"
  shows "b \<notin> fst ` set xs" "b \<notin> fst ` set ys" "nx \<noteq> b" "nx \<notin> fst ` set xs" "nx \<notin> fst ` set ys"
    "find_iter b (map fst (xs @ (b, m) # ys)) = length xs"
    "map_of (xs @ (b, m) # ys) b = Some m"
  using assms find_iter_append [of b "map fst xs" "map fst ys"] by (auto simp: view_wf_def)

section \<open>Shrinking\<close>

lemma realloc_shrink_view:
  assumes w: "view_wf (xs @ (b, m) # ys) nx" and N: "N < mb_size m" "mb_size m < SZ"
  defines "n \<equiv> \<lparr>mb_ptr = mb_ptr m + N, mb_size = mb_size m - N, mb_free = True\<rparr>"
  shows "realloc_shrink (set_view (xs @ (b, m) # ys) nx a) b m N
    = (let bs = join_view (xs @ [(b, m\<lparr>mb_size := N\<rparr>)]) (nx, n) ys
       in Some (set_view bs (Suc nx)
            (a\<lparr>size_free_memory := sz_add (size_free_memory a) (mb_size m - N)\<rparr>)))"
proof -
  note W = view_wf_mid [OF w]
  let ?m = "m\<lparr>mb_size := N\<rparr>" and ?bs = "xs @ (b, m) # ys"
  let ?ds = "(xs @ [(b, m\<lparr>mb_size := N\<rparr>)]) @ (nx, n) # ys"
  have sub: "sz_sub (mb_size m) N = mb_size m - N" using N by (simp add: sz_simps)
  have "(map_of ?bs)(nx \<mapsto> n, b \<mapsto> ?m) = (map_of (xs @ (b, ?m) # ys))(nx \<mapsto> n)"
    using W map_of_upd_mid [of b xs m ys ?m] by (metis fun_upd_twist)
  also have "\<dots> = map_of ?ds" using W map_of_ins_mid [of nx "xs @ [(b, ?m)]" ys n] by simp
  finally have h: "(map_of ?bs)(nx \<mapsto> n, b \<mapsto> ?m) = map_of ?ds" .
  have st: "(store b ?m (snd (new_block n (set_view ?bs nx a))))\<lparr>list_blocks :=
      insert_at (Suc (length xs)) nx (map fst ?bs)\<rparr> = set_view ?ds (Suc nx) a"
    using h by (simp add: store_def new_block_def set_view_def insert_at_def)
  have d: "distinct (map fst ?ds)" using w W by (auto simp: view_wf_def)
  have lb: "list_blocks (store b ?m (snd (new_block n (set_view ?bs nx a)))) = map fst ?bs"
    by (simp add: store_def new_block_def)
  have nb: "new_block n (set_view ?bs nx a) = (nx, snd (new_block n (set_view ?bs nx a)))"
    by (simp add: new_block_def)
  have fi: "find_iter b (list_blocks (set_view ?bs nx a)) = length xs" using W(6) by simp
  have jf: "joinfree (set_view ?ds (Suc nx) a) (Suc (length xs))
      = Some (set_view (join_view (xs @ [(b, ?m)]) (nx, n) ys) (Suc nx) a)"
    using joinfree_view [OF d, of "Suc nx" a] by simp
  have ne: "(length xs = length ?bs) = False" by simp
  show ?thesis
    unfolding realloc_shrink_def sub n_def [symmetric] Let_def fi
    by (subst nb) (simp only: prod.case lb ne if_False iter_next_mid Option.bind.bind_lunit
        iter_prev_def st jf refl if_True simp_thms nat.distinct diff_Suc_1 not_False_eq_True set_view_upd set_view_sel
        length_map)
qed

lemma map_of_bytes_upd:
  assumes "view_wf (xs @ (b, m) # ys) nx" "\<not> mb_free m"
  shows "map_of (bytes_of mm (used xs @ (b, k) # used ys))
    = (map_of (bytes_of mm (used (xs @ (b, m) # ys))))(b \<mapsto> rd_bytes mm (mb_ptr k) (mb_size k))"
proof -
  have b: "b \<notin> fst ` set (used xs)" using view_wf_mid(1) [OF assms(1)] notin_used by blast
  then show ?thesis using map_of_upd_mid [of b "bytes_of mm (used xs)"] assms(2) by simp
qed

lemma shrink_correct:
  assumes v: "view_inv (xs @ (b, m) # ys) nx a" and u: "\<not> mb_free m" and N: "N < mb_size m"
  defines "bs \<equiv> join_view (xs @ [(b, m\<lparr>mb_size := N\<rparr>)])
      (nx, \<lparr>mb_ptr = mb_ptr m + N, mb_size = mb_size m - N, mb_free = True\<rparr>) ys"
  shows "view_inv bs (Suc nx) (a\<lparr>size_free_memory := size_free_memory a + (mb_size m - N)\<rparr>)"
    and "used bs = used xs @ (b, m\<lparr>mb_size := N\<rparr>) # used ys"
proof -
  let ?n = "(nx, \<lparr>mb_ptr = mb_ptr m + N, mb_size = mb_size m - N, mb_free = True\<rparr>)"
  let ?xs = "xs @ [(b, m\<lparr>mb_size := N\<rparr>)]"
  have w: "view_wf (xs @ (b, m) # ys) nx" using v by (simp add: view_inv_def)
  have sz: "view_size (?xs @ ?n # ys) = size_memory_part a" using v N by (simp add: view_inv_def)
  have c: "coarser (?xs @ ?n # ys) bs"
    unfolding bs_def using sz view_inv_bounds(1) [OF v] by (intro coarser_join_view) simp_all
  then show "used bs = used xs @ (b, m\<lparr>mb_size := N\<rparr>) # used ys" using u by (simp add: coarser_def)
  have co: "coalesced bs" unfolding bs_def
    using v u by (intro coalesced_join_view) (auto simp: view_inv_def coalesced_append coalesced_Cons)
  have "view_wf (?xs @ ?n # ys) (Suc nx)"
    using w view_wf_mid [OF w] by (auto simp: view_wf_def intro: less_SucI)
  then show "view_inv bs (Suc nx) (a\<lparr>size_free_memory := size_free_memory a + (mb_size m - N)\<rparr>)"
    using v u N sz co by (intro view_inv_coarser [OF c]) (auto simp: view_inv_def add.assoc)
qed

theorem realloc_shrink_ok:
  assumes inv: "alloc_inv a" and b: "contents a b = Some zs" and N: "N < length zs"
  shows "\<exists>a'. realloc a (Pointer (Some b)) N = Some (Inr (Pointer (Some b), a')) \<and> alloc_inv a'
      \<and> contents a' = (contents a)(b \<mapsto> take N zs) \<and> same_arena a a'
      \<and> size_free_memory a' = size_free_memory a + (length zs - N)
      \<and> get a' (Pointer (Some b)) = get a (Pointer (Some b))"
proof -
  obtain bs nx where a: "a = set_view bs nx a" and v: "view_inv bs nx a" and w: "view_wf bs nx"
    using inv by (rule alloc_invE)
  have c: "contents a = map_of (bytes_of (mem a) (used bs))" using a contents_set_view [OF w, of a] by simp
  from b have "b \<in> dom (contents a)" by blast
  from a w this obtain xs m ys where bs: "bs = xs @ (b, m) # ys" and m: "\<not> mb_free m"
    and h: "heap a b = Some m"
    and cb: "contents a b = Some (rd_bytes (mem a) (mb_ptr m) (mb_size m))"
    by (rule contents_split)
  have zs: "zs = rd_bytes (mem a) (mb_ptr m) (mb_size m)" using b cb by auto
  then have Nm: "N < mb_size m" using N by simp
  let ?bs = "join_view (xs @ [(b, m\<lparr>mb_size := N\<rparr>)])
      (nx, \<lparr>mb_ptr = mb_ptr m + N, mb_size = mb_size m - N, mb_free = True\<rparr>) ys"
  note S = shrink_correct [OF v [unfolded bs] m Nm]
  have le: "size_free_memory a + (mb_size m - N) < SZ"
    using v m used_free_size [of bs] view_inv_bounds(1) [OF v] by (simp add: view_inv_def bs)
  have mz: "mb_size m < SZ"
    using view_inv_bounds(1) [OF v] view_inv_bounds(3) [OF v, of "(b, m)"] by (simp add: bs)
  let ?a' = "set_view ?bs (Suc nx) (a\<lparr>size_free_memory := size_free_memory a + (mb_size m - N)\<rparr>)"
  have "realloc_shrink a b m N = Some ?a'"
    using realloc_shrink_view [OF w [unfolded bs] Nm mz, of a] a bs by (simp add: sz_add_exact [OF le])
  then have "realloc a (Pointer (Some b)) N = Some (Inr (Pointer (Some b), ?a'))"
    using h Nm by (simp add: realloc_def)
  moreover have "contents ?a' = map_of (bytes_of (mem a) (used ?bs))"
    using S(1) contents_set_view [of ?bs "Suc nx"] by (simp only: view_inv_def) simp
  then have "contents ?a' = (contents a)(b \<mapsto> take N zs)"
    unfolding S(2) c bs map_of_bytes_upd [OF w [unfolded bs] m] zs using Nm by (simp add: take_rd_bytes)
  moreover have "map_of ?bs b = Some (m\<lparr>mb_size := N\<rparr>)"
  proof (rule map_of_is_SomeI)
    show "distinct (map fst ?bs)" using S(1) by (simp add: view_inv_def view_wf_def)
    show "(b, m\<lparr>mb_size := N\<rparr>) \<in> set ?bs" using S(2) set_used [of ?bs] by auto
  qed
  then have "get ?a' (Pointer (Some b)) = get a (Pointer (Some b))" using h by (simp add: get_def)
  ultimately show ?thesis using S(1) zs by (intro exI [of _ ?a']) simp
qed

section \<open>Growing in place\<close>

definition grown_view :: "view \<Rightarrow> blk \<Rightarrow> MemoryBlock \<Rightarrow> blk \<Rightarrow> MemoryBlock \<Rightarrow> view \<Rightarrow> size_t \<Rightarrow> view" where
  "grown_view xs b m c k ys delta =
     xs @ (b, m\<lparr>mb_size := mb_size m + delta\<rparr>) #
       (if mb_size k = delta then ys
        else (c, k\<lparr>mb_size := mb_size k - delta, mb_ptr := mb_ptr k + delta\<rparr>) # ys)"

lemma realloc_in_place_view:
  assumes v: "view_inv (xs @ (b, m) # (c, k) # ys) nx a" and f: "mb_free k" "delta \<le> mb_size k"
  shows "realloc_in_place (set_view (xs @ (b, m) # (c, k) # ys) nx a) (Suc (length xs)) k delta
    = Some (set_view (grown_view xs b m c k ys delta) (if mb_size k = delta then nx else Suc nx) a)"
proof -
  have w: "view_wf (xs @ (b, m) # (c, k) # ys) nx" and d: "distinct (map fst (xs @ (b, m) # (c, k) # ys))"
    using v by (auto simp: view_inv_def view_wf_def)
  have sz: "mb_size m + mb_size k < SZ" using v view_inv_bounds(1) [OF v] by (simp add: view_inv_def)
  show ?thesis
  proof (cases "mb_size k = delta")
    case True
    have e: "sz_add (mb_size m) delta = mb_size m + delta" using sz True by (simp add: sz_add_exact)
    show ?thesis using True appendfollow_view [OF d, of nx a] e
      by (simp add: realloc_in_place_def iter_prev_def grown_view_def)
  next
    case False
    let ?n = "\<lparr>mb_ptr = mb_ptr k, mb_size = delta, mb_free = True\<rparr>"
    let ?k = "k\<lparr>mb_size := mb_size k - delta, mb_ptr := mb_ptr k + delta\<rparr>"
    have e: "sz_add (mb_size m) delta = mb_size m + delta" "sz_sub (mb_size k) delta = mb_size k - delta"
      using sz f(2) by (simp_all add: sz_add_exact sz_sub_exact)
    have s: "shortSizeBlock (set_view (xs @ (b, m) # (c, k) # ys) nx a) (Suc (length xs)) delta
        = Some (Suc (length xs), set_view (xs @ (b, m) # (nx, ?n) # (c, ?k) # ys) (Suc nx) a)"
      using shortSizeBlock_view [of "xs @ [(b, m)]" "(c, k)" ys nx a delta] w f e
      by (simp add: split_view_def)
    have "distinct (map fst (xs @ (b, m) # (nx, ?n) # (c, ?k) # ys))"
      using w by (auto simp: view_wf_def)
    from appendfollow_view [OF this, of "Suc nx" a] show ?thesis using False s e
      by (simp add: realloc_in_place_def iter_prev_def grown_view_def)
  qed
qed

lemma grown_view_correct:
  assumes v: "view_inv (xs @ (b, m) # (c, k) # ys) nx a" and u: "\<not> mb_free m"
    and f: "mb_free k" "delta \<le> mb_size k"
  shows "view_inv (grown_view xs b m c k ys delta) (if mb_size k = delta then nx else Suc nx)
      (a\<lparr>size_free_memory := size_free_memory a - delta\<rparr>)"
    and "used (grown_view xs b m c k ys delta)
      = used xs @ (b, m\<lparr>mb_size := mb_size m + delta\<rparr>) # used ys"
proof -
  show "used (grown_view xs b m c k ys delta)
      = used xs @ (b, m\<lparr>mb_size := mb_size m + delta\<rparr>) # used ys"
    using u f by (simp add: grown_view_def)
  have w: "view_wf (xs @ (b, m) # (c, k) # ys) nx" using v by (simp add: view_inv_def)
  then have "view_wf (grown_view xs b m c k ys delta) (if mb_size k = delta then nx else Suc nx)"
    by (auto simp: view_wf_def grown_view_def intro: less_SucI)
  moreover have "tiles (cur_part a) (grown_view xs b m c k ys delta)"
    using v f by (auto simp: view_inv_def grown_view_def add.assoc)
  moreover have "coalesced (grown_view xs b m c k ys delta)"
    using v u f by (auto simp: view_inv_def grown_view_def coalesced_append coalesced_Cons)
  ultimately show "view_inv (grown_view xs b m c k ys delta) (if mb_size k = delta then nx else Suc nx)
      (a\<lparr>size_free_memory := size_free_memory a - delta\<rparr>)"
    using v u f by (auto simp: view_inv_free_mem view_inv_def grown_view_def)
qed

section \<open>Moving\<close>

text \<open>
  The exchange at the end of \<open>realloc\<close>: the block object \<open>b\<close> takes the place of the cut
  block \<open>f\<close>, and a new free block \<open>nb\<close> takes the old place of \<open>b\<close>.
\<close>

definition rename :: "blk \<Rightarrow> blk \<Rightarrow> blk \<Rightarrow> blk \<Rightarrow> blk" where
  "rename f b nb c = (if c = f then b else if c = b then nb else c)"

definition renamed :: "blk \<Rightarrow> blk \<Rightarrow> blk \<Rightarrow> view \<Rightarrow> view" where
  "renamed f b nb bs = map (\<lambda>y. (rename f b nb (fst y), snd y)) bs"

lemma renamed_simps [simp]:
  "renamed f b nb [] = []"
  "renamed f b nb (y # ys) = (rename f b nb (fst y), snd y) # renamed f b nb ys"
  "renamed f b nb (xs @ ys) = renamed f b nb xs @ renamed f b nb ys"
  "length (renamed f b nb xs) = length xs"
  by (simp_all add: renamed_def)

lemma renamed_shape [simp]:
  "tiles p (renamed f b nb bs) = tiles p bs" "view_size (renamed f b nb bs) = view_size bs"
  "free_size (renamed f b nb bs) = free_size bs" "coalesced (renamed f b nb bs) = coalesced bs"
  "used (renamed f b nb bs) = renamed f b nb (used bs)"
proof -
  show "tiles p (renamed f b nb bs) = tiles p bs" by (induction bs arbitrary: p) auto
  show "view_size (renamed f b nb bs) = view_size bs" by (induction bs) auto
  show "free_size (renamed f b nb bs) = free_size bs" by (induction bs) auto
  show "used (renamed f b nb bs) = renamed f b nb (used bs)" by (induction bs) auto
  show "coalesced (renamed f b nb bs) = coalesced bs"
    by (simp add: coalesced_def renamed_def successively_map)
qed

lemma renamed_id: "f \<notin> fst ` set xs \<Longrightarrow> b \<notin> fst ` set xs \<Longrightarrow> renamed f b nb xs = xs"
  unfolding renamed_def by (intro map_idI) (auto simp: rename_def)

lemma renamed_wf:
  assumes w: "view_wf bs nx" and "b \<in> fst ` set bs"
  shows "view_wf (renamed f b nx bs) (Suc nx)"
proof -
  have e: "map fst (renamed f b nx bs) = map (rename f b nx) (map fst bs)"
    by (simp add: renamed_def comp_def)
  have "inj_on (rename f b nx) (set (map fst bs))"
    using w by (auto simp: inj_on_def rename_def view_wf_def)
  then have "distinct (map fst (renamed f b nx bs))"
    using w unfolding e by (simp add: distinct_map view_wf_def del: map_map set_map)
  moreover have "\<forall>c \<in> set (map fst bs). rename f b nx c < Suc nx"
    using assms by (auto simp: rename_def view_wf_def intro: less_SucI)
  then have "\<forall>c \<in> set (map fst (renamed f b nx bs)). c < Suc nx"
    unfolding e by simp
  ultimately show ?thesis by (simp add: view_wf_def)
qed

lemma renamed_inv:
  "view_inv bs nx a \<Longrightarrow> b \<in> fst ` set bs \<Longrightarrow> view_inv (renamed f b nx bs) (Suc nx) a"
  using renamed_wf by (simp add: view_inv_def)

text \<open>The list and the store after the exchange, in both orders of the two positions.\<close>

definition exchanged :: "blk \<Rightarrow> blk \<Rightarrow> blk \<Rightarrow> view \<Rightarrow> view" where
  "exchanged f b nb bs = map (\<lambda>y.
     if fst y = f then (b, (snd y)\<lparr>mb_free := False\<rparr>)
     else if fst y = b then (nb, (snd y)\<lparr>mb_free := True\<rparr>) else y) bs"

lemma exchanged_simps [simp]:
  "exchanged f b nb [] = []"
  "exchanged f b nb (y # ys) = (if fst y = f then (b, (snd y)\<lparr>mb_free := False\<rparr>)
     else if fst y = b then (nb, (snd y)\<lparr>mb_free := True\<rparr>) else y) # exchanged f b nb ys"
  "exchanged f b nb (xs @ ys) = exchanged f b nb xs @ exchanged f b nb ys"
  "length (exchanged f b nb xs) = length xs"
  by (simp_all add: exchanged_def)

lemma exchanged_id: "f \<notin> fst ` set xs \<Longrightarrow> b \<notin> fst ` set xs \<Longrightarrow> exchanged f b nb xs = xs"
  unfolding exchanged_def by (intro map_idI) auto

lemma exchanged_list:
  assumes "distinct (map fst bs)" "i < length bs" "fst (bs ! i) = f" "j < length bs" "fst (bs ! j) = b" "i \<noteq> j"
  shows "(map fst bs)[i := b, j := nb] = map fst (exchanged f b nb bs)"
proof (rule nth_equalityI)
  fix l assume l: "l < length ((map fst bs)[i := b, j := nb])"
  then have "fst (bs ! l) = f \<longleftrightarrow> l = i" "fst (bs ! l) = b \<longleftrightarrow> l = j"
    using assms nth_eq_iff_index_eq [OF assms(1)] by auto
  then show "(map fst bs)[i := b, j := nb] ! l = map fst (exchanged f b nb bs) ! l"
    using l assms(6) by (auto simp: exchanged_def nth_list_update)
qed simp

lemma exchanged_store:
  assumes "distinct (map fst bs)" "(f, k) \<in> set bs" "(b, m) \<in> set bs" "f \<noteq> b" "nb \<notin> fst ` set bs"
  shows "(map_of bs)(f := None, b \<mapsto> k\<lparr>mb_free := False\<rparr>, nb \<mapsto> m\<lparr>mb_free := True\<rparr>)
    = map_of (exchanged f b nb bs)"
proof (rule ext)
  fix c
  have gen: "map_of (exchanged f b nb xs) c =
      (if c = b then map_option (\<lambda>k. k\<lparr>mb_free := False\<rparr>) (map_of xs f)
       else if c = nb then map_option (\<lambda>k. k\<lparr>mb_free := True\<rparr>) (map_of xs b)
       else if c = f then None else map_of xs c)" if "nb \<notin> fst ` set xs" for xs
    using that assms(4) by (induction xs) auto
  have nb: "nb \<noteq> b" using assms(3,5) by force
  show "((map_of bs)(f := None, b \<mapsto> k\<lparr>mb_free := False\<rparr>, nb \<mapsto> m\<lparr>mb_free := True\<rparr>)) c
      = map_of (exchanged f b nb bs) c"
    using gen [OF assms(5)] assms(1-4) nb by auto
qed

lemma cut_step:
  assumes v: "view_inv (xs @ x # ys) nx a" and f: "fits N x"
  shows "(if mb_size (snd x) \<noteq> N then shortSizeBlock (set_view (xs @ x # ys) nx a) (length xs) N
      else Some (length xs, set_view (xs @ x # ys) nx a))
    = Some (length xs, set_view (cut_view True xs x ys nx N) (cut_nx x nx N) a)"
proof (cases "mb_size (snd x) = N")
  case True
  obtain b m where x: "x = (b, m)" by force
  have "\<lparr>mb_ptr = mb_ptr m, mb_size = N, mb_free = True\<rparr> = m"
    using True f block_free_upd [where m = m and fr = True] by (simp add: x fits_def)
  then show ?thesis using True by (simp add: cut_defs x)
next
  case False
  note B = fits_bounds [OF v f]
  have "view_wf (xs @ x # ys) nx" using v by (simp add: view_inv_def)
  then show ?thesis using False shortSizeBlock_view [of xs x ys nx a N] B split_view_cut [OF B(1,2) False]
    by (simp add: cut_nx_def)
qed

lemma tiles_disjoint:
  assumes "tiles p bs" "x \<in> set bs" "y \<in> set bs" "x \<noteq> y"
  shows "mb_ptr (snd x) + mb_size (snd x) \<le> mb_ptr (snd y) \<or> mb_ptr (snd y) + mb_size (snd y) \<le> mb_ptr (snd x)"
  using assms
proof (induction bs arbitrary: p)
  case Nil
  then show ?case by simp
next
  case (Cons z bs)
  then have "\<forall>w \<in> set bs. mb_ptr (snd z) + mb_size (snd z) \<le> mb_ptr (snd w)"
    using tiles_range [of "p + mb_size (snd z)" bs] by auto
  then show ?case using Cons by (cases "x = z"; cases "y = z") auto
qed

lemma realloc_move_to_view:
  assumes v: "view_inv (xs @ x # ys) nx a" and f: "fits N x" and b: "(b, m) \<in> set (xs @ x # ys)"
    and u: "\<not> mb_free m" and N: "mb_size m \<le> N"
    and V: "cut_view True xs x ys nx N = P @ (b, m) # Q"
  defines "nx1 \<equiv> cut_nx x nx N" and "f \<equiv> cut_blk x nx N"
  shows "realloc_move_to (set_view (xs @ x # ys) nx a) b (length xs) N
    = joinfree (set_view (exchanged f b nx1 P @ (nx1, m\<lparr>mb_free := True\<rparr>) # exchanged f b nx1 Q)
        (Suc nx1) (a\<lparr>mem := copied (mem a) (mb_ptr (snd x)) (mb_ptr m) (mb_size m)\<rparr>)) (length P)"
proof -
  let ?V = "cut_view True xs x ys nx N" and ?S = "set_view (xs @ x # ys) nx a"
  let ?k = "\<lparr>mb_ptr = mb_ptr (snd x), mb_size = N, mb_free = True\<rparr>"
  have w: "view_wf (xs @ x # ys) nx" using v by (simp add: view_inv_def)
  note wV = cut_view_wf [OF w, of True N, folded nx1_def]
  have fx: "mb_free (snd x)" using f by (simp add: fits_def)
  have "m = snd x" if "b = fst x"
  proof (rule eq_key_imp_eq_value [of "xs @ x # ys" b])
    show "distinct (map fst (xs @ x # ys))" using w by (simp add: view_wf_def)
    show "(b, snd x) \<in> set (xs @ x # ys)" by (simp add: that)
  qed (rule b)
  then have nbx: "b \<noteq> fst x" using u fx by auto
  have "b < nx" using w b unfolding view_wf_def by force
  then have bf: "f \<noteq> b" using nbx by (auto simp: f_def cut_blk_def)
  have Vf: "?V ! length xs = (f, ?k)" "length xs < length ?V"
    by (simp_all add: cut_view_def f_def)
  have dV: "distinct (map fst ?V)" and fresh: "nx1 \<notin> fst ` set ?V" using wV by (auto simp: view_wf_def)
  have hf: "map_of ?V f = Some ?k"
    using dV Vf nth_mem [OF Vf(2)] by (intro map_of_is_SomeI) auto
  have hb: "map_of ?V b = Some m" using dV by (intro map_of_is_SomeI) (auto simp: V)
  have bP: "b \<notin> fst ` set P" "f \<noteq> b" using dV bf unfolding V by auto
  have it: "find_iter b (map fst ?V) = length P"
    unfolding V using bP find_iter_append [of b "map fst P"] by simp
  have jb: "?V ! length P = (b, m)" "length P < length ?V" by (simp_all add: V)
  have ij: "length xs \<noteq> length P" using Vf jb bf by auto
  have rng: "\<forall>y \<in> set (xs @ x # ys). cur_part a \<le> mb_ptr (snd y) \<and>
      mb_ptr (snd y) + mb_size (snd y) \<le> cur_part a + size_memory_part a"
    using tiles_range v unfolding view_inv_def by metis
  have dis: "mb_ptr (snd x) + mb_size (snd x) \<le> mb_ptr m \<or> mb_ptr m + mb_size m \<le> mb_ptr (snd x)"
  proof -
    have "tiles (cur_part a) (xs @ x # ys)" using v by (simp add: view_inv_def)
    moreover have "x \<noteq> (b, m)" using nbx by force
    ultimately show ?thesis using tiles_disjoint [of _ _ x "(b, m)"] b by fastforce
  qed
  have Nx: "N \<le> mb_size (snd x)" using f by (simp add: fits_def)
  have arena: "ptr_memory a \<le> cur_part a \<and> cur_part a + size_memory_part a \<le> ptr_memory a + size_memory a"
    using v by (auto simp: view_inv_def layout_def cur_part_def)
  have cp: "memcpy (ptr_memory a) (ptr_memory a + size_memory a) (mem a) (mb_ptr (snd x)) (mb_ptr m) (mb_size m)
      = Some (copied (mem a) (mb_ptr (snd x)) (mb_ptr m) (mb_size m))"
    using bspec [OF rng b] bspec [OF rng, of x] arena dis N Nx by (auto simp: memcpy_def)
  have st: "m\<lparr>mb_ptr := mb_ptr (snd x), mb_size := N\<rparr> = ?k\<lparr>mb_free := False\<rparr>"
    "\<lparr>mb_ptr = mb_ptr m, mb_size = mb_size m, mb_free = True\<rparr> = m\<lparr>mb_free := True\<rparr>"
    using u by (cases m; simp)+
  have ex: "exchanged f b nx1 ?V = exchanged f b nx1 P @ (nx1, m\<lparr>mb_free := True\<rparr>) # exchanged f b nx1 Q"
    using bf by (simp add: V)
  have lst: "(map fst ?V)[length xs := b, length P := nx1] = map fst (exchanged f b nx1 ?V)"
    using dV Vf jb ij by (intro exchanged_list) simp_all
  have heap: "(map_of ?V)(f := None, b \<mapsto> ?k\<lparr>mb_free := False\<rparr>, nx1 \<mapsto> m\<lparr>mb_free := True\<rparr>)
      = map_of (exchanged f b nx1 ?V)"
    using dV hf hb bf fresh by (intro exchanged_store) (auto dest: map_of_SomeD)
  have ord: "z\<lparr>heap := h, next_blk := n, list_blocks := l\<rparr>
      = z\<lparr>list_blocks := l, heap := h, next_blk := n\<rparr>" for z :: Allocator and h n l by simp
  have get1: "iter_get (list_blocks ?S) (length xs) = Some (fst x)" "heap ?S (fst x) = Some (snd x)"
    using w by (auto simp: iter_get_def nth_append view_wf_def)
  have get2: "iter_get (map fst ?V) (length xs) = Some f" using Vf by (simp add: iter_get_def)
  show ?thesis
    unfolding realloc_move_to_def get1 Option.bind.bind_lunit
    unfolding cut_step [OF v assms(2), folded nx1_def] Option.bind.bind_lunit prod.case
    unfolding set_view_sel it get2 hf Let_def
    using lst heap [folded st(2)] hb jb(2) st(1) bP(2)
    by (simp add: delete_block_def hf arena_memcpy_def cp store_def new_block_def iter_get_def set_view_def
        ex [symmetric] ord)
qed

definition unfree :: "blk \<Rightarrow> view \<Rightarrow> view" where
  "unfree f bs = map (\<lambda>y. if fst y = f then (f, (snd y)\<lparr>mb_free := False\<rparr>) else y) bs"

lemma unfree_simps [simp]:
  "unfree f (y # ys) = (if fst y = f then (f, (snd y)\<lparr>mb_free := False\<rparr>) else y) # unfree f ys"
  "unfree f (xs @ ys) = unfree f xs @ unfree f ys"
  by (simp_all add: unfree_def)

lemma unfree_id: "f \<notin> fst ` set xs \<Longrightarrow> unfree f xs = xs"
  unfolding unfree_def by (intro map_idI) auto

lemma exchanged_renamed:
  "b \<notin> fst ` set xs \<Longrightarrow> exchanged f b nb xs = renamed f b nb (unfree f xs)"
  by (induction xs) (auto simp: rename_def unfree_def)

lemma unfree_cut_view:
  assumes "view_wf (xs @ x # ys) nx"
  shows "unfree (cut_blk x nx N) (cut_view True xs x ys nx N) = cut_view False xs x ys nx N"
proof -
  have "distinct (map fst (cut_view True xs x ys nx N))"
    using cut_view_wf [OF assms] by (simp add: view_wf_def)
  then have "cut_blk x nx N \<notin> fst ` set xs" "cut_blk x nx N \<notin> fst ` set (cut_rest x N @ ys)"
    by (auto simp: cut_view_def)
  from this [THEN unfree_id] show ?thesis by (simp add: cut_view_def)
qed

lemma map_of_bytes_set:
  "distinct (map fst us) \<Longrightarrow> distinct (map fst vs) \<Longrightarrow> set us = set vs \<Longrightarrow>
   map_of (bytes_of m us) = map_of (bytes_of m vs)"
  by (subst map_of_inject_set) (simp_all add: bytes_of_def comp_def)

lemma map_of_bytes_filter:
  "map_of (bytes_of mm (filter (\<lambda>y. fst y \<noteq> b) us)) = (map_of (bytes_of mm us))(b := None)"
  by (induction us) (auto simp: fun_eq_iff)

text \<open>What the exchange leaves allocated.\<close>

lemma rename_drop:
  assumes "f \<notin> fst ` us" "n \<notin> fst ` us"
  shows "{y \<in> (\<lambda>y. (rename f b n (fst y), snd y)) ` us. fst y \<noteq> n} = {y \<in> us. fst y \<noteq> b}"
proof -
  have r: "(rename f b n (fst z), snd z) = (if fst z = b then (n, snd z) else z)" if "z \<in> us" for z
    using that assms by (cases z) (force simp: rename_def)
  have "(\<lambda>y. (rename f b n (fst y), snd y)) ` us = (\<lambda>z. if fst z = b then (n, snd z) else z) ` us"
    by (intro image_cong refl r)
  then show ?thesis using assms(2) by (force split: if_splits)
qed

lemma used_exchanged:
  assumes w: "view_wf (xs @ x # ys) nx" and fx: "mb_free (snd x)"
    and R: "renamed (cut_blk x nx N) b (cut_nx x nx N) (cut_view False xs x ys nx N) = P @ (cut_nx x nx N, m) # Q"
    and d: "distinct (map fst (P @ (cut_nx x nx N, m) # Q))" and u: "\<not> mb_free m"
    and b: "b \<in> fst ` set (used (xs @ x # ys))"
  shows "map_of (bytes_of mm (used P @ used Q))
    = (map_of (bytes_of mm (filter (\<lambda>y. fst y \<noteq> b) (used (xs @ x # ys)))))
        (b \<mapsto> rd_bytes mm (mb_ptr (snd x)) N)"
proof -
  let ?f = "cut_blk x nx N" and ?n = "cut_nx x nx N" and ?us = "used (xs @ x # ys)"
  let ?k = "\<lparr>mb_ptr = mb_ptr (snd x), mb_size = N, mb_free = False\<rparr>"
  let ?L = "(b, ?k) # filter (\<lambda>y. fst y \<noteq> b) ?us"
  have f: "?f \<notin> fst ` set ?us" by (rule cut_blk_fresh [OF w fx])
  have "fst ` set ?us \<subseteq> fst ` set (xs @ x # ys)" by (rule image_mono [OF set_used])
  then have "\<forall>c \<in> fst ` set ?us. c < nx" using w unfolding view_wf_def by blast
  moreover have "nx \<le> ?n" by (simp add: cut_nx_def)
  ultimately have n: "?n \<notin> fst ` set ?us" using leD by blast
  have us: "?us = used xs @ used ys" using fx by simp
  have uT: "set (used (cut_view False xs x ys nx N)) = insert (?f, ?k) (set ?us)"
    using used_cut_view [OF fx, of False xs ys nx N] us by auto
  have "used P @ (?n, m) # used Q = renamed ?f b ?n (used (cut_view False xs x ys nx N))"
    using arg_cong [OF R, of used] u by simp
  then have eqs: "set (used P @ (?n, m) # used Q)
      = (\<lambda>y. (rename ?f b ?n (fst y), snd y)) ` insert (?f, ?k) (set ?us)"
    using uT by (simp add: renamed_def)
  have nPQ: "?n \<notin> fst ` set (used P)" "?n \<notin> fst ` set (used Q)" using d notin_used by auto
  have "set (used P @ used Q) = {y \<in> set (used P @ (?n, m) # used Q). fst y \<noteq> ?n}"
    using nPQ by force
  also have "\<dots> = {y \<in> (\<lambda>y. (rename ?f b ?n (fst y), snd y)) ` insert (?f, ?k) (set ?us). fst y \<noteq> ?n}"
    unfolding eqs ..
  also have "\<dots> = set ?L"
  proof -
    have bn: "b \<noteq> ?n" "b \<noteq> ?f" using b n f by metis+
    have "{y \<in> (\<lambda>y. (rename ?f b ?n (fst y), snd y)) ` set ?us. fst y \<noteq> ?n} = {y \<in> set ?us. fst y \<noteq> b}"
      using f n by (rule rename_drop)
    moreover have "rename ?f b ?n ?f = b" by (simp add: rename_def)
    ultimately show ?thesis using bn(1) by (auto simp del: used_simps)
  qed
  finally have sets: "set (used P @ used Q) = set ?L" .
  have "distinct (map fst (used P @ used Q))"
    using d distinct_used [of "P @ Q"] by (simp del: map_append) (auto)
  moreover have "distinct (map fst ?L)"
  proof -
    have "distinct (map fst ?us)" using w by (intro distinct_used) (simp add: view_wf_def)
    then show ?thesis by (auto simp: distinct_map_filter simp del: used_simps)
  qed
  ultimately have "map_of (bytes_of mm (used P @ used Q)) = map_of (bytes_of mm ?L)"
    using sets by (rule map_of_bytes_set)
  then show ?thesis by simp
qed

lemma unfree_mem: "f \<noteq> b \<Longrightarrow> (b, m) \<in> set bs \<Longrightarrow> (b, m) \<in> set (unfree f bs)"
  by (force simp: unfree_def)

lemma exchanged_cut:
  assumes w: "view_wf (xs @ x # ys) nx" and V: "cut_view True xs x ys nx N = P @ (b, m) # Q"
    and bf: "cut_blk x nx N \<noteq> b"
  defines "f \<equiv> cut_blk x nx N" and "n \<equiv> cut_nx x nx N"
  shows "renamed f b n (cut_view False xs x ys nx N) = exchanged f b n P @ (n, m) # exchanged f b n Q"
proof -
  have d: "distinct (map fst (P @ (b, m) # Q))" using cut_view_wf [OF w, of True N] V by (simp add: view_wf_def)
  then have "b \<notin> fst ` set P" "b \<notin> fst ` set Q" by auto
  moreover have "cut_view False xs x ys nx N = unfree f P @ (b, m) # unfree f Q"
    using unfree_cut_view [OF w, of N] bf unfolding V f_def [symmetric] by simp
  ultimately show ?thesis using bf by (simp add: exchanged_renamed rename_def f_def)
qed

lemma bytes_of_untouched:
  assumes "\<forall>y \<in> set us. mb_ptr (snd y) + mb_size (snd y) \<le> dst \<or> dst + n \<le> mb_ptr (snd y)"
  shows "bytes_of (copied m dst src n) us = bytes_of m us"
  using assms by (auto simp: bytes_of_def rd_bytes_copied_outside)

lemma realloc_move_to_correct:
  assumes v: "view_inv (xs @ x # ys) nx a" and fit: "fits N x" and b: "(b, m) \<in> set (xs @ x # ys)"
    and u: "\<not> mb_free m" and N: "mb_size m \<le> N"
  shows "\<exists>a' zs. realloc_move_to (set_view (xs @ x # ys) nx a) b (length xs) N = Some a'
    \<and> alloc_inv (a'\<lparr>size_free_memory := size_free_memory a - (N - mb_size m)\<rparr>)
    \<and> size_free_memory a' = size_free_memory a \<and> same_arena a a' \<and> length zs = N - mb_size m
    \<and> contents a' = (map_of (bytes_of (mem a) (used (xs @ x # ys))))
        (b \<mapsto> rd_bytes (mem a) (mb_ptr m) (mb_size m) @ zs)"
proof -
  define n where "n = cut_nx x nx N"
  define f where "f = cut_blk x nx N"
  let ?bs = "xs @ x # ys"
  let ?V = "cut_view True xs x ys nx N"
  let ?mm = "copied (mem a) (mb_ptr (snd x)) (mb_ptr m) (mb_size m)"
  note B = fits_bounds [OF v fit]
  have w: "view_wf ?bs nx" using v by (simp add: view_inv_def)
  have bu: "(b, m) \<in> set (used ?bs)" using b u by (auto simp: used_def)
  then have bu': "b \<in> fst ` set (used ?bs)" by (rule image_eqI [rotated]) simp
  then have bf: "f \<noteq> b" using cut_blk_fresh [OF w B(4), of N] by (metis f_def)
  have xb: "x \<noteq> (b, m)" using u B(4) by auto
  then have "(b, m) \<in> set ?V" using b by (auto simp: cut_view_def)
  then obtain P Q where V: "?V = P @ (b, m) # Q" by (auto dest: split_list)
  have R: "renamed f b n (cut_view False xs x ys nx N) = exchanged f b n P @ (n, m) # exchanged f b n Q"
    unfolding f_def n_def using bf by (intro exchanged_cut [OF w V]) (simp add: f_def)
  have "(b, m) \<in> set (cut_view False xs x ys nx N)" using b xb by (auto simp: cut_view_def)
  then have "b \<in> fst ` set (cut_view False xs x ys nx N)" by force
  then have vR: "view_inv (exchanged f b n P @ (n, m) # exchanged f b n Q) (Suc n)
      (a\<lparr>size_free_memory := size_free_memory a - N\<rparr>)"
    using renamed_inv [OF cut_view_inv [OF v fit], of b f, folded n_def, unfolded R] by simp
  then have vR': "view_inv (exchanged f b n P @ (n, m) # exchanged f b n Q) (Suc n)
      (a\<lparr>mem := ?mm, size_free_memory := size_free_memory a - N\<rparr>)"
    by (simp only: view_inv_free_mem layout_upd cur_part_upd) simp
  note J = release_correct [OF vR' u]
  let ?L = "join_view (exchanged f b n P) (n, m\<lparr>mb_free := True\<rparr>) (exchanged f b n Q)"
  let ?a' = "set_view ?L (Suc n) (a\<lparr>mem := ?mm\<rparr>)"
  have "distinct (map fst (exchanged f b n P @ (n, m\<lparr>mb_free := True\<rparr>) # exchanged f b n Q))"
    using vR by (simp add: view_inv_def view_wf_def)
  from joinfree_view [OF this, of "Suc n" "a\<lparr>mem := ?mm\<rparr>"]
  have run: "realloc_move_to (set_view ?bs nx a) b (length xs) N = Some ?a'"
    using realloc_move_to_view [OF v fit b u N V] by (simp add: f_def n_def)
  have "size_free_memory a - N + mb_size m = size_free_memory a - (N - mb_size m)"
    using B N by simp
  then have inv: "view_inv ?L (Suc n) (a\<lparr>mem := ?mm, size_free_memory := size_free_memory a - (N - mb_size m)\<rparr>)"
    using J(2) by simp
  have dis: "\<forall>y \<in> set (filter (\<lambda>y. fst y \<noteq> b) (used ?bs)).
      mb_ptr (snd y) + mb_size (snd y) \<le> mb_ptr (snd x) \<or> mb_ptr (snd x) + mb_size m \<le> mb_ptr (snd y)"
  proof
    fix y assume "y \<in> set (filter (\<lambda>y. fst y \<noteq> b) (used ?bs))"
    then have "y \<in> set ?bs" "y \<noteq> x" using set_used [of ?bs] not_free_used [of y ?bs] B(4) by auto
    moreover have "tiles (cur_part a) ?bs" using v by (simp add: view_inv_def)
    ultimately show "mb_ptr (snd y) + mb_size (snd y) \<le> mb_ptr (snd x) \<or> mb_ptr (snd x) + mb_size m \<le> mb_ptr (snd y)"
      using tiles_disjoint [of "cur_part a" ?bs y x] B(1) N by auto
  qed
  let ?zs = "rd_bytes ?mm (mb_ptr (snd x) + mb_size m) (N - mb_size m)"
  have zs: "rd_bytes ?mm (mb_ptr (snd x)) N = rd_bytes (mem a) (mb_ptr m) (mb_size m) @ ?zs"
    using N rd_bytes_split [of ?mm "mb_ptr (snd x)" "mb_size m" "N - mb_size m"] by simp
  have dL: "distinct (map fst (exchanged f b n P @ (n, m) # exchanged f b n Q))"
    using vR by (simp add: view_inv_def view_wf_def)
  have "map_of (bytes_of ?mm (used ?L))
      = (map_of (bytes_of (mem a) (used ?bs)))(b \<mapsto> rd_bytes (mem a) (mb_ptr m) (mb_size m) @ ?zs)"
    unfolding J(3) zs [symmetric]
    unfolding f_def n_def
    unfolding used_exchanged [OF w B(4) R [unfolded f_def n_def] dL [unfolded f_def n_def] u bu', of ?mm]
    unfolding bytes_of_untouched [OF dis, of "mem a" "mb_ptr m"] map_of_bytes_filter fun_upd_upd ..
  moreover have "contents ?a' = map_of (bytes_of ?mm (used ?L))"
    using inv contents_set_view [of ?L "Suc n" "a\<lparr>mem := ?mm\<rparr>"] by (simp add: view_inv_def)
  ultimately show ?thesis using run inv
    by (intro exI [of _ ?a'] exI [of _ ?zs]) (simp add: same_arena_def)
qed

text \<open>
  The result of a growing step on the state \<open>s\<close>: the free count is not adjusted yet, and the
  invariant holds for the adjusted state.
\<close>

definition grown_to :: "Allocator \<Rightarrow> Allocator \<Rightarrow> blk \<Rightarrow> byte list \<Rightarrow> size_t \<Rightarrow> bool" where
  "grown_to s a' b zs N \<longleftrightarrow>
     alloc_inv (a'\<lparr>size_free_memory := size_free_memory s - (N - length zs)\<rparr>)
     \<and> size_free_memory a' = size_free_memory s \<and> same_arena s a'
     \<and> (\<exists>ws. length ws = N - length zs \<and> contents a' = (contents s)(b \<mapsto> zs @ ws))"

lemma view_mid:
  assumes w: "view_wf bs nx" and c: "contents (set_view bs nx a) b = Some zs"
  obtains xs m ys where "bs = xs @ (b, m) # ys" "\<not> mb_free m" "b \<notin> fst ` set xs" "b \<notin> fst ` set ys"
    "zs = rd_bytes (mem a) (mb_ptr m) (mb_size m)" "mb_size m = length zs"
proof -
  have "b \<in> dom (contents (set_view bs nx a))" using c by blast
  from contents_split [OF set_view_set_view [symmetric] w this] obtain xs m ys where
    S: "bs = xs @ (b, m) # ys" "\<not> mb_free m" "b \<notin> fst ` set xs" "b \<notin> fst ` set ys"
      "contents (set_view bs nx a) b = Some (rd_bytes (mem a) (mb_ptr m) (mb_size m))"
    by (metis set_view_sel)
  then have z: "zs = rd_bytes (mem a) (mb_ptr m) (mb_size m)" using c by (metis option.inject)
  show thesis by (rule that [OF S(1-4) z]) (simp add: z)
qed

lemma realloc_move_to_ok:
  assumes v: "view_inv (xs @ x # ys) nx a" and fit: "fits N x"
    and c: "contents (set_view (xs @ x # ys) nx a) b = Some zs" and N: "length zs \<le> N"
  shows "\<exists>a'. realloc_move_to (set_view (xs @ x # ys) nx a) b (length xs) N = Some a'
    \<and> grown_to (set_view (xs @ x # ys) nx a) a' b zs N"
proof -
  have w: "view_wf (xs @ x # ys) nx" using v by (simp add: view_inv_def)
  from w c obtain us m vs where bs: "xs @ x # ys = us @ (b, m) # vs" and m: "\<not> mb_free m"
    and zs: "zs = rd_bytes (mem a) (mb_ptr m) (mb_size m)" "mb_size m = length zs" by (rule view_mid)
  have b: "(b, m) \<in> set (xs @ x # ys)" unfolding bs by simp
  have mN: "mb_size m \<le> N" using zs(2) N by (rule ord_eq_le_trans)
  from realloc_move_to_correct [OF v fit b m mN, folded contents_set_view [OF w] zs(1), unfolded zs(2)]
  show ?thesis unfolding grown_to_def same_arena_simps set_view_sel by blast
qed

lemma print_view:
  assumes "distinct (map fst bs)"
  shows "print (set_view bs nx a) = Some (set_view bs nx
     (a\<lparr>cout := cout a @ map (\<lambda>x. (mb_free (snd x), mb_size (snd x), mb_ptr (snd x))) bs\<rparr>))"
proof -
  have "print_loop h (map fst cs) = Some (map (\<lambda>x. (mb_free (snd x), mb_size (snd x), mb_ptr (snd x))) cs)"
    if "\<forall>x \<in> set cs. h (fst x) = Some (snd x)" for h cs
    using that by (induction cs) auto
  moreover have "\<forall>x \<in> set bs. map_of bs (fst x) = Some (snd x)" using assms by (auto intro: map_of_is_SomeI)
  ultimately show ?thesis by (simp add: print_def)
qed

lemma contents_cout [simp]: "contents (a\<lparr>cout := c\<rparr>) = contents a"
  by (rule ext) (simp add: contents_def split: option.split)

lemma contents_fm [simp]: "contents (a\<lparr>size_free_memory := f\<rparr>) = contents a"
  by (rule ext) (simp add: contents_def split: option.split)

lemma grown_to_same:
  "grown_to s a' b zs N \<Longrightarrow> size_free_memory s = size_free_memory s' \<Longrightarrow> same_arena s' s \<Longrightarrow>
   contents s = contents s' \<Longrightarrow> grown_to s' a' b zs N"
  by (auto simp: grown_to_def same_arena_def)

lemma realloc_move_ok:
  assumes v: "view_inv bs nx a" and c: "contents (set_view bs nx a) b = Some zs"
    and N: "length zs \<le> N" "N \<le> size_free_memory a"
  shows "\<exists>a'. realloc_move (set_view bs nx a) b N = Some a' \<and> grown_to (set_view bs nx a) a' b zs N"
proof (cases "\<exists>x \<in> set bs. fits N x")
  case True
  then obtain xs x ys where bs: "bs = xs @ x # ys" and f: "fits N x" "\<forall>y \<in> set xs. \<not> fits N y"
    using split_list_first_prop [OF True] by blast
  have "findblock (set_view bs nx a) N = Some (length xs)"
    using findblock_view [of bs nx a N] v f bs by (simp add: view_inv_def view_wf_def takeWhile_found)
  then show ?thesis using realloc_move_to_ok [of xs x ys nx a N b zs] v c f(1) N(1)
    by (simp add: realloc_move_def bs)
next
  case False
  let ?us = "relocate (other_part a) (used bs)"
  let ?x = "(nx, \<lparr>mb_ptr = other_part a + view_size (used bs), mb_size = size_free_memory a, mb_free = True\<rparr>)"
  let ?ds = "?us @ [?x]"
  define sa where "sa = swapped (used bs) a"
  define ca where "ca = sa\<lparr>cout := cout sa @ map (\<lambda>x. (mb_free (snd x), mb_size (snd x), mb_ptr (snd x))) ?ds\<rparr>"
  have e: "after_defrag (used bs) nx a = ?ds" by (simp add: after_defrag_def)
  have w: "view_wf bs nx" using v by (simp add: view_inv_def)
  have v': "view_inv ?ds (Suc nx) ca" using after_defrag_inv [OF v refl] by (simp add: e ca_def sa_def)
  then have d: "view_wf ?ds (Suc nx)" "distinct (map fst ?ds)" by (simp_all add: view_inv_def view_wf_def)
  have df: "defrag (set_view bs nx a) = Some (set_view ?ds (Suc nx) sa)"
    using defrag_correct_view [OF v] by (simp add: e sa_def)
  have pr: "print (set_view ?ds (Suc nx) sa) = Some (set_view ?ds (Suc nx) ca)"
    unfolding ca_def by (rule print_view [OF d(2)])
  have f0: "findblock (set_view bs nx a) N = Some (length bs)"
    using findblock_view [of bs nx a N] w False by (simp add: view_wf_def takeWhile_end)
  have fx: "fits N ?x" using N(2) by (simp add: fits_def)
  have f1: "findblock (set_view ?ds (Suc nx) ca) N = Some (length ?us)"
    using findblock_view [OF d(2), of "Suc nx" ca N] after_defrag_fits [OF v refl, of N] fx
    by (simp add: takeWhile_found del: map_append)
  have cc: "contents (set_view ?ds (Suc nx) ca) = contents (set_view bs nx a)"
    using after_defrag_bytes [OF v refl] unfolding contents_set_view [OF w] contents_set_view [OF d(1)]
    by (simp add: e ca_def sa_def)
  obtain a' where a': "realloc_move_to (set_view ?ds (Suc nx) ca) b (length ?us) N = Some a'"
    "grown_to (set_view ?ds (Suc nx) ca) a' b zs N"
    using realloc_move_to_ok [OF v' fx, of b zs] c N(1) unfolding cc by blast
  have "grown_to (set_view bs nx a) a' b zs N"
    using cc by (intro grown_to_same [OF a'(2)]) (simp_all add: ca_def sa_def)
  moreover have "realloc_move (set_view bs nx a) b N = Some a'"
    unfolding realloc_move_def f0 Option.bind.bind_lunit set_view_sel length_map refl if_True df pr f1 prod.case
    using a'(1) by simp
  ultimately show ?thesis by blast
qed

lemma realloc_in_place_ok:
  assumes v: "view_inv (xs @ (b, m) # (c, k) # ys) nx a" and u: "\<not> mb_free m"
    and f: "mb_free k" "N - mb_size m \<le> mb_size k" and N: "mb_size m \<le> N"
    and zs: "contents (set_view (xs @ (b, m) # (c, k) # ys) nx a) b = Some zs"
  shows "\<exists>a'. realloc_in_place (set_view (xs @ (b, m) # (c, k) # ys) nx a) (Suc (length xs)) k (N - mb_size m)
      = Some a' \<and> grown_to (set_view (xs @ (b, m) # (c, k) # ys) nx a) a' b zs N"
proof -
  let ?bs = "xs @ (b, m) # (c, k) # ys" and ?d = "N - mb_size m"
  let ?gs = "grown_view xs b m c k ys ?d" and ?nx = "if mb_size k = ?d then nx else Suc nx"
  let ?a' = "set_view ?gs ?nx a"
  note G = grown_view_correct [OF v u f]
  have w: "view_wf ?bs nx" using v by (simp add: view_inv_def)
  have wg: "view_wf ?gs ?nx" using G(1) by (simp add: view_inv_def)
  have c: "contents (set_view ?bs nx a) b = Some (rd_bytes (mem a) (mb_ptr m) (mb_size m))"
    using w u by (simp add: contents_def view_wf_def)
  then have z: "zs = rd_bytes (mem a) (mb_ptr m) (mb_size m)" using zs by simp
  let ?ws = "rd_bytes (mem a) (mb_ptr m + mb_size m) ?d"
  have "rd_bytes (mem a) (mb_ptr m) (mb_size m + ?d) = zs @ ?ws"
    unfolding z by (rule rd_bytes_split)
  then have "contents ?a' = (contents (set_view ?bs nx a))(b \<mapsto> zs @ ?ws)"
    unfolding contents_set_view [OF wg] contents_set_view [OF w] G(2)
    using map_of_bytes_upd [OF w u, of "mem a" "m\<lparr>mb_size := mb_size m + ?d\<rparr>"] f(1) by simp
  moreover have "mb_size m = length zs" unfolding z by simp
  ultimately have "grown_to (set_view ?bs nx a) ?a' b zs N"
    using G(1) unfolding grown_to_def by (auto intro!: exI [of _ ?ws])
  then show ?thesis using realloc_in_place_view [OF v f] by blast
qed

section \<open>Growing\<close>

lemma grow_next:
  assumes v: "view_inv (xs @ (b, m) # ys) nx a" and c: "contents (set_view (xs @ (b, m) # ys) nx a) b = Some zs"
    and u: "\<not> mb_free m" and N: "mb_size m < N" "N - mb_size m \<le> size_free_memory a"
    and room: "size_free_memory a < N \<Longrightarrow>
      \<exists>c k zs. ys = (c, k) # zs \<and> mb_free k \<and> N - mb_size m \<le> mb_size k"
  shows "\<exists>a'. realloc_next (set_view (xs @ (b, m) # ys) nx a) b (length xs) N (N - mb_size m) = Some a'
    \<and> grown_to (set_view (xs @ (b, m) # ys) nx a) a' b zs N"
proof -
  let ?s = "set_view (xs @ (b, m) # ys) nx a" and ?d = "N - mb_size m"
  have w: "view_wf (xs @ (b, m) # ys) nx" using v by (simp add: view_inv_def)
  have "contents ?s b = Some (rd_bytes (mem a) (mb_ptr m) (mb_size m))"
    using w u by (simp add: contents_def view_wf_def)
  then have mz: "mb_size m = length zs" using c by auto
  note it = iter_next_mid [of xs "(b, m)" ys]
  have mv: "\<exists>a'. realloc_move ?s b N = Some a' \<and> grown_to ?s a' b zs N" if "N \<le> size_free_memory a"
    using realloc_move_ok [OF v c _ that] N(1) mz by simp
  show ?thesis
  proof (cases ys)
    case Nil
    then have "N \<le> size_free_memory a" using room by fastforce
    then show ?thesis using mv unfolding realloc_next_def set_view_sel it by (simp add: Nil)
  next
    case (Cons y zs')
    obtain e k where y: "y = (e, k)" by force
    have g: "iter_get (map fst (xs @ (b, m) # ys)) (Suc (length xs)) = Some e"
      by (simp add: iter_get_def Cons y nth_append)
    have h: "map_of (xs @ (b, m) # ys) e = Some k" using w by (auto simp: Cons y view_wf_def)
    have ne: "(Suc (length xs) = length (map fst (xs @ (b, m) # ys))) = False" by (simp add: Cons)
    show ?thesis
    proof (cases "mb_free k \<and> ?d \<le> mb_size k")
      case True
      then show ?thesis
        using realloc_in_place_ok [of xs b m e k zs' nx a N zs] v c u N
        unfolding realloc_next_def set_view_sel it Option.bind.bind_lunit ne g h by (simp add: Cons y)
    next
      case False
      then have "N \<le> size_free_memory a" using room by (fastforce simp: Cons y)
      then show ?thesis using mv False
        unfolding realloc_next_def set_view_sel it Option.bind.bind_lunit ne g h by auto
    qed
  qed
qed

text \<open>The three cases of the growth, with the free count adjusted as the code does.\<close>

lemma grown_to_finish:
  assumes "grown_to a a' b zs N" "N - length zs \<le> size_free_memory a" "size_free_memory a < SZ"
  defines "r \<equiv> a'\<lparr>size_free_memory := sz_sub (size_free_memory a') (N - length zs)\<rparr>"
  shows "alloc_inv r \<and> same_arena a r \<and> size_free_memory r = size_free_memory a - (N - length zs)
    \<and> (\<exists>ws. length ws = N - length zs \<and> contents r = (contents a)(b \<mapsto> zs @ ws))"
  using assms by (simp add: grown_to_def sz_simps)

lemma defragWithLast_ok:
  assumes v: "view_inv (xs @ (b, m) # ys) nx a" and u: "\<not> mb_free m"
  obtains ds k where
    "defragWithLast (set_view (xs @ (b, m) # ys) nx a) (length xs)
      = Some (set_view (ds @ (b, m\<lparr>mb_ptr := k\<rparr>) #
          [(nx, \<lparr>mb_ptr = k + mb_size m, mb_size = size_free_memory a, mb_free = True\<rparr>)]) (Suc nx)
          (swapped (used (xs @ ys) @ [(b, m)]) a))"
    "view_inv (ds @ (b, m\<lparr>mb_ptr := k\<rparr>) #
          [(nx, \<lparr>mb_ptr = k + mb_size m, mb_size = size_free_memory a, mb_free = True\<rparr>)]) (Suc nx)
          (swapped (used (xs @ ys) @ [(b, m)]) a)"
    "contents (set_view (ds @ (b, m\<lparr>mb_ptr := k\<rparr>) #
          [(nx, \<lparr>mb_ptr = k + mb_size m, mb_size = size_free_memory a, mb_free = True\<rparr>)]) (Suc nx)
          (swapped (used (xs @ ys) @ [(b, m)]) a)) = contents (set_view (xs @ (b, m) # ys) nx a)"
proof -
  let ?bs = "xs @ (b, m) # ys" and ?us = "used (xs @ ys) @ [(b, m)]"
  let ?k = "other_part a + view_size (used (xs @ ys))"
  have w: "view_wf ?bs nx" using v by (simp add: view_inv_def)
  have p: "mset ?us = mset (used ?bs)" using u by simp
  have "view_size ?us \<le> size_memory_part a"
    using v used_free_size [of ?bs] perm_used(3) [OF p] by (simp add: view_inv_def)
  then have cs: "copy_safe (ptr_memory a) (ptr_memory a + size_memory a) (other_part a) ?us"
    using view_inv_copy_safe [OF v perm_used(5) [OF p]] by blast
  have e: "after_defrag ?us nx a = relocate (other_part a) (used (xs @ ys)) @ (b, m\<lparr>mb_ptr := ?k\<rparr>) #
      [(nx, \<lparr>mb_ptr = ?k + mb_size m, mb_size = size_free_memory a, mb_free = True\<rparr>)]"
    by (simp add: after_defrag_def add.assoc)
  have i: "view_inv (after_defrag ?us nx a) (Suc nx) (swapped ?us a)" by (rule after_defrag_inv [OF v p])
  then have w': "view_wf (after_defrag ?us nx a) (Suc nx)" by (simp add: view_inv_def)
  have c: "contents (set_view (after_defrag ?us nx a) (Suc nx) (swapped ?us a)) = contents (set_view ?bs nx a)"
    unfolding contents_set_view [OF w'] contents_set_view [OF w] by (rule after_defrag_bytes [OF v p])
  have d: "defragWithLast (set_view ?bs nx a) (length xs)
      = Some (set_view (after_defrag ?us nx a) (Suc nx) (swapped ?us a))"
    unfolding defragWithLast_view [OF w cs] defragged_eq ..
  show thesis by (rule that [OF d [unfolded e] i [unfolded e] c [unfolded e]])
qed

lemma find_iter_view: "b \<notin> fst ` set xs \<Longrightarrow> find_iter b (map fst (xs @ (b, m) # ys)) = length xs"
  using find_iter_append [of b "map fst xs" "map fst ys"] by simp

lemma realloc_grow_ok:
  assumes inv: "alloc_inv a" and b: "contents a b = Some zs" and N: "length zs < N"
    and F: "N - length zs \<le> size_free_memory a"
  shows "\<exists>a'. realloc a (Pointer (Some b)) N = Some (Inr (Pointer (Some b), a')) \<and> alloc_inv a'
      \<and> same_arena a a' \<and> size_free_memory a' = size_free_memory a - (N - length zs)
      \<and> (\<exists>ws. length ws = N - length zs \<and> contents a' = (contents a)(b \<mapsto> zs @ ws))"
proof -
  obtain bs nx where a: "a = set_view bs nx a" and v: "view_inv bs nx a" and w: "view_wf bs nx"
    using inv by (rule alloc_invE)
  have c: "contents (set_view bs nx a) b = Some zs" using b a by simp
  from w c obtain xs m ys where bs: "bs = xs @ (b, m) # ys" and m: "\<not> mb_free m"
    and nb: "b \<notin> fst ` set xs" "b \<notin> fst ` set ys" and mz: "mb_size m = length zs" by (rule view_mid)
  have h: "heap a b = Some m" using arg_cong [OF a, of heap] nb by (simp add: bs)
  have fs: "size_free_memory a < SZ" using view_inv_bounds(1,2) [OF v] by simp
  have "size_free_memory a + mb_size m \<le> size_memory_part a"
    using v m used_free_size [of bs] by (simp add: view_inv_def bs)
  then have "N < SZ" using F mz view_inv_bounds(1) [OF v] by simp
  then have d: "sz_sub N (mb_size m) = N - mb_size m" using N mz by (simp add: sz_simps)
  have it: "find_iter b (list_blocks a) = length xs"
    using arg_cong [OF a, of list_blocks] find_iter_view [OF nb(1)] by (simp add: bs)
  have grow: "\<exists>a'. realloc_grow a b m N = Some (Inr (a'\<lparr>size_free_memory := sz_sub (size_free_memory a') (N - length zs)\<rparr>))
      \<and> grown_to a a' b zs N"
  proof (cases "size_free_memory a < N")
    case False
    have n: "\<exists>a'. realloc_next a b (length xs) N (N - mb_size m) = Some a' \<and> grown_to a a' b zs N"
      using grow_next [OF v [unfolded bs] c [unfolded bs] m] N F mz False
      unfolding bs [symmetric] a [symmetric] by simp
    then show ?thesis using False F mz by (auto simp: realloc_grow_def Let_def d [unfolded mz] it)
  next
    case True
    obtain ds k where dw: "defragWithLast a (length xs) = Some (set_view (ds @ (b, m\<lparr>mb_ptr := k\<rparr>) #
          [(nx, \<lparr>mb_ptr = k + mb_size m, mb_size = size_free_memory a, mb_free = True\<rparr>)]) (Suc nx)
          (swapped (used (xs @ ys) @ [(b, m)]) a))" (is "_ = Some (set_view ?ds _ ?sa)")
      and vs: "view_inv (ds @ (b, m\<lparr>mb_ptr := k\<rparr>) #
          [(nx, \<lparr>mb_ptr = k + mb_size m, mb_size = size_free_memory a, mb_free = True\<rparr>)]) (Suc nx)
          (swapped (used (xs @ ys) @ [(b, m)]) a)"
      and cs: "contents (set_view (ds @ (b, m\<lparr>mb_ptr := k\<rparr>) #
          [(nx, \<lparr>mb_ptr = k + mb_size m, mb_size = size_free_memory a, mb_free = True\<rparr>)]) (Suc nx)
          (swapped (used (xs @ ys) @ [(b, m)]) a)) = contents a"
      using defragWithLast_ok [OF v [unfolded bs] m, folded bs, folded a] by metis
    let ?s = "set_view ?ds (Suc nx) ?sa"
    have bd: "b \<notin> fst ` set ds" using vs by (auto simp: view_inv_def view_wf_def)
    have cz: "contents ?s b = Some zs" unfolding cs by (rule b)
    have "\<exists>a'. realloc_next ?s b (length ds) N (N - mb_size m) = Some a' \<and> grown_to ?s a' b zs N"
      using grow_next [OF vs cz] m N F mz by simp
    then obtain a' where n: "realloc_next ?s b (length ds) N (N - mb_size m) = Some a'"
      and g: "grown_to ?s a' b zs N" by blast
    have "grown_to a a' b zs N" using cs by (intro grown_to_same [OF g]) simp_all
    moreover have "find_iter b (list_blocks ?s) = length ds"
      unfolding set_view_sel by (rule find_iter_view [OF bd])
    ultimately show ?thesis using True F mz n dw by (auto simp: realloc_grow_def Let_def d [unfolded mz] it)
  qed
  then obtain a' where g: "realloc_grow a b m N
      = Some (Inr (a'\<lparr>size_free_memory := sz_sub (size_free_memory a') (N - length zs)\<rparr>))"
    and r: "grown_to a a' b zs N" by blast
  have "realloc a (Pointer (Some b)) N
      = Some (Inr (Pointer (Some b), a'\<lparr>size_free_memory := sz_sub (size_free_memory a') (N - length zs)\<rparr>))"
    using h N mz g by (simp add: realloc_def)
  then show ?thesis using grown_to_finish [OF r F fs] by blast
qed

end
