(* ===== verification/Alloc_Client.thy ===== *)
theory Alloc_Client
  imports Alloc_Realloc
begin

text \<open>
  The allocator as its clients see it: the constructor, what the invariant says about live
  blocks, \<open>defrag\<close>, the client helpers of \<^verbatim>\<open>src/p1/allocator_test.cpp\<close>, the interface they
  rely on as a locale with the model as its interpretation, and the refinement of the whole
  allocator to an abstract store of byte lists.
\<close>

section \<open>Construction\<close>

lemma Allocator_init_view:
  "Allocator_init base sz m = set_view [(0, \<lparr>mb_ptr = base, mb_size = sz div 2, mb_free = True\<rparr>)] 1
     (Allocator_init base sz m)"
  by (simp add: Allocator_init_def new_block_def set_view_def Let_def)

lemma Allocator_init_sel [simp]:
  "size_free_memory (Allocator_init base sz m) = sz div 2"
  "size_memory_part (Allocator_init base sz m) = sz div 2"
  "size_memory (Allocator_init base sz m) = sz" "ptr_memory (Allocator_init base sz m) = base"
  by (simp_all add: Allocator_init_def new_block_def Let_def)

lemma Allocator_init_inv:
  assumes "base + sz < SZ"
  shows "alloc_inv (Allocator_init base sz m)"
proof -
  have "view_inv [(0, \<lparr>mb_ptr = base, mb_size = sz div 2, mb_free = True\<rparr>)] 1 (Allocator_init base sz m)"
    using assms by (simp add: view_inv_def view_wf_def layout_def cur_part_def Allocator_init_def
        new_block_def Let_def coalesced_def)
  then show ?thesis by (subst Allocator_init_view) simp
qed

lemma contents_init: "contents (Allocator_init base sz m) = Map.empty"
  by (subst Allocator_init_view) (simp add: contents_set_view view_wf_def)

section \<open>Live blocks\<close>

lemma contents_block:
  assumes "alloc_inv a" "contents a b = Some zs"
  obtains m where "heap a b = Some m" "\<not> mb_free m" "(b, m) \<in> set (blocks a)" "mb_size m = length zs"
    "zs = rd_bytes (mem a) (mb_ptr m) (mb_size m)"
proof -
  obtain m where m: "heap a b = Some m" "\<not> mb_free m" "zs = rd_bytes (mem a) (mb_ptr m) (mb_size m)"
    using assms(2) by (auto simp: contents_def split: option.splits if_splits)
  have "b \<in> set (list_blocks a)" using assms(1) m(1) by (auto simp: alloc_inv_def store_wf_def)
  then have "(b, m) \<in> set (blocks a)" using m(1) by (force simp: blocks_def)
  then show thesis using m by (intro that) simp_all
qed

lemma live_range:
  assumes "alloc_inv a" "heap a b = Some m"
  shows "cur_part a \<le> mb_ptr m" "mb_ptr m + mb_size m \<le> cur_part a + size_memory_part a"
proof -
  have "b \<in> set (list_blocks a)" using assms by (auto simp: alloc_inv_def store_wf_def)
  then have "(b, m) \<in> set (blocks a)" using assms(2) by (force simp: blocks_def)
  moreover have "tiles (cur_part a) (blocks a)" "view_size (blocks a) = size_memory_part a"
    using assms(1) by (auto simp: alloc_inv_def view_inv_def)
  ultimately show "cur_part a \<le> mb_ptr m" "mb_ptr m + mb_size m \<le> cur_part a + size_memory_part a"
    using tiles_range [of "cur_part a" "blocks a" "(b, m)"] by auto
qed

lemma live_apart:
  assumes "alloc_inv a" "heap a b = Some m" "heap a c = Some k" "b \<noteq> c"
  shows "mb_ptr m + mb_size m \<le> mb_ptr k \<or> mb_ptr k + mb_size k \<le> mb_ptr m"
proof -
  have "b \<in> set (list_blocks a)" "c \<in> set (list_blocks a)"
    using assms by (auto simp: alloc_inv_def store_wf_def)
  then have "(b, m) \<in> set (blocks a)" "(c, k) \<in> set (blocks a)"
    using assms(2,3) by (force simp: blocks_def)+
  moreover have "tiles (cur_part a) (blocks a)" using assms(1) by (auto simp: alloc_inv_def view_inv_def)
  ultimately show ?thesis using tiles_disjoint [of "cur_part a" "blocks a" "(b, m)" "(c, k)"] assms(4) by auto
qed

lemma used_capacity:
  assumes d: "distinct (map fst us)"
  shows "(\<Sum>b \<in> dom (map_of (bytes_of mm us)). length (the (map_of (bytes_of mm us) b))) = view_size us"
proof -
  let ?f = "map_of (bytes_of mm us)"
  have "(\<Sum>b \<in> dom ?f. length (the (?f b))) = (\<Sum>b \<leftarrow> map fst us. length (the (?f b)))"
    using d by (simp add: sum_list_distinct_conv_sum_set dom_map_of_conv_image_fst del: map_map)
  also have "\<dots> = (\<Sum>x \<leftarrow> us. mb_size (snd x))"
  proof -
    have "distinct (map fst (bytes_of mm us))" using d by (simp add: bytes_of_def comp_def)
    then have "?f (fst x) = Some (rd_bytes mm (mb_ptr (snd x)) (mb_size (snd x)))" if "x \<in> set us" for x
      using that by (intro map_of_is_SomeI) (auto simp: bytes_of_def)
    then show ?thesis by (simp add: comp_def cong: map_cong)
  qed
  finally show ?thesis by (simp add: view_size_def)
qed

lemma capacity:
  assumes "alloc_inv a"
  shows "(\<Sum>b \<in> dom (contents a). length (the (contents a b))) + size_free_memory a = size_memory_part a"
proof -
  obtain bs nx where a: "a = set_view bs nx a" and v: "view_inv bs nx a" and w: "view_wf bs nx"
    using assms by (rule alloc_invE)
  have c: "contents a = map_of (bytes_of (mem a) (used bs))" using a contents_set_view [OF w, of a] by simp
  have "distinct (map fst (used bs))" using w by (intro distinct_used) (simp add: view_wf_def)
  then show ?thesis unfolding c used_capacity [OF \<open>distinct (map fst (used bs))\<close>]
    using v used_free_size [of bs] by (simp add: view_inv_def)
qed

section \<open>Defragmentation\<close>

text \<open>
  After \<open>defrag\<close> the live blocks keep their order and bytes, and all free memory is one block
  at the end.
\<close>

lemma defrag_ok:
  assumes "alloc_inv a"
  shows "\<exists>a' f m. defrag a = Some a' \<and> alloc_inv a' \<and> contents a' = contents a \<and> same_arena a a'
    \<and> size_free_memory a' = size_free_memory a \<and> ping_pong a' = (\<not> ping_pong a)
    \<and> list_blocks a' = map fst (used (blocks a)) @ [f]
    \<and> heap a' f = Some m \<and> mb_free m \<and> mb_size m = size_free_memory a"
proof -
  obtain bs nx where a: "a = set_view bs nx a" and v: "view_inv bs nx a" and w: "view_wf bs nx"
    and bs: "bs = blocks a" using assms by (rule alloc_invE)
  let ?ds = "after_defrag (used bs) nx a" and ?sa = "swapped (used bs) a"
  have i: "view_inv ?ds (Suc nx) ?sa" by (rule after_defrag_inv [OF v refl])
  then have w': "view_wf ?ds (Suc nx)" by (simp add: view_inv_def)
  have "contents (set_view ?ds (Suc nx) ?sa) = contents (set_view bs nx a)"
    unfolding contents_set_view [OF w'] contents_set_view [OF w] by (rule after_defrag_bytes [OF v refl])
  then have c: "contents (set_view ?ds (Suc nx) ?sa) = contents a" using a by simp
  have "defrag a = Some (set_view ?ds (Suc nx) ?sa)" using defrag_correct_view [OF v] a by simp
  moreover have "map_of ?ds nx
      = Some \<lparr>mb_ptr = other_part a + view_size (used bs), mb_size = size_free_memory a, mb_free = True\<rparr>"
    using w' by (intro map_of_is_SomeI) (auto simp: view_wf_def after_defrag_def)
  moreover have "map fst ?ds = map fst (used (blocks a)) @ [nx]" by (simp add: after_defrag_def bs)
  moreover have "ping_pong ?sa = (\<not> ping_pong a)" by (simp add: swapped_def)
  ultimately show ?thesis using i c
    by (intro exI [of _ "set_view ?ds (Suc nx) ?sa"] exI [of _ nx]) auto
qed

section \<open>The helpers of the tests\<close>

definition write_byte :: "Allocator \<Rightarrow> addr \<Rightarrow> byte \<Rightarrow> Allocator option" where
  "write_byte a q v =
     (if ptr_memory a \<le> q \<and> q < ptr_memory a + size_memory a then Some (a\<lparr>mem := (mem a)(q := v)\<rparr>)
      else None)"

text \<open>The counters of the two loops are of type \<open>int\<close>: counting past the largest one is undefined.\<close>

function writeTo_loop :: "addr \<Rightarrow> nat \<Rightarrow> size_t \<Rightarrow> Allocator \<Rightarrow> Allocator option" where
  "writeTo_loop v i sz a =
     (if i < sz then do {
        a \<leftarrow> write_byte a (v + i) (word_of_nat (i mod 31));
        i \<leftarrow> int_next i;
        writeTo_loop v i sz a
      } else Some a)"
  by pat_completeness auto
termination by (relation "measure (\<lambda>(v, i, sz, a). sz - i)") (auto simp: int_next_def split: if_splits)

declare writeTo_loop.simps [simp del]

text \<open>A null pointer is only dereferenced when the loop runs.\<close>

definition writeTo :: "Allocator \<Rightarrow> Pointer \<Rightarrow> size_t \<Rightarrow> Allocator option" where
  "writeTo a p sz = do {
     v \<leftarrow> get a p;
     case v of None \<Rightarrow> if sz = 0 then Some a else None
     | Some v \<Rightarrow> writeTo_loop v 0 sz a
   }"

function isDataOk_loop :: "memory \<Rightarrow> addr \<Rightarrow> nat \<Rightarrow> size_t \<Rightarrow> bool option" where
  "isDataOk_loop m v i sz =
     (if i < sz then
        if m (v + i) \<noteq> word_of_nat (i mod 31) then Some False
        else do {
          i \<leftarrow> int_next i;
          isDataOk_loop m v i sz
        }
      else Some True)"
  by pat_completeness auto
termination by (relation "measure (\<lambda>(m, v, i, sz). sz - i)") (auto simp: int_next_def split: if_splits)

declare isDataOk_loop.simps [simp del]

definition isDataOk :: "Allocator \<Rightarrow> Pointer \<Rightarrow> size_t \<Rightarrow> bool option" where
  "isDataOk a p sz = do {
     v \<leftarrow> get a p;
     case v of None \<Rightarrow> if sz = 0 then Some True else None
     | Some v \<Rightarrow> isDataOk_loop (mem a) v 0 sz
   }"

text \<open>The bytes that \<open>writeTo\<close> writes.\<close>

definition pattern_bytes :: "nat \<Rightarrow> byte list" where
  "pattern_bytes n = map (\<lambda>i. word_of_nat (i mod 31)) [0..<n]"

lemma length_pattern [simp]: "length (pattern_bytes n) = n"
  by (simp add: pattern_bytes_def)

lemma int_next_Some: "i < n \<Longrightarrow> n < 2 ^ 31 \<Longrightarrow> int_next i = Some (Suc i)"
  by (simp add: int_next_def)

lemma isDataOk_loop_all:
  assumes "sz < 2 ^ 31"
  shows "isDataOk_loop m v i sz = Some (\<forall>j \<in> {i..<sz}. m (v + j) = word_of_nat (j mod 31))"
  using assms
proof (induction m v i sz rule: isDataOk_loop.induct)
  case (1 m v i sz)
  show ?case
  proof (cases "i < sz")
    case True
    then have s: "{i..<sz} = insert i {Suc i..<sz}" by auto
    have n: "int_next i = Some (Suc i)" by (rule int_next_Some [OF True 1(2)])
    show ?thesis
    proof (cases "m (v + i) = word_of_nat (i mod 31)")
      case eq: True
      then have "isDataOk_loop m v (Suc i) sz = Some (\<forall>j \<in> {Suc i..<sz}. m (v + j) = word_of_nat (j mod 31))"
        using 1(1) [OF True _ n 1(2)] by simp
      then show ?thesis using True eq n s by (subst isDataOk_loop.simps) simp
    next
      case False
      then show ?thesis using True s by (subst isDataOk_loop.simps) simp
    qed
  qed (subst isDataOk_loop.simps, simp)
qed

lemma isDataOk_loop_counts: "isDataOk_loop m v i sz = Some True \<Longrightarrow> i < sz \<Longrightarrow> sz < 2 ^ 31"
proof (induction m v i sz rule: isDataOk_loop.induct)
  case (1 m v i sz)
  from 1(2,3) have n: "int_next i = Some (Suc i)" and l: "isDataOk_loop m v (Suc i) sz = Some True"
    by (subst (asm) isDataOk_loop.simps, auto simp: int_next_def split: if_splits)+
  have "Suc i < 2 ^ 31" using n by (simp add: int_next_def split: if_splits)
  show ?case
  proof (cases "Suc i < sz")
    case True
    have "m (v + i) = word_of_nat (i mod 31)"
      using 1(2,3) by (subst (asm) isDataOk_loop.simps) (auto split: if_splits)
    then show ?thesis using 1(1) [OF 1(3) _ n l True] by simp
  next
    case False
    then show ?thesis using 1(3) \<open>Suc i < 2 ^ 31\<close> by simp
  qed
qed

lemma writeTo_loop_mem:
  assumes "ptr_memory a \<le> v" "v + sz \<le> ptr_memory a + size_memory a" "i \<le> sz" "sz < 2 ^ 31"
  shows "writeTo_loop v i sz a
    = Some (a\<lparr>mem := \<lambda>x. if v + i \<le> x \<and> x < v + sz then word_of_nat ((x - v) mod 31) else mem a x\<rparr>)"
  using assms
proof (induction v i sz a rule: writeTo_loop.induct)
  case (1 v i sz a)
  show ?case
  proof (cases "i < sz")
    case True
    let ?a = "a\<lparr>mem := (mem a)(v + i := word_of_nat (i mod 31))\<rparr>"
    have wb: "write_byte a (v + i) (word_of_nat (i mod 31)) = Some ?a"
      using 1(2-4) True by (simp add: write_byte_def)
    have nx: "int_next i = Some (Suc i)" by (rule int_next_Some [OF True 1(5)])
    have "writeTo_loop v (Suc i) sz ?a = Some (?a\<lparr>mem := \<lambda>x. if v + Suc i \<le> x \<and> x < v + sz
        then word_of_nat ((x - v) mod 31) else mem ?a x\<rparr>)"
      using 1(1) [OF True wb nx] 1(2-5) True by simp
    moreover have "(\<lambda>x. if v + Suc i \<le> x \<and> x < v + sz then word_of_nat ((x - v) mod 31) else mem ?a x)
        = (\<lambda>x. if v + i \<le> x \<and> x < v + sz then word_of_nat ((x - v) mod 31) else mem a x)"
      using True by (auto simp: fun_eq_iff)
    ultimately show ?thesis using True wb nx by (subst writeTo_loop.simps) simp
  next
    case False
    then have "(\<lambda>x. if v + i \<le> x \<and> x < v + sz then word_of_nat ((x - v) mod 31) else mem a x) = mem a"
      by (auto simp: fun_eq_iff)
    then show ?thesis using False by (subst writeTo_loop.simps) simp
  qed
qed

lemma alloc_inv_mem [simp]: "alloc_inv (a\<lparr>mem := m\<rparr>) = alloc_inv a"
  by (simp add: alloc_inv_def store_wf_def view_inv_def blocks_def layout_def cur_part_def)

lemma contents_mem:
  "contents (a\<lparr>mem := m\<rparr>) c = (case heap a c of None \<Rightarrow> None
     | Some k \<Rightarrow> if mb_free k then None else Some (rd_bytes m (mb_ptr k) (mb_size k)))"
  by (simp add: contents_def split: option.split)

lemma arena_bounds:
  assumes "alloc_inv a"
  shows "ptr_memory a \<le> cur_part a" "cur_part a + size_memory_part a \<le> ptr_memory a + size_memory a"
  using assms by (auto simp: alloc_inv_def view_inv_def layout_def cur_part_def)

lemma writeTo_ok:
  assumes inv: "alloc_inv a" and b: "contents a b = Some zs" and n: "n \<le> length zs" and short: "n < 2 ^ 31"
  shows "\<exists>a'. writeTo a (Pointer (Some b)) n = Some a' \<and> alloc_inv a' \<and> same_arena a a'
    \<and> contents a' = (contents a)(b \<mapsto> pattern_bytes n @ drop n zs)
    \<and> size_free_memory a' = size_free_memory a"
proof -
  obtain m where h: "heap a b = Some m" and u: "\<not> mb_free m" and mz: "mb_size m = length zs"
    and zs: "zs = rd_bytes (mem a) (mb_ptr m) (mb_size m)"
    using inv b by (rule contents_block)
  let ?m = "\<lambda>x. if mb_ptr m + 0 \<le> x \<and> x < mb_ptr m + n then word_of_nat ((x - mb_ptr m) mod 31) else mem a x"
  have "writeTo a (Pointer (Some b)) n = Some (a\<lparr>mem := ?m\<rparr>)"
    using live_range [OF inv h] arena_bounds [OF inv] n mz h short
    by (simp add: writeTo_def get_def writeTo_loop_mem)
  moreover have "contents (a\<lparr>mem := ?m\<rparr>) = (contents a)(b \<mapsto> pattern_bytes n @ drop n zs)"
  proof
    fix c
    show "contents (a\<lparr>mem := ?m\<rparr>) c = ((contents a)(b \<mapsto> pattern_bytes n @ drop n zs)) c"
    proof (cases "c = b")
      case True
      have "rd_bytes ?m (mb_ptr m) (mb_size m) = pattern_bytes n @ drop n zs"
        using n mz unfolding zs
        by (intro nth_equalityI) (auto simp: rd_bytes_def pattern_bytes_def nth_append)
      then show ?thesis using True h u by (simp add: contents_mem)
    next
      case False
      have "rd_bytes ?m (mb_ptr k) (mb_size k) = rd_bytes (mem a) (mb_ptr k) (mb_size k)"
        if "heap a c = Some k" for k
        using live_apart [OF inv h that] False n mz by (intro rd_bytes_cong) auto
      then show ?thesis using False by (auto simp: contents_mem contents_def split: option.split)
    qed
  qed
  ultimately show ?thesis using inv by (intro exI [of _ "a\<lparr>mem := ?m\<rparr>"]) (simp add: same_arena_def)
qed

lemma isDataOk_iff:
  assumes "alloc_inv a" "contents a b = Some zs" "n \<le> length zs" "n < 2 ^ 31"
  shows "isDataOk a (Pointer (Some b)) n = Some (take n zs = pattern_bytes n)"
proof -
  obtain m where h: "heap a b = Some m" and mz: "mb_size m = length zs"
    and zs: "zs = rd_bytes (mem a) (mb_ptr m) (mb_size m)"
    using assms(1,2) by (rule contents_block)
  have "take n zs = rd_bytes (mem a) (mb_ptr m) n" using assms(3) mz zs by (metis take_rd_bytes)
  then have "(take n zs = pattern_bytes n) \<longleftrightarrow> (\<forall>j \<in> {0..<n}. mem a (mb_ptr m + j) = word_of_nat (j mod 31))"
    by (auto simp: rd_bytes_def pattern_bytes_def list_eq_iff_nth_eq)
  then show ?thesis by (simp add: isDataOk_def get_def h isDataOk_loop_all [OF assms(4)])
qed

text \<open>A successful check has counted all bytes.\<close>

lemma isDataOk_short: "isDataOk a p n = Some True \<Longrightarrow> n < 2 ^ 31"
  using isDataOk_loop_counts by (cases "n = 0") (auto simp: isDataOk_def bind_eq_Some_conv split: option.split_asm)

section \<open>The interface of an allocator and its clients\<close>

text \<open>
  \<open>fillUp\<close> allocates until the first \<open>AllocError\<close>, at most \<open>Max\<close> times; it is written over
  the two operations it calls, so that it can be reasoned about from their laws alone.
\<close>

fun fillUp_loop ::
  "('s \<Rightarrow> size_t \<Rightarrow> (AllocErrorType + Pointer \<times> 's) option) \<Rightarrow> ('s \<Rightarrow> Pointer \<Rightarrow> size_t \<Rightarrow> 's option) \<Rightarrow>
   nat \<Rightarrow> 's \<Rightarrow> size_t \<Rightarrow> Pointer list \<Rightarrow> (bool \<times> Pointer list \<times> 's) option" where
  "fillUp_loop mk wr 0 s sz out = Some (False, out, s)"
| "fillUp_loop mk wr (Suc i) s sz out = do {
     r \<leftarrow> mk s sz;
     case r of Inl e \<Rightarrow> Some (True, out, s)
     | Inr (p, s) \<Rightarrow> do {
         s \<leftarrow> wr s p sz;
         fillUp_loop mk wr i s sz (out @ [p])
       }
   }"

text \<open>\<open>sizeof(buf)\<close> of the tests; a zero \<open>allocSize\<close> divides by zero.\<close>

definition buf_size :: nat where
  "buf_size = 65536"

definition fillUp :: "Allocator \<Rightarrow> size_t \<Rightarrow> Pointer list \<Rightarrow> (bool \<times> Pointer list \<times> Allocator) option" where
  "fillUp a allocSize out =
     (if allocSize = 0 then None
      else fillUp_loop alloc writeTo (2 * buf_size div allocSize) a allocSize out)"

locale block_store =
  fixes ok :: "'s \<Rightarrow> bool" and live :: "'s \<Rightarrow> blk \<rightharpoonup> byte list" and room :: "'s \<Rightarrow> nat"
    and make :: "'s \<Rightarrow> size_t \<Rightarrow> (AllocErrorType + Pointer \<times> 's) option"
    and release :: "'s \<Rightarrow> Pointer \<Rightarrow> (AllocErrorType + Pointer \<times> 's) option"
    and fill :: "'s \<Rightarrow> Pointer \<Rightarrow> size_t \<Rightarrow> 's option"
  assumes make_room: "ok s \<Longrightarrow> n \<le> room s \<Longrightarrow>
      \<exists>b s' zs. make s n = Some (Inr (Pointer (Some b), s')) \<and> ok s' \<and> b \<notin> dom (live s)
        \<and> length zs = n \<and> live s' = (live s)(b \<mapsto> zs) \<and> room s' = room s - n"
    and make_full: "ok s \<Longrightarrow> room s < n \<Longrightarrow> make s n = Some (Inl NoMemory)"
    and release_live: "ok s \<Longrightarrow> live s b = Some zs \<Longrightarrow>
      \<exists>s'. release s (Pointer (Some b)) = Some (Inr (Pointer None, s')) \<and> ok s'
        \<and> live s' = (live s)(b := None) \<and> room s' = room s + length zs"
    and fill_live: "ok s \<Longrightarrow> live s b = Some zs \<Longrightarrow> n \<le> length zs \<Longrightarrow> n < 2 ^ 31 \<Longrightarrow>
      \<exists>s'. fill s (Pointer (Some b)) n = Some s' \<and> ok s'
        \<and> live s' = (live s)(b \<mapsto> pattern_bytes n @ drop n zs) \<and> room s' = room s"
begin

text \<open>Filling up always ends with the exception, after exactly \<open>room div n\<close> allocations.\<close>

lemma fillUp_loop_ends:
  assumes "ok s" "0 < n" "room s div n < mx" "n < 2 ^ 31"
  shows "\<exists>bs s'. fillUp_loop make fill mx s n out = Some (True, out @ map (Pointer \<circ> Some) bs, s')
    \<and> ok s' \<and> length bs = room s div n \<and> room s' = room s mod n
    \<and> distinct bs \<and> set bs \<inter> dom (live s) = {}
    \<and> live s' = (\<lambda>b. if b \<in> set bs then Some (pattern_bytes n) else live s b)"
  using assms
proof (induction mx arbitrary: s out)
  case 0
  then show ?case by simp
next
  case (Suc mx)
  show ?case
  proof (cases "n \<le> room s")
    case True
    obtain b s1 zs where m: "make s n = Some (Inr (Pointer (Some b), s1))" "ok s1" "b \<notin> dom (live s)"
      "length zs = n" "live s1 = (live s)(b \<mapsto> zs)" "room s1 = room s - n"
      using make_room [OF Suc.prems(1) True] by blast
    obtain s2 where f: "fill s1 (Pointer (Some b)) n = Some s2" "ok s2"
      "live s2 = (live s)(b \<mapsto> pattern_bytes n)" "room s2 = room s - n"
      using fill_live [OF m(2), of b zs n] m Suc.prems(4) by auto
    have q: "room s div n = Suc (room s2 div n)" "room s mod n = room s2 mod n"
      using Suc.prems(2) True f(4) by (simp_all add: le_div_geq le_mod_geq)
    have lt: "room s2 div n < mx" using q(1) Suc.prems(3) by simp
    obtain bs s' where r: "fillUp_loop make fill mx s2 n (out @ [Pointer (Some b)])
        = Some (True, (out @ [Pointer (Some b)]) @ map (Pointer \<circ> Some) bs, s')"
      "ok s'" "length bs = room s2 div n" "room s' = room s2 mod n" "distinct bs"
      "set bs \<inter> dom (live s2) = {}"
      "live s' = (\<lambda>c. if c \<in> set bs then Some (pattern_bytes n) else live s2 c)"
      using Suc.IH [OF f(2) Suc.prems(2) lt Suc.prems(4), of "out @ [Pointer (Some b)]"] by blast
    have "live s' = (\<lambda>c. if c \<in> set (b # bs) then Some (pattern_bytes n) else live s c)"
      unfolding r(7) f(3) by (auto simp: fun_eq_iff)
    then show ?thesis using m r f q by (intro exI [of _ "b # bs"] exI [of _ s']) auto
  next
    case False
    then show ?thesis using make_full [OF Suc.prems(1), of n] Suc.prems by (intro exI [of _ "[]"]) auto
  qed
qed

text \<open>Room that was there before a block was made and released is there afterwards.\<close>

lemma make_release:
  assumes "ok s" "n \<le> room s"
  shows "\<exists>p s1 s2. make s n = Some (Inr (p, s1)) \<and> release s1 p = Some (Inr (Pointer None, s2))
    \<and> ok s2 \<and> live s2 = live s \<and> room s2 = room s"
proof -
  obtain b s1 zs where m: "make s n = Some (Inr (Pointer (Some b), s1))" "ok s1" "b \<notin> dom (live s)"
      "length zs = n" "live s1 = (live s)(b \<mapsto> zs)" "room s1 = room s - n"
    using make_room [OF assms] by blast
  moreover obtain s2 where "release s1 (Pointer (Some b)) = Some (Inr (Pointer None, s2))" "ok s2"
      "live s2 = (live s1)(b := None)" "room s2 = room s1 + length zs"
    using release_live [OF m(2), of b zs] m(5) by auto
  moreover have "(live s)(b := None) = live s" using m(3) by (auto simp: fun_eq_iff dom_def)
  ultimately show ?thesis using assms(2) by auto
qed

end

interpretation arena: block_store alloc_inv contents size_free_memory alloc free writeTo
proof
  fix s n assume "alloc_inv s" "n \<le> size_free_memory s"
  then show "\<exists>b s' zs. alloc s n = Some (Inr (Pointer (Some b), s')) \<and> alloc_inv s' \<and> b \<notin> dom (contents s)
      \<and> length zs = n \<and> contents s' = (contents s)(b \<mapsto> zs) \<and> size_free_memory s' = size_free_memory s - n"
    using alloc_ok by metis
next
  fix s n assume "alloc_inv s" "size_free_memory s < n"
  then show "alloc s n = Some (Inl NoMemory)" by (simp add: alloc_def)
next
  fix s b zs assume "alloc_inv s" "contents s b = Some zs"
  then show "\<exists>s'. free s (Pointer (Some b)) = Some (Inr (Pointer None, s')) \<and> alloc_inv s'
      \<and> contents s' = (contents s)(b := None) \<and> size_free_memory s' = size_free_memory s + length zs"
    using free_ok by metis
next
  fix s b zs and n :: nat assume "alloc_inv s" "contents s b = Some zs" "n \<le> length zs" "n < 2 ^ 31"
  then show "\<exists>s'. writeTo s (Pointer (Some b)) n = Some s' \<and> alloc_inv s'
      \<and> contents s' = (contents s)(b \<mapsto> pattern_bytes n @ drop n zs)
      \<and> size_free_memory s' = size_free_memory s"
    using writeTo_ok by metis
qed

section \<open>Refinement to a store of byte lists\<close>

text \<open>
  What a client can do: \<open>Op_write\<close> stores a byte through \<open>get\<close>, inside the block. \<open>exec\<close>
  performs it on the allocator; the pointers that \<open>alloc\<close> returns are the live blocks.
\<close>

datatype client_op = Op_alloc size_t | Op_free blk | Op_realloc blk size_t | Op_defrag
  | Op_write blk nat byte

definition drop_pointer :: "(AllocErrorType + Pointer \<times> Allocator) option \<Rightarrow> (AllocErrorType + Allocator) option" where
  "drop_pointer r = map_option (map_sum id snd) r"

fun exec :: "Allocator \<Rightarrow> client_op \<Rightarrow> (AllocErrorType + Allocator) option" where
  "exec a (Op_alloc n) = drop_pointer (alloc a n)"
| "exec a (Op_free b) = drop_pointer (free a (Pointer (Some b)))"
| "exec a (Op_realloc b n) = drop_pointer (realloc a (Pointer (Some b)) n)"
| "exec a Op_defrag = map_option Inr (defrag a)"
| "exec a (Op_write b i v) = do {
     q \<leftarrow> get a (Pointer (Some b));
     q \<leftarrow> q;
     map_option Inr (write_byte a (q + i) v)
   }"

text \<open>The client's obligations: only live blocks, only bytes inside them.\<close>

fun allowed :: "(blk \<rightharpoonup> byte list) \<Rightarrow> client_op \<Rightarrow> bool" where
  "allowed H (Op_alloc n) \<longleftrightarrow> n < SZ"
| "allowed H (Op_free b) \<longleftrightarrow> H b \<noteq> None"
| "allowed H (Op_realloc b n) \<longleftrightarrow> n < SZ \<and> H b \<noteq> None"
| "allowed H Op_defrag \<longleftrightarrow> True"
| "allowed H (Op_write b i v) \<longleftrightarrow> (case H b of None \<Rightarrow> False | Some zs \<Rightarrow> i < length zs)"

text \<open>
  The abstract store: a map from names to byte lists with \<open>avail\<close> bytes left. Names of new
  blocks and the bytes of new memory are not determined; an operation fails exactly when the
  bytes it needs are more than \<open>avail\<close>, however they are scattered.
\<close>

inductive spec_step ::
  "nat \<Rightarrow> (blk \<rightharpoonup> byte list) \<Rightarrow> client_op \<Rightarrow> AllocErrorType + (nat \<times> (blk \<rightharpoonup> byte list)) \<Rightarrow> bool"
  for avail H where
  spec_alloc: "n \<le> avail \<Longrightarrow> b \<notin> dom H \<Longrightarrow> length zs = n \<Longrightarrow>
    spec_step avail H (Op_alloc n) (Inr (avail - n, H(b \<mapsto> zs)))"
| spec_alloc_fail: "avail < n \<Longrightarrow> spec_step avail H (Op_alloc n) (Inl NoMemory)"
| spec_free: "H b = Some zs \<Longrightarrow> spec_step avail H (Op_free b) (Inr (avail + length zs, H(b := None)))"
| spec_realloc: "H b = Some zs \<Longrightarrow> n \<le> avail + length zs \<Longrightarrow> length ws = n - length zs \<Longrightarrow>
    spec_step avail H (Op_realloc b n) (Inr (avail + length zs - n, H(b \<mapsto> take n zs @ ws)))"
| spec_realloc_fail: "H b = Some zs \<Longrightarrow> avail + length zs < n \<Longrightarrow>
    spec_step avail H (Op_realloc b n) (Inl NoMemory)"
| spec_defrag: "spec_step avail H Op_defrag (Inr (avail, H))"
| spec_write: "H b = Some zs \<Longrightarrow> i < length zs \<Longrightarrow>
    spec_step avail H (Op_write b i v) (Inr (avail, H(b \<mapsto> zs[i := v])))"

inductive_cases spec_allocE: "spec_step avail H (Op_alloc n) r"
inductive_cases spec_freeE: "spec_step avail H (Op_free b) r"
inductive_cases spec_reallocE: "spec_step avail H (Op_realloc b n) r"

definition abs_store :: "Allocator \<Rightarrow> nat \<times> (blk \<rightharpoonup> byte list)" where
  "abs_store a = (size_free_memory a, contents a)"

definition refines :: "Allocator \<Rightarrow> client_op \<Rightarrow> AllocErrorType + Allocator \<Rightarrow> bool" where
  "refines a op r \<longleftrightarrow> spec_step (size_free_memory a) (contents a) op (map_sum id abs_store r)
     \<and> (\<forall>a'. r = Inr a' \<longrightarrow> alloc_inv a' \<and> same_arena a a')"

lemma refines_Inr:
  "refines a op (Inr a') \<longleftrightarrow> spec_step (size_free_memory a) (contents a) op (Inr (size_free_memory a', contents a'))
     \<and> alloc_inv a' \<and> same_arena a a'"
  by (simp add: refines_def abs_store_def)

lemma exec_alloc:
  assumes "alloc_inv a"
  shows "\<exists>r. exec a (Op_alloc n) = Some r \<and> refines a (Op_alloc n) r"
proof (cases "n \<le> size_free_memory a")
  case True
  obtain b a' zs where r: "alloc a n = Some (Inr (Pointer (Some b), a'))" "alloc_inv a'" "same_arena a a'"
    and s: "b \<notin> dom (contents a)" "length zs = n" "contents a' = (contents a)(b \<mapsto> zs)"
      "size_free_memory a' = size_free_memory a - n"
    using alloc_ok [OF assms True] by metis
  have "refines a (Op_alloc n) (Inr a')"
    unfolding refines_Inr s(3,4) using spec_alloc [OF True s(1,2)] r by simp
  then show ?thesis using r by (simp add: drop_pointer_def)
next
  case False
  then show ?thesis by (simp add: drop_pointer_def alloc_def refines_def spec_alloc_fail)
qed

lemma exec_free:
  assumes "alloc_inv a" "contents a b = Some zs"
  shows "\<exists>r. exec a (Op_free b) = Some r \<and> refines a (Op_free b) r"
proof -
  obtain a' where r: "free a (Pointer (Some b)) = Some (Inr (Pointer None, a'))" "alloc_inv a'" "same_arena a a'"
    and s: "contents a' = (contents a)(b := None)" "size_free_memory a' = size_free_memory a + length zs"
    using free_ok [OF assms] by metis
  have "refines a (Op_free b) (Inr a')"
    unfolding refines_Inr s using spec_free [of "contents a", OF assms(2)] r by simp
  then show ?thesis using r by (simp add: drop_pointer_def)
qed

lemma exec_defrag: "alloc_inv a \<Longrightarrow> \<exists>r. exec a Op_defrag = Some r \<and> refines a Op_defrag r"
  using defrag_ok [of a] spec_defrag by (auto simp: refines_Inr)

lemma exec_write:
  assumes inv: "alloc_inv a" and b: "contents a b = Some zs" and i: "i < length zs"
  shows "\<exists>r. exec a (Op_write b i v) = Some r \<and> refines a (Op_write b i v) r"
proof -
  obtain m where h: "heap a b = Some m" and u: "\<not> mb_free m" and mz: "mb_size m = length zs"
    and zs: "zs = rd_bytes (mem a) (mb_ptr m) (mb_size m)"
    using inv b by (rule contents_block)
  let ?m = "(mem a)(mb_ptr m + i := v)"
  have "exec a (Op_write b i v) = Some (Inr (a\<lparr>mem := ?m\<rparr>))"
    using live_range [OF inv h] arena_bounds [OF inv] i mz h by (simp add: get_def write_byte_def)
  moreover have "contents (a\<lparr>mem := ?m\<rparr>) = (contents a)(b \<mapsto> zs[i := v])"
  proof
    fix c
    show "contents (a\<lparr>mem := ?m\<rparr>) c = ((contents a)(b \<mapsto> zs[i := v])) c"
    proof (cases "c = b")
      case True
      have "rd_bytes ?m (mb_ptr m) (mb_size m) = zs[i := v]"
        unfolding zs by (rule nth_equalityI) (auto simp: rd_bytes_def nth_list_update)
      then show ?thesis using True h u by (simp add: contents_mem)
    next
      case False
      have "rd_bytes ?m (mb_ptr k) (mb_size k) = rd_bytes (mem a) (mb_ptr k) (mb_size k)"
        if "heap a c = Some k" for k
        using live_apart [OF inv h that] False i mz by (intro rd_bytes_cong) auto
      then show ?thesis using False by (auto simp: contents_mem contents_def split: option.split)
    qed
  qed
  ultimately show ?thesis using inv spec_write [of "contents a", OF b i, of "size_free_memory a" v]
    by (simp add: refines_Inr same_arena_def)
qed

lemma realloc_full:
  assumes inv: "alloc_inv a" and b: "contents a b = Some zs" and n: "n < SZ"
    and F: "size_free_memory a + length zs < n"
  shows "realloc a (Pointer (Some b)) n = Some (Inl NoMemory)"
proof -
  obtain m where h: "heap a b = Some m" and mz: "mb_size m = length zs"
    using inv b by (rule contents_block)
  have "sz_sub n (length zs) = n - length zs" using F n by (simp add: sz_simps)
  moreover have "size_free_memory a < n - length zs" using F by simp
  ultimately show ?thesis using F by (simp add: realloc_def h realloc_grow_def mz Let_def)
qed

lemma exec_realloc:
  assumes inv: "alloc_inv a" and b: "contents a b = Some zs" and n: "n < SZ"
  shows "\<exists>r. exec a (Op_realloc b n) = Some r \<and> refines a (Op_realloc b n) r"
proof (cases "size_free_memory a + length zs < n")
  case True
  then show ?thesis using realloc_full [OF inv b n] spec_realloc_fail [of "contents a", OF b]
    by (auto simp: drop_pointer_def refines_def)
next
  case False
  have "\<exists>a' ws. realloc a (Pointer (Some b)) n = Some (Inr (Pointer (Some b), a')) \<and> alloc_inv a'
      \<and> same_arena a a' \<and> size_free_memory a' = size_free_memory a + length zs - n
      \<and> length ws = n - length zs \<and> contents a' = (contents a)(b \<mapsto> take n zs @ ws)"
  proof (cases n "length zs" rule: linorder_cases)
    case less
    then show ?thesis using realloc_shrink_ok [OF inv b] by (auto intro!: exI [of _ "[]"])
  next
    case equal
    obtain m where h: "heap a b = Some m" "mb_size m = length zs" using inv b by (rule contents_block)
    then have "realloc a (Pointer (Some b)) n = Some (Inr (Pointer (Some b), a))"
      using equal by (simp add: realloc_def)
    moreover have "(contents a)(b \<mapsto> zs) = contents a" using b by (simp add: fun_upd_idem)
    ultimately show ?thesis using inv equal by (intro exI [of _ a] exI [of _ "[]"]) simp
  next
    case greater
    then have "n - length zs \<le> size_free_memory a" using False by simp
    then show ?thesis using realloc_grow_ok [OF inv b greater] greater by fastforce
  qed
  then obtain a' ws where r: "realloc a (Pointer (Some b)) n = Some (Inr (Pointer (Some b), a'))"
      "alloc_inv a'" "same_arena a a'"
    and s: "size_free_memory a' = size_free_memory a + length zs - n" "length ws = n - length zs"
      "contents a' = (contents a)(b \<mapsto> take n zs @ ws)" by metis
  have "refines a (Op_realloc b n) (Inr a')"
    unfolding refines_Inr s(1,3) using spec_realloc [of "contents a", OF b _ s(2)] r False by simp
  then show ?thesis using r by (simp add: drop_pointer_def)
qed

lemma exec_refines:
  assumes "alloc_inv a" "allowed (contents a) op"
  shows "\<exists>r. exec a op = Some r \<and> refines a op r"
  using assms exec_alloc exec_free exec_realloc exec_defrag exec_write
  by (cases op) (auto split: option.splits)

text \<open>The states a client reaches by allowed operations; a failed one leaves the state.\<close>

inductive reachable :: "addr \<Rightarrow> size_t \<Rightarrow> memory \<Rightarrow> Allocator \<Rightarrow> bool" for base sz m where
  reach_init: "reachable base sz m (Allocator_init base sz m)"
| reach_step: "reachable base sz m a \<Longrightarrow> allowed (contents a) op \<Longrightarrow> exec a op = Some (Inr a') \<Longrightarrow>
    reachable base sz m a'"

lemma reachable_inv:
  assumes "reachable base sz m a" "base + sz < SZ"
  shows "alloc_inv a \<and> same_arena (Allocator_init base sz m) a"
  using assms(1)
proof induction
  case reach_init
  then show ?case using Allocator_init_inv [OF assms(2)] by simp
next
  case (reach_step a op a')
  then have "refines a op (Inr a')" using exec_refines [of a op] by auto
  then show ?case using reach_step.IH by (simp add: refines_Inr same_arena_def)
qed

section \<open>Properties\<close>

lemma contents_after:
  assumes "alloc_inv a" "allowed (contents a) op" "exec a op = Some (Inr a')"
  shows "spec_step (size_free_memory a) (contents a) op (Inr (size_free_memory a', contents a'))"
    "alloc_inv a'"
  using exec_refines [OF assms(1,2)] assms(3) by (auto simp: refines_Inr)

lemma spec_keeps_prefix:
  assumes "spec_step avail H op (Inr (avail', H'))" "H b = Some zs" "n \<le> length zs"
    and "op \<noteq> Op_free b" "\<And>i v. op = Op_write b i v \<Longrightarrow> n \<le> i" "\<And>k. op = Op_realloc b k \<Longrightarrow> n \<le> k"
  shows "\<exists>zs'. H' b = Some zs' \<and> n \<le> length zs' \<and> take n zs' = take n zs"
  using assms(1)
proof cases
  case (spec_realloc c ys k ws)
  show ?thesis
  proof (cases "c = b")
    case True
    then have "n \<le> k" "ys = zs" using assms spec_realloc by auto
    then show ?thesis using assms(3) spec_realloc True by (auto simp: min_def)
  qed (use assms(2,3) spec_realloc in auto)
next
  case (spec_write c ys i v)
  then show ?thesis using assms by (cases "c = b") auto
qed (use assms in auto)

text \<open>Property C1. Every allowed operation of a client in every reachable state runs to an end
  without undefined behaviour, and its effect is the one of the abstract store of byte lists.\<close>

theorem allocator_refines_store:
  assumes "reachable base sz m a" "base + sz < SZ" "allowed (contents a) op"
  shows "\<exists>r. exec a op = Some r
    \<and> spec_step (size_free_memory a) (contents a) op (map_sum id abs_store r)
    \<and> (\<forall>a'. r = Inr a' \<longrightarrow> reachable base sz m a')"
  using exec_refines [OF conjunct1 [OF reachable_inv [OF assms(1,2)]] assms(3)]
    reach_step [OF assms(1,3)] by (auto simp: refines_def)

theorem allocator_refines_store_witness:
  "\<exists>r. exec (Allocator_init 4096 100 (\<lambda>_. 0)) (Op_alloc 20) = Some r
    \<and> spec_step (size_free_memory (Allocator_init 4096 100 (\<lambda>_. 0))) (contents (Allocator_init 4096 100 (\<lambda>_. 0)))
        (Op_alloc 20) (map_sum id abs_store r)
    \<and> (\<forall>a'. r = Inr a' \<longrightarrow> reachable 4096 100 (\<lambda>_. 0) a')"
  by (rule allocator_refines_store [OF reach_init]) (simp_all add: SZ_def)

text \<open>Property C8. \<open>realloc\<close> of a live block either reports \<open>NoMemory\<close>, exactly when the missing
  bytes exceed the free ones, or returns with the first bytes of the block kept, all other
  blocks untouched and the free count adjusted; a block that shrinks does not move.\<close>

theorem realloc_keeps_data:
  assumes "alloc_inv a" "contents a b = Some zs" "n < SZ"
  shows "(if size_free_memory a + length zs < n
      then realloc a (Pointer (Some b)) n = Some (Inl NoMemory)
      else \<exists>a' ws. realloc a (Pointer (Some b)) n = Some (Inr (Pointer (Some b), a')) \<and> alloc_inv a'
        \<and> length ws = n - length zs \<and> contents a' = (contents a)(b \<mapsto> take n zs @ ws)
        \<and> size_free_memory a' = size_free_memory a + length zs - n
        \<and> (n \<le> length zs \<longrightarrow> get a' (Pointer (Some b)) = get a (Pointer (Some b))))"
proof (cases "size_free_memory a + length zs < n")
  case True
  then show ?thesis using realloc_full [OF assms] by simp
next
  case False
  show ?thesis
  proof (cases "n < length zs")
    case True
    then show ?thesis using False realloc_shrink_ok [OF assms(1,2) True] by (auto intro!: exI [of _ "[]"])
  next
    case ge: False
    obtain r where r: "exec a (Op_realloc b n) = Some r" "refines a (Op_realloc b n) r"
      using exec_realloc [OF assms] by blast
    show ?thesis
    proof (cases "n = length zs")
      case True
      obtain m where h: "heap a b = Some m" "mb_size m = length zs"
        using assms(1,2) by (rule contents_block)
      moreover have "(contents a)(b \<mapsto> zs) = contents a" using assms(2) by (simp add: fun_upd_idem)
      ultimately show ?thesis using True assms(1) by (simp add: realloc_def)
    next
      case ne: False
      then have "length zs < n" "n - length zs \<le> size_free_memory a" using ge False by simp_all
      then show ?thesis using False realloc_grow_ok [OF assms(1,2)] by fastforce
    qed
  qed
qed

definition demo_arena :: Allocator where
  "demo_arena = Allocator_init 4096 100 (\<lambda>_. 0)"

definition demo_block :: Allocator where
  "demo_block = (case alloc demo_arena 20 of Some (Inr (p, a)) \<Rightarrow> a | _ \<Rightarrow> demo_arena)"

lemma demo_block_ok:
  "alloc_inv demo_block" "contents demo_block 1 = Some (replicate 20 0)" "size_free_memory demo_block = 30"
proof -
  have r: "alloc demo_arena 20 = Some (Inr (Pointer (Some 1), demo_block))" unfolding demo_block_def
    by (simp add: demo_arena_def alloc_def findblock_def alloc_at_def Allocator_init_def new_block_def
        Let_def iter_get_def store_def insert_at_def)
  have "alloc_inv demo_arena" unfolding demo_arena_def by (rule Allocator_init_inv) (simp add: SZ_def)
  from alloc_ok [OF this, of 20] r show "alloc_inv demo_block" "size_free_memory demo_block = 30"
    by (auto simp: demo_arena_def)
  show "contents demo_block 1 = Some (replicate 20 0)" unfolding demo_block_def
    by (simp add: demo_arena_def alloc_def findblock_def alloc_at_def Allocator_init_def new_block_def
        Let_def iter_get_def store_def insert_at_def contents_def rd_bytes_def sz_sub_def SZ_def map_replicate_const)
      (simp add: eval_nat_numeral)
qed

theorem realloc_keeps_data_witness:
  "\<exists>a' ws. realloc demo_block (Pointer (Some 1)) 45 = Some (Inr (Pointer (Some 1), a'))
    \<and> length ws = 25 \<and> contents a' 1 = Some (replicate 20 0 @ ws)"
  using realloc_keeps_data [OF demo_block_ok(1,2), of 45] demo_block_ok(3) by (force simp: SZ_def)

text \<open>Property C18. \<open>alloc\<close> fails exactly when more bytes are asked for than are free in total:
  fragmentation never makes it fail. When it succeeds it returns a block that was not live.\<close>

theorem alloc_fails_only_when_full:
  assumes "alloc_inv a"
  shows "if size_free_memory a < N then alloc a N = Some (Inl NoMemory)
    else \<exists>b a' zs. alloc a N = Some (Inr (Pointer (Some b), a')) \<and> alloc_inv a'
      \<and> b \<notin> dom (contents a) \<and> length zs = N \<and> contents a' = (contents a)(b \<mapsto> zs)"
  using arena.make_room [OF assms, of N] arena.make_full [OF assms, of N] by fastforce

theorem alloc_fails_only_when_full_witness:
  "alloc demo_block 31 = Some (Inl NoMemory)"
  using alloc_fails_only_when_full [OF demo_block_ok(1), of 31] demo_block_ok(3) by simp

text \<open>Property C19. \<open>free\<close> of a live block removes exactly this block, nulls the pointer, gives its
  bytes back and leaves no two free blocks adjacent; \<open>free\<close> of a null pointer is
  \<open>InvalidFree\<close>.\<close>

theorem free_returns_memory:
  assumes "alloc_inv a" "contents a b = Some zs"
  shows "free a (Pointer None) = Some (Inl InvalidFree)
    \<and> (\<exists>a'. free a (Pointer (Some b)) = Some (Inr (Pointer None, a')) \<and> alloc_inv a'
      \<and> coalesced (blocks a') \<and> contents a' = (contents a)(b := None)
      \<and> size_free_memory a' = size_free_memory a + length zs)"
  using free_ok [OF assms] by (auto simp: free_def alloc_inv_def view_inv_def)

theorem free_returns_memory_witness:
  "\<exists>a'. free demo_block (Pointer (Some 1)) = Some (Inr (Pointer None, a')) \<and> size_free_memory a' = 50"
  using free_returns_memory [OF demo_block_ok(1,2)] demo_block_ok(3) by auto

text \<open>Property C15. \<open>defrag\<close> changes half, keeps every live block with its bytes and the blocks'
  order, and leaves all free memory in one block at the end.\<close>

theorem defrag_compacts:
  assumes "alloc_inv a"
  shows "\<exists>a' f m. defrag a = Some a' \<and> alloc_inv a' \<and> contents a' = contents a
    \<and> cur_part a' = other_part a
    \<and> list_blocks a' = filter (\<lambda>b. contents a b \<noteq> None) (list_blocks a) @ [f]
    \<and> heap a' f = Some m \<and> mb_free m \<and> mb_size m = size_free_memory a"
proof -
  have h: "\<exists>m. heap a b = Some m" if "b \<in> set (list_blocks a)" for b
  proof -
    have "b \<in> dom (heap a)" using assms that by (simp add: alloc_inv_def store_wf_def)
    then show ?thesis by auto
  qed
  have "map fst (used (blocks a)) = filter (\<lambda>b. contents a b \<noteq> None) (list_blocks a)"
    unfolding used_def blocks_def filter_map comp_def map_map fst_conv snd_conv map_ident
    using h by (intro filter_cong refl) (fastforce simp: contents_def)
  moreover obtain a' f m where d: "defrag a = Some a'" "alloc_inv a'" "contents a' = contents a" "same_arena a a'"
      "ping_pong a' = (\<not> ping_pong a)" "list_blocks a' = map fst (used (blocks a)) @ [f]"
      "heap a' f = Some m" "mb_free m" "mb_size m = size_free_memory a"
    using defrag_ok [OF assms] by blast
  moreover have "layout a" "layout a'" using assms d(2) by (simp_all add: alloc_inv_def view_inv_def)
  then have "cur_part a' = other_part a"
    using d(4,5) by (simp add: cur_part_def other_part_def layout_def same_arena_def)
  ultimately show ?thesis by metis
qed

theorem defrag_compacts_witness:
  "\<exists>a'. defrag demo_block = Some a' \<and> contents a' = contents demo_block"
  using defrag_compacts [OF demo_block_ok(1)] by blast

text \<open>Property C20. In every reachable state the live blocks lie in one half of the arena, no two
  of them overlap, and their sizes and the free count add up to the size of the half.\<close>

theorem live_blocks_disjoint:
  assumes "reachable base sz m a" "base + sz < SZ"
  shows "(\<forall>b k. heap a b = Some k \<longrightarrow> base \<le> mb_ptr k \<and> mb_ptr k + mb_size k \<le> base + sz
        \<and> (\<forall>c l. c \<noteq> b \<longrightarrow> heap a c = Some l \<longrightarrow>
            mb_ptr k + mb_size k \<le> mb_ptr l \<or> mb_ptr l + mb_size l \<le> mb_ptr k))
    \<and> (\<Sum>b \<in> dom (contents a). length (the (contents a b))) + size_free_memory a = sz div 2"
proof -
  have i: "alloc_inv a" and s: "same_arena (Allocator_init base sz m) a"
    using reachable_inv [OF assms] by auto
  then have "ptr_memory a = base" "size_memory a = sz" "size_memory_part a = sz div 2"
    by (simp_all add: same_arena_def)
  then show ?thesis
    using capacity [OF i] live_range [OF i] live_apart [OF i] arena_bounds [OF i] by force
qed

theorem live_blocks_disjoint_witness:
  "(\<Sum>b \<in> dom (contents demo_arena). length (the (contents demo_arena b))) + size_free_memory demo_arena = 50"
  unfolding demo_arena_def
  using live_blocks_disjoint [OF reach_init [of 4096 100 "\<lambda>_. 0"]] by (simp add: SZ_def)

text \<open>Property C21. The data a client wrote into a block are read back as long as it does not
  overwrite or free them: over allocations, frees and writes of other blocks, over
  defragmentation and over every \<open>realloc\<close> that keeps the bytes.\<close>

theorem written_data_survive:
  assumes "alloc_inv a" "contents a b = Some zs" "n \<le> length zs" "isDataOk a (Pointer (Some b)) n = Some True"
    and "allowed (contents a) op" "exec a op = Some (Inr a')"
    and "op \<noteq> Op_free b" "\<And>i v. op = Op_write b i v \<Longrightarrow> n \<le> i" "\<And>k. op = Op_realloc b k \<Longrightarrow> n \<le> k"
  shows "isDataOk a' (Pointer (Some b)) n = Some True"
proof -
  note S = contents_after [OF assms(1,5,6)]
  have "\<exists>zs'. contents a' b = Some zs' \<and> n \<le> length zs' \<and> take n zs' = take n zs"
    by (rule spec_keeps_prefix [of _ "contents a", OF S(1) assms(2,3,7)]) (use assms(8,9) in auto)
  then obtain zs' where "contents a' b = Some zs'" "n \<le> length zs'" "take n zs' = take n zs" by blast
  then show ?thesis using assms(4) isDataOk_short [OF assms(4)] isDataOk_iff [OF assms(1,2,3)] isDataOk_iff [OF S(2)] by simp
qed

theorem written_data_survive_witness:
  "\<exists>a a'. writeTo demo_block (Pointer (Some 1)) 20 = Some a \<and> exec a Op_defrag = Some (Inr a')
    \<and> isDataOk a' (Pointer (Some 1)) 20 = Some True"
proof -
  obtain a where a: "writeTo demo_block (Pointer (Some 1)) 20 = Some a" "alloc_inv a"
    "contents a 1 = Some (pattern_bytes 20)"
    using writeTo_ok [OF demo_block_ok(1,2), of 20] by auto
  obtain a' where d: "exec a Op_defrag = Some (Inr a')" using defrag_ok [OF a(2)] by auto
  have "isDataOk a (Pointer (Some 1)) 20 = Some True" using isDataOk_iff [OF a(2,3), of 20] by simp
  then have "isDataOk a' (Pointer (Some 1)) 20 = Some True"
    by (intro written_data_survive [OF a(2,3) _ _ _ d]) simp_all
  then show ?thesis using a(1) d by blast
qed

lemma fillUp_ok:
  assumes "alloc_inv a" "size_memory a \<le> buf_size" "0 < n" "n \<le> 2 * buf_size"
  shows "\<exists>bs a'. fillUp a n out = Some (True, out @ map (Pointer \<circ> Some) bs, a') \<and> alloc_inv a'
    \<and> length bs = size_free_memory a div n \<and> size_free_memory a' = size_free_memory a mod n
    \<and> distinct bs \<and> set bs \<inter> dom (contents a) = {}
    \<and> contents a' = (\<lambda>b. if b \<in> set bs then Some (pattern_bytes n) else contents a b)"
proof -
  have "2 * size_free_memory a \<le> size_memory a"
    using assms(1) view_inv_bounds(2) [of "blocks a" "next_blk a" a]
    by (auto simp: alloc_inv_def view_inv_def layout_def)
  then have f: "4 * size_free_memory a \<le> 2 * buf_size" using assms(2) by simp
  have "size_free_memory a div n < 2 * buf_size div n"
  proof (cases "n \<le> size_free_memory a")
    case True
    have "size_free_memory a div n < Suc (size_free_memory a div n)" by simp
    also have "\<dots> = (size_free_memory a + n) div n" using assms(3) by (simp add: div_add_self2)
    also have "\<dots> \<le> 2 * buf_size div n" using True f by (intro div_le_mono) simp
    finally show ?thesis .
  next
    case False
    then show ?thesis using assms(3,4) by (simp add: div_greater_zero_iff)
  qed
  moreover have "n < 2 ^ 31" using assms(4) by (simp add: buf_size_def)
  ultimately show ?thesis
    using arena.fillUp_loop_ends [OF assms(1,3), of "2 * buf_size div n" out] assms(3) by (simp add: fillUp_def)
qed

text \<open>Property C22. \<open>fillUp\<close> of the tests ends with the \<open>AllocError\<close>, never by its bound, having
  allocated exactly as many blocks as fit, all new and distinct and holding the pattern.\<close>

theorem fillUp_until_full:
  assumes "alloc_inv a" "size_memory a \<le> buf_size" "0 < n" "n \<le> 2 * buf_size"
  shows "\<exists>bs a'. fillUp a n out = Some (True, out @ map (Pointer \<circ> Some) bs, a') \<and> alloc_inv a'
    \<and> length bs = size_free_memory a div n \<and> size_free_memory a' = size_free_memory a mod n
    \<and> distinct bs \<and> set bs \<inter> dom (contents a) = {}
    \<and> contents a' = (\<lambda>b. if b \<in> set bs then Some (pattern_bytes n) else contents a b)"
  by (rule fillUp_ok [OF assms])

theorem fillUp_until_full_witness:
  "\<exists>bs a'. fillUp demo_block 7 [] = Some (True, map (Pointer \<circ> Some) bs, a')
    \<and> length bs = 4 \<and> size_free_memory a' = 2"
proof -
  have "size_memory demo_arena = 100" by (simp add: demo_arena_def)
  moreover have "same_arena demo_arena demo_block" unfolding demo_block_def
    by (simp add: demo_arena_def alloc_def findblock_def alloc_at_def Allocator_init_def new_block_def
        Let_def iter_get_def store_def insert_at_def same_arena_def)
  ultimately have "size_memory demo_block \<le> buf_size" by (simp add: same_arena_def buf_size_def)
  then show ?thesis using fillUp_until_full [OF demo_block_ok(1), of 7 "[]"] demo_block_ok(3)
    by (auto simp: buf_size_def)
qed

end
