(* ===== verification/Alloc_Tests.thy ===== *)
theory Alloc_Tests
  imports Alloc_Client
begin

text \<open>
  The test cases of \<^verbatim>\<open>src/p1/allocator_test.cpp\<close> as client programs of the allocator. The array
  \<open>buf\<close> starts at an arbitrary address and has an arbitrary content. A test ends in \<^term>\<open>Some (Inr True)\<close>
  when all its expectations hold, in \<^term>\<open>Some (Inr False)\<close> when one fails, in \<^const>\<open>Inl\<close> when an
  exception leaves it and in \<^const>\<open>None\<close> when it runs into undefined behaviour.
\<close>

section \<open>Programs with exceptions\<close>

type_synonym 'a run = "(AllocErrorType + 'a) option"

text \<open>A call outside of \<open>try\<close>: an exception ends the test.\<close>

definition calls :: "'a run \<Rightarrow> ('a \<Rightarrow> 'b run) \<Rightarrow> 'b run" where
  "calls r f = do { x \<leftarrow> r; case x of Inl e \<Rightarrow> Some (Inl e) | Inr y \<Rightarrow> f y }"

text \<open>Both kinds of null are 0 in a comparison of addresses.\<close>

definition isValidMemory :: "addr \<Rightarrow> Allocator \<Rightarrow> Pointer \<Rightarrow> size_t \<Rightarrow> bool option" where
  "isValidMemory buf a p allocatedSize = do {
     v \<leftarrow> get a p;
     let v = (case v of None \<Rightarrow> 0 | Some v \<Rightarrow> v);
     Some (v \<ge> buf \<and> v + allocatedSize \<le> buf + buf_size)
   }"

text \<open>\<open>for (Pointer &p: ptr) EXPECT_TRUE(isDataOk(p, size))\<close>, and with \<open>a.free(p)\<close> in each turn.\<close>

fun check_all :: "Pointer list \<Rightarrow> size_t \<Rightarrow> bool \<Rightarrow> Allocator \<Rightarrow> bool option" where
  "check_all [] sz ok a = Some ok"
| "check_all (p # ptr) sz ok a = do { v \<leftarrow> isDataOk a p sz; check_all ptr sz (ok \<and> v) a }"

fun free_all :: "Pointer list \<Rightarrow> Allocator \<Rightarrow> Allocator run" where
  "free_all [] a = Some (Inr a)"
| "free_all (p # ptr) a = calls (free a p) (\<lambda>(p, a). free_all ptr a)"

fun check_free :: "Pointer list \<Rightarrow> size_t \<Rightarrow> bool \<Rightarrow> Allocator \<Rightarrow> bool run" where
  "check_free [] sz ok a = Some (Inr ok)"
| "check_free (p # ptr) sz ok a = do {
     v \<leftarrow> isDataOk a p sz;
     calls (free a p) (\<lambda>(p, a). check_free ptr sz (ok \<and> v) a)
   }"

text \<open>\<open>a.free(ptrs[i])\<close> nulls the element.\<close>

definition free_at :: "nat \<Rightarrow> Pointer list \<Rightarrow> Allocator \<Rightarrow> (Pointer list \<times> Allocator) run" where
  "free_at i ptrs a = do {
     p \<leftarrow> iter_get ptrs i;
     calls (free a p) (\<lambda>(p, a). Some (Inr (ptrs[i := p], a)))
   }"

section \<open>The tests of allocation\<close>

definition AllocInRange :: "addr \<Rightarrow> memory \<Rightarrow> bool run" where
  "AllocInRange buf m = (
     let a = Allocator_init buf buf_size m;
         sz = 500 in
     calls (alloc a sz) (\<lambda>(p, a). do {
       ok \<leftarrow> isValidMemory buf a p sz;
       calls (free a p) (\<lambda>(p, a). Some (Inr ok))
     }))"

fun write_loop :: "addr \<Rightarrow> nat \<Rightarrow> size_t \<Rightarrow> Pointer list \<Rightarrow> bool \<Rightarrow> Allocator \<Rightarrow> (Pointer list \<times> bool \<times> Allocator) run" where
  "write_loop buf 0 sz ptr ok a = Some (Inr (ptr, ok, a))"
| "write_loop buf (Suc i) sz ptr ok a =
     calls (alloc a sz) (\<lambda>(p, a). do {
       v \<leftarrow> isValidMemory buf a p sz;
       a \<leftarrow> writeTo a p sz;
       write_loop buf i sz (ptr @ [p]) (ok \<and> v) a
     })"

definition AllocReadWrite :: "addr \<Rightarrow> memory \<Rightarrow> bool run" where
  "AllocReadWrite buf m =
     calls (write_loop buf 20 300 [] True (Allocator_init buf buf_size m)) (\<lambda>(ptr, ok, a). do {
       ok \<leftarrow> check_all ptr 300 ok a;
       calls (free_all ptr a) (\<lambda>a. Some (Inr ok))
     })"

text \<open>The loop inside \<open>try\<close> ends with the exception, if there was one.\<close>

fun try_loop :: "nat \<Rightarrow> size_t \<Rightarrow> Pointer list \<Rightarrow> Allocator \<Rightarrow> (AllocErrorType option \<times> Pointer list \<times> Allocator) option" where
  "try_loop 0 sz ptr a = Some (None, ptr, a)"
| "try_loop (Suc i) sz ptr a = do {
     r \<leftarrow> alloc a sz;
     case r of Inl e \<Rightarrow> Some (Some e, ptr, a) | Inr (p, a) \<Rightarrow> try_loop i sz (ptr @ [p]) a
   }"

definition AllocNoMem :: "addr \<Rightarrow> memory \<Rightarrow> bool run" where
  "AllocNoMem buf m = do {
     (e, ptr, a) \<leftarrow> try_loop 6 (buf_size div 5) [] (Allocator_init buf buf_size m);
     let ok = (e = Some NoMemory);
     calls (free_all ptr a) (\<lambda>a. Some (Inr ok))
   }"

text \<open>\<open>ASSERT_TRUE(fillUp(a, size, ptrs))\<close> ends the test when it fails.\<close>

definition filled_up :: "addr \<Rightarrow> memory \<Rightarrow> size_t \<Rightarrow> (Pointer list \<Rightarrow> Allocator \<Rightarrow> bool run) \<Rightarrow> bool run" where
  "filled_up buf m sz body = do {
     (full, ptrs, a) \<leftarrow> fillUp (Allocator_init buf buf_size m) sz [];
     if full then body ptrs a else Some (Inr False)
   }"

definition AllocReuse :: "addr \<Rightarrow> memory \<Rightarrow> bool run" where
  "AllocReuse buf m = filled_up buf m 135 (\<lambda>ptrs a.
     calls (free_at 1 ptrs a) (\<lambda>(ptrs, a). do {
       p \<leftarrow> iter_get ptrs 1;
       v \<leftarrow> get a p;
       let ok = (v = None);
       calls (alloc a 135) (\<lambda>(p, a). do {
         let ptrs = ptrs[1 := p];
         v \<leftarrow> get a p;
         let ok = (ok \<and> v \<noteq> None);
         a \<leftarrow> writeTo a p 135;
         check_free ptrs 135 ok a
       })
     }))"

section \<open>The tests of defragmentation\<close>

text \<open>Three blocks are freed and their pointers erased, from the back.\<close>

definition punch :: "Pointer list \<Rightarrow> Allocator \<Rightarrow> (Pointer list \<times> Allocator) run" where
  "punch ptrs a =
     calls (free_at 1 ptrs a) (\<lambda>(ptrs, a).
     calls (free_at 10 ptrs a) (\<lambda>(ptrs, a).
     calls (free_at 15 ptrs a) (\<lambda>(ptrs, a).
       Some (Inr (erase_at 1 (erase_at 10 (erase_at 15 ptrs)), a)))))"

fun insert_all :: "Pointer list \<Rightarrow> addr option list \<Rightarrow> bool \<Rightarrow> Allocator \<Rightarrow> (addr option list \<times> bool) option" where
  "insert_all [] initialPtrs ok a = Some (initialPtrs, ok)"
| "insert_all (p # ptrs) initialPtrs ok a = do {
     v \<leftarrow> get a p;
     insert_all ptrs (List.insert v initialPtrs) (ok \<and> v \<notin> set initialPtrs) a
   }"

fun moved_loop :: "Pointer list \<Rightarrow> size_t \<Rightarrow> addr option list \<Rightarrow> bool \<Rightarrow> bool \<Rightarrow> Allocator \<Rightarrow> (bool \<times> bool) option" where
  "moved_loop [] sz initialPtrs ok has_moved a = Some (ok, has_moved)"
| "moved_loop (p # ptrs) sz initialPtrs ok has_moved a = do {
     d \<leftarrow> isDataOk a p sz;
     v \<leftarrow> get a p;
     moved_loop ptrs sz initialPtrs (ok \<and> d) (has_moved \<or> v \<notin> set initialPtrs) a
   }"

definition DefragMove :: "addr \<Rightarrow> memory \<Rightarrow> bool run" where
  "DefragMove buf m = filled_up buf m 135 (\<lambda>ptrs a.
     calls (punch ptrs a) (\<lambda>(ptrs, a). do {
       (initialPtrs, ok) \<leftarrow> insert_all ptrs [] True a;
       a \<leftarrow> defrag a;
       (ok, has_moved) \<leftarrow> moved_loop ptrs 135 initialPtrs ok False a;
       check_free ptrs 135 (ok \<and> has_moved) a
     }))"

definition DefragMoveTwice :: "addr \<Rightarrow> memory \<Rightarrow> bool run" where
  "DefragMoveTwice buf m = filled_up buf m 225 (\<lambda>ptrs a.
     calls (free_at 1 ptrs a) (\<lambda>(ptrs, a).
     calls (free_at 10 ptrs a) (\<lambda>(ptrs, a). do {
       let ptrs = erase_at 1 (erase_at 10 ptrs);
       a \<leftarrow> defrag a;
       calls (free_at 15 ptrs a) (\<lambda>(ptrs, a). do {
         let ptrs = erase_at 15 ptrs;
         a \<leftarrow> defrag a;
         calls (alloc a 225) (\<lambda>(p, a). do {
           a \<leftarrow> writeTo a p 225;
           check_free (ptrs @ [p]) 225 True a
         })
       })
     })))"

text \<open>Inside \<open>try\<close> an exception of either call is dropped; none of them has changed the state.\<close>

definition DefragAvailable :: "addr \<Rightarrow> memory \<Rightarrow> bool run" where
  "DefragAvailable buf m = filled_up buf m 135 (\<lambda>ptrs a.
     calls (punch ptrs a) (\<lambda>(ptrs, a). do {
       r \<leftarrow> alloc a (135 * 2);
       a \<leftarrow> (case r of Inl e \<Rightarrow> Some a
              | Inr (p, a) \<Rightarrow> do { r \<leftarrow> free a p; Some (case r of Inl e \<Rightarrow> a | Inr (p, a) \<Rightarrow> a) });
       a \<leftarrow> defrag a;
       calls (alloc a (135 * 2)) (\<lambda>(newPtr, a). do {
         a \<leftarrow> writeTo a newPtr (135 * 2);
         check_free ptrs 135 True a
       })
     }))"

section \<open>The tests of reallocation\<close>

definition ReallocFromEmpty :: "addr \<Rightarrow> memory \<Rightarrow> bool run" where
  "ReallocFromEmpty buf m = (
     let a = Allocator_init buf buf_size m; p = Pointer None in
     calls (alloc a 81) (\<lambda>(p1, a).
     calls (realloc a p 81) (\<lambda>(p, a). do {
       v \<leftarrow> get a p;
       let ok = (v \<noteq> None);
       calls (alloc a 81) (\<lambda>(p2, a). do {
         a \<leftarrow> writeTo a p 81;
         a \<leftarrow> writeTo a p1 81;
         a \<leftarrow> writeTo a p2 81;
         ok \<leftarrow> check_all [p, p1, p2] 81 ok a;
         calls (free_all [p, p1, p2] a) (\<lambda>a. Some (Inr ok))
       })
     })))"

definition ReallocGrowInplace :: "addr \<Rightarrow> memory \<Rightarrow> bool run" where
  "ReallocGrowInplace buf m = (
     let a = Allocator_init buf buf_size m in
     calls (alloc a 135) (\<lambda>(p, a). do {
       a \<leftarrow> writeTo a p 135;
       ptr \<leftarrow> get a p;
       calls (realloc a p (135 * 2)) (\<lambda>(p, a). do {
         v \<leftarrow> get a p;
         let ok = (v = ptr);
         ok \<leftarrow> check_all [p] 135 ok a;
         calls (alloc a 135) (\<lambda>(p2, a). do {
           a \<leftarrow> writeTo a p (135 * 2);
           a \<leftarrow> writeTo a p2 135;
           ok \<leftarrow> check_all [p] (135 * 2) ok a;
           ok \<leftarrow> check_all [p2] 135 ok a;
           calls (free_all [p, p2] a) (\<lambda>a. Some (Inr ok))
         })
       })
     }))"

definition ReallocShrink :: "addr \<Rightarrow> memory \<Rightarrow> bool run" where
  "ReallocShrink buf m = (
     let a = Allocator_init buf buf_size m in
     calls (alloc a 135) (\<lambda>(p, a). do {
       a \<leftarrow> writeTo a p 135;
       ptr \<leftarrow> get a p;
       calls (realloc a p (135 div 2)) (\<lambda>(p, a). do {
         v \<leftarrow> get a p;
         let ok = (v = ptr);
         calls (alloc a 135) (\<lambda>(p2, a). do {
           a \<leftarrow> writeTo a p2 135;
           ok \<leftarrow> check_all [p] (135 div 2) ok a;
           ok \<leftarrow> check_all [p2] 135 ok a;
           calls (free_all [p, p2] a) (\<lambda>a. Some (Inr ok))
         })
       })
     }))"

text \<open>The comparison with the old address only prints a warning.\<close>

definition ReallocGrow :: "addr \<Rightarrow> memory \<Rightarrow> bool run" where
  "ReallocGrow buf m = (
     let a = Allocator_init buf buf_size m in
     calls (alloc a 135) (\<lambda>(p, a).
     calls (alloc a 135) (\<lambda>(p2, a). do {
       a \<leftarrow> writeTo a p 135;
       a \<leftarrow> writeTo a p2 135;
       calls (realloc a p (135 * 2)) (\<lambda>(p, a). do {
         ok \<leftarrow> check_all [p] 135 True a;
         a \<leftarrow> writeTo a p (135 * 2);
         ok \<leftarrow> check_all [p] (135 * 2) ok a;
         ok \<leftarrow> check_all [p2] 135 ok a;
         calls (free_all [p, p2] a) (\<lambda>a. Some (Inr ok))
       })
     })))"
section \<open>Rules for programs with exceptions\<close>

text \<open>\<open>ends r Q\<close>: the program returns, without exception, a value with \<open>Q\<close>.\<close>

definition ends :: "'a run \<Rightarrow> ('a \<Rightarrow> bool) \<Rightarrow> bool" where
  "ends r Q \<longleftrightarrow> (\<exists>x. r = Some (Inr x) \<and> Q x)"

named_theorems run_rules "rules that execute one call of a test"

lemma ends_Some [simp]: "ends (Some (Inr x)) Q = Q x"
  by (simp add: ends_def)

lemma ends_calls [run_rules]: "ends r (\<lambda>x. ends (f x) Q) \<Longrightarrow> ends (calls r f) Q"
  by (auto simp: ends_def calls_def)

lemma ends_bind: "r = Some x \<Longrightarrow> ends (f x) Q \<Longrightarrow> ends (r \<bind> f) Q"
  by simp

text \<open>The allocator works on the array \<open>buf\<close>.\<close>

definition arena_at :: "addr \<Rightarrow> Allocator \<Rightarrow> bool" where
  "arena_at buf a \<longleftrightarrow> ptr_memory a = buf \<and> size_memory a = buf_size \<and> size_memory_part a = buf_size div 2"

lemma arena_at_same: "same_arena a a' \<Longrightarrow> arena_at buf a' = arena_at buf a"
  by (simp add: same_arena_def arena_at_def)

lemma start_state:
  assumes "buf + buf_size < SZ"
  shows "alloc_inv (Allocator_init buf buf_size m)" "contents (Allocator_init buf buf_size m) = Map.empty"
    "arena_at buf (Allocator_init buf buf_size m)" "buf_size div 2 = 32768"
  using Allocator_init_inv [OF assms] contents_init by (simp_all add: arena_at_def buf_size_def)

lemma ends_alloc [run_rules]:
  assumes "alloc_inv a" "n \<le> size_free_memory a"
    and "\<And>b zs a'. alloc_inv a' \<Longrightarrow> (\<forall>buf. arena_at buf a' = arena_at buf a) \<Longrightarrow> b \<notin> dom (contents a) \<Longrightarrow> length zs = n
      \<Longrightarrow> contents a' = (contents a)(b \<mapsto> zs) \<Longrightarrow> size_free_memory a' = size_free_memory a - n
      \<Longrightarrow> Q (Pointer (Some b), a')"
  shows "ends (alloc a n) Q"
proof -
  obtain b a' zs where "alloc a n = Some (Inr (Pointer (Some b), a'))" "alloc_inv a'" "same_arena a a'"
    "b \<notin> dom (contents a)" "length zs = n" "contents a' = (contents a)(b \<mapsto> zs)"
    "size_free_memory a' = size_free_memory a - n"
    using alloc_ok [OF assms(1,2)] by metis
  then show ?thesis using assms(3) arena_at_same by (auto simp: ends_def)
qed

lemma ends_free [run_rules]:
  assumes "alloc_inv a" "contents a b \<noteq> None"
    and "\<And>a'. alloc_inv a' \<Longrightarrow> (\<forall>buf. arena_at buf a' = arena_at buf a) \<Longrightarrow> contents a' = (contents a)(b := None)
      \<Longrightarrow> size_free_memory a' = size_free_memory a + length (the (contents a b)) \<Longrightarrow> Q (Pointer None, a')"
  shows "ends (free a (Pointer (Some b))) Q"
proof -
  obtain a' where "free a (Pointer (Some b)) = Some (Inr (Pointer None, a'))" "alloc_inv a'" "same_arena a a'"
    "contents a' = (contents a)(b := None)" "size_free_memory a' = size_free_memory a + length (the (contents a b))"
    using free_ok [OF assms(1)] assms(2) by (metis option.collapse)
  then show ?thesis using assms(3) arena_at_same by (auto simp: ends_def)
qed

lemma ends_writeTo [run_rules]:
  assumes "alloc_inv a" "contents a b \<noteq> None" "n \<le> length (the (contents a b))" "n < 2 ^ 31"
    and "\<And>a'. alloc_inv a' \<Longrightarrow> (\<forall>buf. arena_at buf a' = arena_at buf a) \<Longrightarrow> contents a' = (contents a)(b \<mapsto> pattern_bytes n @ drop n (the (contents a b)))
      \<Longrightarrow> size_free_memory a' = size_free_memory a \<Longrightarrow> ends (f a') Q"
  shows "ends (writeTo a (Pointer (Some b)) n \<bind> f) Q"
  using writeTo_ok [OF assms(1), of b "the (contents a b)" n] assms(2-) arena_at_same by fastforce

lemma ends_defrag [run_rules]:
  assumes "alloc_inv a"
    and "\<And>a'. alloc_inv a' \<Longrightarrow> (\<forall>buf. arena_at buf a' = arena_at buf a) \<Longrightarrow> contents a' = contents a
      \<Longrightarrow> size_free_memory a' = size_free_memory a \<Longrightarrow> ping_pong a' = (\<not> ping_pong a) \<Longrightarrow> ends (f a') Q"
  shows "ends (defrag a \<bind> f) Q"
  using defrag_ok [OF assms(1)] assms(2) arena_at_same by fastforce

lemma ends_data [run_rules]:
  assumes "alloc_inv a" "contents a b \<noteq> None" "n \<le> length (the (contents a b))"
    and "take n (the (contents a b)) = pattern_bytes n" "n < 2 ^ 31" "ends (f True) Q"
  shows "ends (isDataOk a (Pointer (Some b)) n \<bind> f) Q"
  using isDataOk_iff [OF assms(1), of b "the (contents a b)" n] assms(2-) by simp

lemma get_live:
  assumes "alloc_inv a" "contents a b = Some zs"
  obtains v where "get a (Pointer (Some b)) = Some (Some v)" "ptr_memory a \<le> v"
    "v + length zs \<le> ptr_memory a + size_memory a"
proof -
  obtain m where m: "heap a b = Some m" "mb_size m = length zs" using assms by (rule contents_block)
  then show thesis using live_range [OF assms(1) m(1)] arena_bounds [OF assms(1)]
    by (intro that [of "mb_ptr m"]) (auto simp: get_def)
qed

lemma ends_get [run_rules]:
  assumes "alloc_inv a" "contents a b \<noteq> None"
    and "\<And>v. get a (Pointer (Some b)) = Some (Some v) \<Longrightarrow> ends (f (Some v)) Q"
  shows "ends (get a (Pointer (Some b)) \<bind> f) Q"
  using get_live [OF assms(1), of b "the (contents a b)"] assms(2,3) by (metis bind.bind_lunit option.collapse)

lemma ends_valid [run_rules]:
  assumes "alloc_inv a" "contents a b \<noteq> None" "arena_at buf a" "n \<le> length (the (contents a b))"
    and "ends (f True) Q"
  shows "ends (isValidMemory buf a (Pointer (Some b)) n \<bind> f) Q"
proof (rule get_live [OF assms(1), of b "the (contents a b)"])
  fix v assume "get a (Pointer (Some b)) = Some (Some v)" "ptr_memory a \<le> v"
    "v + length (the (contents a b)) \<le> ptr_memory a + size_memory a"
  then show ?thesis using assms(3-5) by (simp add: isValidMemory_def arena_at_def)
qed (use assms(2) in simp)

lemma ends_realloc_grow:
  assumes "alloc_inv a" "contents a b \<noteq> None" "zs = the (contents a b)" "length zs < n" "n - length zs \<le> size_free_memory a"
    and "\<And>a' ws. realloc a (Pointer (Some b)) n = Some (Inr (Pointer (Some b), a')) \<Longrightarrow> alloc_inv a'
      \<Longrightarrow> (\<forall>buf. arena_at buf a' = arena_at buf a) \<Longrightarrow> length ws = n - length zs
      \<Longrightarrow> contents a' = (contents a)(b \<mapsto> zs @ ws) \<Longrightarrow> size_free_memory a' = size_free_memory a - (n - length zs)
      \<Longrightarrow> Q (Pointer (Some b), a')"
  shows "ends (realloc a (Pointer (Some b)) n) Q"
  using realloc_grow_ok [OF assms(1) _ assms(4,5), of b] assms(2,3,6) arena_at_same unfolding ends_def by auto

lemma ends_realloc_shrink:
  assumes "alloc_inv a" "contents a b \<noteq> None" "zs = the (contents a b)" "n < length zs"
    and "\<And>a'. alloc_inv a' \<Longrightarrow> (\<forall>buf. arena_at buf a' = arena_at buf a) \<Longrightarrow> contents a' = (contents a)(b \<mapsto> take n zs)
      \<Longrightarrow> size_free_memory a' = size_free_memory a + (length zs - n)
      \<Longrightarrow> get a' (Pointer (Some b)) = get a (Pointer (Some b)) \<Longrightarrow> Q (Pointer (Some b), a')"
  shows "ends (realloc a (Pointer (Some b)) n) Q"
  using realloc_shrink_ok [OF assms(1) _ assms(4), of b] assms(2,3,5) arena_at_same unfolding ends_def by auto

lemma take_pattern: "k \<le> n \<Longrightarrow> take k (pattern_bytes n) = pattern_bytes k"
  by (simp add: pattern_bytes_def take_map)
section \<open>The tests pass\<close>

lemmas test_simps = start_state realloc_def take_pattern

lemma AllocInRange_passes:
  assumes "buf + buf_size < SZ"
  shows "ends (AllocInRange buf m) (\<lambda>ok. ok)"
  unfolding AllocInRange_def Let_def using assms
  by (auto intro!: run_rules simp: test_simps)

lemma ReallocFromEmpty_passes:
  assumes "buf + buf_size < SZ"
  shows "ends (ReallocFromEmpty buf m) (\<lambda>ok. ok)"
  unfolding ReallocFromEmpty_def Let_def using assms
  by (auto intro!: run_rules simp: test_simps split: if_splits)

lemma ReallocGrow_passes:
  assumes "buf + buf_size < SZ"
  shows "ends (ReallocGrow buf m) (\<lambda>ok. ok)"
  unfolding ReallocGrow_def Let_def using assms
  by (auto intro!: run_rules ends_realloc_grow simp: start_state take_pattern split: if_splits)

lemma ReallocShrink_passes:
  assumes "buf + buf_size < SZ"
  shows "ends (ReallocShrink buf m) (\<lambda>ok. ok)"
  unfolding ReallocShrink_def Let_def using assms
  by (auto intro!: run_rules ends_realloc_shrink simp: start_state take_pattern split: if_splits)
section \<open>Vectors of pointers\<close>

abbreviation pointers :: "blk list \<Rightarrow> Pointer list" where
  "pointers bs \<equiv> map (\<lambda>b. Pointer (Some b)) bs"

text \<open>The blocks are live, different and hold the pattern of the tests.\<close>

definition holds :: "nat \<Rightarrow> blk list \<Rightarrow> Allocator \<Rightarrow> bool" where
  "holds n bs a \<longleftrightarrow> n < 2 ^ 31 \<and> alloc_inv a \<and> distinct bs \<and> (\<forall>b \<in> set bs. contents a b = Some (pattern_bytes n))"

lemma ends_mono: "ends r P \<Longrightarrow> (\<And>x. P x \<Longrightarrow> Q x) \<Longrightarrow> ends r Q"
  by (auto simp: ends_def)

lemma check_all_holds: "holds n bs a \<Longrightarrow> check_all (pointers bs) n ok a = Some ok"
proof (induction bs arbitrary: ok)
  case (Cons b bs)
  then have "isDataOk a (Pointer (Some b)) n = Some True" "holds n bs a"
    using isDataOk_iff [of a b "pattern_bytes n" n] by (simp_all add: holds_def)
  then show ?case using Cons.IH by simp
qed simp

lemma free_all_ends:
  "alloc_inv a \<Longrightarrow> distinct bs \<Longrightarrow> \<forall>b \<in> set bs. contents a b \<noteq> None \<Longrightarrow> ends (free_all (pointers bs) a) alloc_inv"
proof (induction bs arbitrary: a)
  case (Cons b bs)
  have "ends (free a (Pointer (Some b))) (\<lambda>(p, a). ends (free_all (pointers bs) a) alloc_inv)"
  proof (rule ends_free [OF Cons.prems(1)])
    fix a' assume "alloc_inv a'" "contents a' = (contents a)(b := None)"
    then have "ends (free_all (pointers bs) a') alloc_inv" using Cons.prems by (intro Cons.IH) auto
    then show "case (Pointer None, a') of (p, a) \<Rightarrow> ends (free_all (pointers bs) a) alloc_inv" by simp
  qed (use Cons.prems in simp)
  then show ?case by (auto intro: ends_calls simp: case_prod_unfold)
qed simp

lemma check_free_ends:
  "holds n bs a \<Longrightarrow> ends (check_free (pointers bs) n ok a) (\<lambda>v. v = ok)"
proof (induction bs arbitrary: a ok)
  case (Cons b bs)
  have h: "alloc_inv a" "contents a b = Some (pattern_bytes n)" "\<forall>c \<in> set bs. contents a c = Some (pattern_bytes n) \<and> c \<noteq> b"
    "distinct bs" using Cons.prems by (auto simp: holds_def)
  have "ends (free a (Pointer (Some b))) (\<lambda>(p, a). ends (check_free (pointers bs) n ok a) (\<lambda>v. v = ok))"
  proof (rule ends_free [OF h(1)])
    fix a' assume "alloc_inv a'" "contents a' = (contents a)(b := None)"
    then have "holds n bs a'" using h Cons.prems by (simp add: holds_def)
    then show "case (Pointer None, a') of (p, a) \<Rightarrow> ends (check_free (pointers bs) n ok a) (\<lambda>v. v = ok)"
      using Cons.IH by simp
  qed (use h in simp)
  then show ?case using isDataOk_iff [OF h(1,2), of n] Cons.prems by (auto intro: ends_calls simp: case_prod_unfold holds_def)
qed simp

declare check_free.simps(2) [simp del]

lemma write_loop_ends:
  assumes "holds n bs a" "arena_at buf a" "i * n \<le> size_free_memory a"
  shows "ends (write_loop buf i n (pointers bs) True a) (\<lambda>(ptr, ok, a'). ok \<and> (\<exists>cs. ptr = pointers cs \<and> holds n cs a'))"
  using assms
proof (induction i arbitrary: bs a)
  case (Suc i)
  have inv: "alloc_inv a" using Suc.prems by (simp add: holds_def)
  show ?case
  proof (simp only: write_loop.simps, intro ends_calls ends_alloc [OF inv], goal_cases)
    case (2 b zs a')
    note A = 2
    show ?case unfolding prod.case
    proof (rule ends_valid [OF A(1)])
      show "ends (writeTo a' (Pointer (Some b)) n \<bind>
         (\<lambda>a. write_loop buf i n (pointers bs @ [Pointer (Some b)]) (True \<and> True) a)) (\<lambda>(ptr, ok, a'). ok \<and> (\<exists>cs. ptr = pointers cs \<and> holds n cs a'))"
      proof (rule ends_writeTo [OF A(1)])
        fix a2 assume a2: "alloc_inv a2" "\<forall>buf. arena_at buf a2 = arena_at buf a'" "size_free_memory a2 = size_free_memory a'"
          "contents a2 = (contents a')(b \<mapsto> pattern_bytes n @ drop n (the (contents a' b)))"
        have "b \<notin> set bs" using A(3) Suc.prems(1) by (auto simp: holds_def)
        then have "holds n (bs @ [b]) a2" using Suc.prems(1) A a2 by (auto simp: holds_def)
        moreover have "arena_at buf a2" "i * n \<le> size_free_memory a2" using Suc.prems(2,3) A a2 by auto
        ultimately show "ends (write_loop buf i n (pointers bs @ [Pointer (Some b)]) (True \<and> True) a2)
            (\<lambda>(ptr, ok, a'). ok \<and> (\<exists>cs. ptr = pointers cs \<and> holds n cs a'))"
          using Suc.IH [of "bs @ [b]" a2] by simp
      qed (use A Suc.prems(1) in \<open>simp_all add: holds_def\<close>)
    qed (use A Suc.prems(2) in simp_all)
  qed (use Suc.prems(3) in simp)
qed auto

lemma try_loop_full:
  assumes "alloc_inv a" "0 < n" "size_free_memory a div n < i" "distinct bs" "\<forall>b \<in> set bs. contents a b \<noteq> None"
  shows "\<exists>cs a'. try_loop i n (pointers bs) a = Some (Some NoMemory, pointers cs, a') \<and> alloc_inv a' \<and> distinct cs
    \<and> (\<forall>b \<in> set cs. contents a' b \<noteq> None)"
  using assms
proof (induction i arbitrary: a bs)
  case (Suc i)
  show ?case
  proof (cases "n \<le> size_free_memory a")
    case True
    obtain b a' zs where A: "alloc a n = Some (Inr (Pointer (Some b), a'))" "alloc_inv a'" "b \<notin> dom (contents a)"
      "contents a' = (contents a)(b \<mapsto> zs)" "size_free_memory a' = size_free_memory a - n"
      using alloc_ok [OF Suc.prems(1) True] by metis
    have "size_free_memory a' div n < i" using Suc.prems(2,3) True A(5) by (simp add: le_div_geq)
    moreover have "distinct (bs @ [b])" "\<forall>c \<in> set (bs @ [b]). contents a' c \<noteq> None" using A(3,4) Suc.prems(4,5) by auto
    ultimately have "\<exists>cs a''. try_loop i n (pointers (bs @ [b])) a' = Some (Some NoMemory, pointers cs, a'') \<and> alloc_inv a''
        \<and> distinct cs \<and> (\<forall>b \<in> set cs. contents a'' b \<noteq> None)"
      using Suc.IH [OF A(2) Suc.prems(2)] by blast
    then show ?thesis using A(1) by simp
  next
    case False
    then have "alloc a n = Some (Inl NoMemory)" by (simp add: alloc_def)
    then show ?thesis using Suc.prems by auto
  qed
qed simp

lemma AllocReadWrite_passes:
  assumes "buf + buf_size < SZ"
  shows "ends (AllocReadWrite buf m) (\<lambda>ok. ok)"
proof -
  have "ends (write_loop buf 20 300 (pointers []) True (Allocator_init buf buf_size m))
    (\<lambda>(ptr, ok, a'). ok \<and> (\<exists>cs. ptr = pointers cs \<and> holds 300 cs a'))"
    by (rule write_loop_ends) (simp_all add: holds_def start_state [OF assms])
  moreover have "ends (check_all ptr 300 ok a \<bind> (\<lambda>ok. calls (free_all ptr a) (\<lambda>a. Some (Inr ok)))) (\<lambda>ok. ok)"
    if "ok" "ptr = pointers cs" "holds 300 cs a" for ptr ok a cs
  proof -
    have "ends (free_all (pointers cs) a) alloc_inv" using that(3) by (intro free_all_ends) (auto simp: holds_def)
    then show ?thesis using that check_all_holds by (auto intro!: ends_calls elim: ends_mono)
  qed
  ultimately show ?thesis unfolding AllocReadWrite_def by (auto intro!: ends_calls elim!: ends_mono)
qed

lemma AllocNoMem_passes:
  assumes "buf + buf_size < SZ"
  shows "ends (AllocNoMem buf m) (\<lambda>ok. ok)"
proof -
  have "\<exists>cs a'. try_loop 6 (buf_size div 5) (pointers []) (Allocator_init buf buf_size m) = Some (Some NoMemory, pointers cs, a')
      \<and> alloc_inv a' \<and> distinct cs \<and> (\<forall>b \<in> set cs. contents a' b \<noteq> None)"
    by (rule try_loop_full) (use start_state [OF assms] in \<open>simp_all add: buf_size_def\<close>)
  then obtain cs a' where r: "try_loop 6 (buf_size div 5) [] (Allocator_init buf buf_size m) = Some (Some NoMemory, pointers cs, a')"
    "ends (free_all (pointers cs) a') alloc_inv" using free_all_ends by auto
  then show ?thesis unfolding AllocNoMem_def by (auto intro!: ends_calls elim: ends_mono)
qed
section \<open>Tests on a full arena\<close>

text \<open>\<open>fillUp\<close> fills the arena with blocks of one size.\<close>

lemma filled_up_ends:
  assumes "buf + buf_size < SZ" "0 < n" "n \<le> 2 * buf_size"
    and "\<And>bs a. holds n bs a \<Longrightarrow> dom (contents a) = set bs \<Longrightarrow> length bs = 32768 div n \<Longrightarrow> size_free_memory a = 32768 mod n
      \<Longrightarrow> ends (body (pointers bs) a) Q"
  shows "ends (filled_up buf m n body) Q"
proof -
  let ?a = "Allocator_init buf buf_size m"
  have i: "alloc_inv ?a" "size_memory ?a \<le> buf_size" using start_state [OF assms(1)] by simp_all
  obtain bs a' where f: "fillUp ?a n [] = Some (True, [] @ map (Pointer \<circ> Some) bs, a')" "alloc_inv a'"
    "length bs = size_free_memory ?a div n" "size_free_memory a' = size_free_memory ?a mod n" "distinct bs"
    "contents a' = (\<lambda>b. if b \<in> set bs then Some (pattern_bytes n) else contents ?a b)"
    using fillUp_ok [OF i assms(2,3), of "[]"] by blast
  have "holds n bs a'" using f assms(3) by (simp add: holds_def buf_size_def)
  moreover have "dom (contents a') = set bs" using f(6) start_state(2) [OF assms(1)] by (auto split: if_splits)
  ultimately have "ends (body (pointers bs) a') Q"
    using f(3,4) start_state(4) [OF assms(1)] by (intro assms(4)) simp_all
  then show ?thesis using f(1) by (simp add: filled_up_def comp_def)
qed

text \<open>Freeing the element at an index.\<close>

lemma ends_free_at:
  assumes "holds n (xs @ b # ys) a" "ptrs = ps @ Pointer (Some b) # qs" "length ps = i"
    and "\<And>a'. holds n (xs @ ys) a' \<Longrightarrow> contents a' = (contents a)(b := None)
      \<Longrightarrow> size_free_memory a' = size_free_memory a + n \<Longrightarrow> Q (ps @ Pointer None # qs, a')"
  shows "ends (free_at i ptrs a) Q"
proof -
  have h: "alloc_inv a" "contents a b = Some (pattern_bytes n)" using assms(1) by (auto simp: holds_def)
  have g: "iter_get ptrs i = Some (Pointer (Some b))" using assms(2,3) by (auto simp: iter_get_def)
  have "ends (free a (Pointer (Some b))) (\<lambda>x. ends (case x of (p, a) \<Rightarrow> Some (Inr (ptrs[i := p], a))) Q)"
  proof (rule ends_free [OF h(1)])
    fix a' assume a': "alloc_inv a'" "contents a' = (contents a)(b := None)"
      "size_free_memory a' = size_free_memory a + length (the (contents a b))"
    then have "holds n (xs @ ys) a'" using assms(1) by (auto simp: holds_def)
    from assms(4) [OF this a'(2)] a'(3) h(2)
    show "ends (case (Pointer None, a') of (p, a) \<Rightarrow> Some (Inr (ptrs[i := p], a))) Q"
      using assms(2,3) by auto
  qed (use h in simp)
  then show ?thesis unfolding free_at_def g by (auto intro: ends_calls)
qed

lemma split_nth:
  assumes "i < length xs"
  obtains ys x zs where "xs = ys @ x # zs" "length ys = i"
  using assms id_take_nth_drop [of i xs] by (metis length_take min.absorb4)

lemma AllocReuse_passes:
  assumes "buf + buf_size < SZ"
  shows "ends (AllocReuse buf m) (\<lambda>ok. ok)"
  unfolding AllocReuse_def
proof (rule filled_up_ends [OF assms])
  fix bs a
  assume h: "holds 135 bs a" and l: "length bs = 32768 div 135" and r: "size_free_memory a = 32768 mod 135"
  obtain b0 b bs' where bs: "bs = b0 # b # bs'" using l by (cases bs; cases "tl bs") auto
  show "ends (calls (free_at 1 (pointers bs) a) (\<lambda>(ptrs, a). do {
     p \<leftarrow> iter_get ptrs 1;
     v \<leftarrow> get a p;
     let ok = (v = None);
     calls (alloc a 135) (\<lambda>(p, a). do {
       let ptrs = ptrs[1 := p];
       v \<leftarrow> get a p;
       let ok = (ok \<and> v \<noteq> None);
       a \<leftarrow> writeTo a p 135;
       check_free ptrs 135 ok a
     })
   })) (\<lambda>ok. ok)"
  proof (intro ends_calls ends_free_at [of 135 "[b0]" b bs' a _ "[Pointer (Some b0)]" "pointers bs'"], goal_cases)
    case (4 a1)
    have inv: "alloc_inv a1" "b0 \<noteq> b" "b0 \<notin> set bs'" using 4 h by (auto simp: holds_def bs)
    have "ends (alloc a1 135) (\<lambda>(p, a2). ends (do {
         v \<leftarrow> get a2 p;
         a2 \<leftarrow> writeTo a2 p 135;
         check_free (Pointer (Some b0) # p # pointers bs') 135 (v \<noteq> None) a2}) (\<lambda>ok. ok))"
    proof (rule ends_alloc [OF inv(1)])
      fix b' zs a2
      assume A: "alloc_inv a2" "b' \<notin> dom (contents a1)" "length zs = 135" "contents a2 = (contents a1)(b' \<mapsto> zs)"
      have "ends (get a2 (Pointer (Some b')) \<bind> (\<lambda>v. writeTo a2 (Pointer (Some b')) 135 \<bind>
          check_free (pointers (b0 # b' # bs')) 135 (v \<noteq> None))) (\<lambda>ok. ok)"
      proof (intro ends_get [OF A(1)] ends_writeTo [OF A(1)])
        fix a3 v assume a3: "alloc_inv a3" "contents a3 = (contents a2)(b' \<mapsto> pattern_bytes 135 @ drop 135 (the (contents a2 b')))"
        have "b' \<noteq> b0" "b' \<notin> set bs'" using A(2) 4(1) by (auto simp: holds_def)
        then have "holds 135 (b0 # b' # bs') a3" using a3 A 4(1) inv by (auto simp: holds_def)
        from check_free_ends [OF this, of True]
        show "ends (check_free (pointers (b0 # b' # bs')) 135 (Some v \<noteq> None) a3) (\<lambda>ok. ok)" by simp
      qed (use A in simp_all)
      then show "case (Pointer (Some b'), a2) of (p, a2) \<Rightarrow> ends (do {
         v \<leftarrow> get a2 p;
         a2 \<leftarrow> writeTo a2 p 135;
         check_free (Pointer (Some b0) # p # pointers bs') 135 (v \<noteq> None) a2}) (\<lambda>ok. ok)" by simp
    qed (use 4 r in simp)
    then show ?case by (auto simp: iter_get_def get_def case_prod_unfold intro!: ends_calls)
  qed (use h in \<open>simp_all add: bs\<close>)
qed (simp_all add: buf_size_def)
lemma punch_ends:
  assumes "holds n bs a" "15 < length bs"
    and "\<And>cs a'. holds n cs a' \<Longrightarrow> length cs = length bs - 3 \<Longrightarrow> size_free_memory a' = size_free_memory a + 3 * n
      \<Longrightarrow> Q (pointers cs, a')"
  shows "ends (punch (pointers bs) a) Q"
proof -
  obtain x0 x1 rest where r: "bs = x0 # x1 # rest" "13 < length rest"
    using assms(2) by (cases bs; cases "tl bs") auto
  have "8 < length rest" using r(2) by simp
  then obtain ws x10 rest' where w: "rest = ws @ x10 # rest'" "length ws = 8" by (rule split_nth)
  have "4 < length rest'" using r(2) w by simp
  then obtain us x15 vs where u: "rest' = us @ x15 # vs" "length us = 4" by (rule split_nth)
  note bs = r(1) [unfolded w(1) u(1)]
  show ?thesis unfolding punch_def
  proof (intro ends_calls ends_free_at [of n "[x0]" x1 "ws @ x10 # us @ x15 # vs" a _ "[Pointer (Some x0)]"
        "pointers (ws @ x10 # us @ x15 # vs)"], goal_cases)
    case (4 a1)
    show ?case unfolding prod.case
    proof (intro ends_calls ends_free_at [of n "x0 # ws" x10 "us @ x15 # vs" a1 _ "Pointer (Some x0) # Pointer None # pointers ws"
        "pointers (us @ x15 # vs)"], goal_cases)
      case (4 a2)
      show ?case unfolding prod.case
      proof (intro ends_calls ends_free_at [of n "x0 # ws @ us" x15 vs a2 _
          "Pointer (Some x0) # Pointer None # pointers ws @ Pointer None # pointers us" "pointers vs"], goal_cases)
        case (4 a3)
        have "Q (pointers (x0 # ws @ us @ vs), a3)"
          by (rule assms(3)) (use 4 \<open>size_free_memory a1 = _\<close> \<open>size_free_memory a2 = _\<close> in \<open>simp_all add: bs\<close>)
        then show ?case by (simp add: erase_at_def w(2) u(2))
      qed (use 4 w(2) u(2) in simp_all)
    qed (use 4 w(2) u(2) in simp_all)
  qed (use assms(1) in \<open>simp_all add: bs\<close>)
qed

lemma DefragAvailable_passes:
  assumes "buf + buf_size < SZ"
  shows "ends (DefragAvailable buf m) (\<lambda>ok. ok)"
  unfolding DefragAvailable_def
proof (rule filled_up_ends [OF assms])
  fix bs a
  assume h: "holds 135 bs a" "length bs = 32768 div 135" "size_free_memory a = 32768 mod 135"
  have rest: "ends (defrag a1 \<bind> (\<lambda>a. calls (alloc a (135 * 2)) (\<lambda>(newPtr, a). writeTo a newPtr (135 * 2) \<bind> check_free (pointers cs) 135 True))) (\<lambda>ok. ok)"
    if a1: "holds 135 cs a1" "270 \<le> size_free_memory a1" for cs a1
  proof -
    have inv: "alloc_inv a1" using a1 by (simp add: holds_def)
    show ?thesis
    proof (intro ends_defrag [OF inv] ends_calls ends_alloc, goal_cases)
      case (3 a2 b zs a3)
      then have "b \<notin> set cs" using a1(1) by (auto simp: holds_def)
      have "ends (writeTo a3 (Pointer (Some b)) (135 * 2) \<bind> check_free (pointers cs) 135 True) (\<lambda>ok. ok)"
      proof (rule ends_writeTo)
        fix a4 assume "alloc_inv a4"
          "contents a4 = (contents a3)(b \<mapsto> pattern_bytes (135 * 2) @ drop (135 * 2) (the (contents a3 b)))"
        then have "holds 135 cs a4" using a1(1) 3 \<open>b \<notin> set cs\<close> by (auto simp: holds_def)
        from check_free_ends [OF this, of True] show "ends (check_free (pointers cs) 135 True a4) (\<lambda>ok. ok)" by simp
      qed (use 3 in simp_all)
      then show ?case by simp
    qed (use a1(2) in simp_all)
  qed
  show "ends (calls (punch (pointers bs) a) (\<lambda>(ptrs, a). do {
       r \<leftarrow> alloc a (135 * 2);
       a \<leftarrow> (case r of Inl e \<Rightarrow> Some a
              | Inr (p, a) \<Rightarrow> do { r \<leftarrow> free a p; Some (case r of Inl e \<Rightarrow> a | Inr (p, a) \<Rightarrow> a) });
       a \<leftarrow> defrag a;
       calls (alloc a (135 * 2)) (\<lambda>(newPtr, a). do {
         a \<leftarrow> writeTo a newPtr (135 * 2);
         check_free ptrs 135 True a
       })
     })) (\<lambda>ok. ok)"
  proof (intro ends_calls punch_ends [OF h(1)], goal_cases)
    case (2 cs a1)
    have inv: "alloc_inv a1" and room: "135 * 2 \<le> size_free_memory a1" using 2 h(3) by (simp_all add: holds_def)
    obtain b a2 zs where A: "alloc a1 (135 * 2) = Some (Inr (Pointer (Some b), a2))" "alloc_inv a2" "b \<notin> dom (contents a1)"
      "length zs = 270" "contents a2 = (contents a1)(b \<mapsto> zs)" "size_free_memory a2 = size_free_memory a1 - 270"
      using alloc_ok [OF inv room] by auto
    obtain a3 where F: "free a2 (Pointer (Some b)) = Some (Inr (Pointer None, a3))" "alloc_inv a3"
      "contents a3 = (contents a2)(b := None)" "size_free_memory a3 = size_free_memory a2 + length zs"
      using free_ok [OF A(2), of b zs] A(5) by auto
    have "holds 135 cs a3" "270 \<le> size_free_memory a3" using 2 A F room by (auto simp: holds_def)
    from rest [OF this] show ?case using A(1) F(1) by simp
  qed (use h(2) in simp)
qed (simp_all add: buf_size_def)
section \<open>Addresses\<close>

text \<open>What \<open>get\<close> returns for a live block: different for different blocks, and in the other half of
  the arena after \<open>defrag\<close>.\<close>

definition at :: "Allocator \<Rightarrow> blk \<Rightarrow> addr option" where
  "at a b = the (get a (Pointer (Some b)))"

lemma at_live:
  assumes "alloc_inv a" "contents a b = Some zs" "zs \<noteq> []"
  obtains m where "heap a b = Some m" "mb_size m = length zs" "get a (Pointer (Some b)) = Some (at a b)" "at a b = Some (mb_ptr m)"
    "cur_part a \<le> mb_ptr m" "mb_ptr m < cur_part a + size_memory_part a"
proof -
  obtain m where m: "heap a b = Some m" "mb_size m = length zs" using assms(1,2) by (rule contents_block)
  have "0 < length zs" using assms(3) by simp
  then have "mb_ptr m < cur_part a + size_memory_part a" using live_range(2) [OF assms(1) m(1)] m(2) by linarith
  then show thesis using live_range(1) [OF assms(1) m(1)] m by (intro that [of m]) (simp_all add: at_def get_def)
qed

lemma at_inj:
  assumes "alloc_inv a" "contents a b = Some zs" "zs \<noteq> []" "contents a c = Some ys" "ys \<noteq> []" "at a b = at a c"
  shows "b = c"
proof (rule ccontr)
  assume "b \<noteq> c"
  obtain m where m: "heap a b = Some m" "mb_size m = length zs" "at a b = Some (mb_ptr m)" using at_live [OF assms(1-3)] by metis
  obtain k where k: "heap a c = Some k" "mb_size k = length ys" "at a c = Some (mb_ptr k)" using at_live [OF assms(1,4,5)] by metis
  have "length zs = 0 \<or> length ys = 0" using live_apart [OF assms(1) m(1) k(1) \<open>b \<noteq> c\<close>] assms(6) m k by auto
  then show False using assms(3,5) by simp
qed

lemma insert_all_ok:
  assumes "holds n bs a" "0 < n" "set initialPtrs = at a ` set seen" "\<forall>c \<in> set seen. contents a c = Some (pattern_bytes n)"
    "set seen \<inter> set bs = {}"
  shows "\<exists>ps. insert_all (pointers bs) initialPtrs ok a = Some (ps, ok) \<and> set ps = at a ` (set seen \<union> set bs)"
  using assms
proof (induction bs arbitrary: initialPtrs seen)
  case (Cons b bs)
  have h: "alloc_inv a" "contents a b = Some (pattern_bytes n)" "pattern_bytes n \<noteq> []" "holds n bs a" "b \<notin> set bs"
    using Cons.prems(1,2) by (auto simp: holds_def pattern_bytes_def)
  obtain m where m: "get a (Pointer (Some b)) = Some (at a b)" using at_live [OF h(1-3)] by metis
  have "at a b \<notin> set initialPtrs"
  proof
    assume "at a b \<in> set initialPtrs"
    then obtain c where "c \<in> set seen" "at a b = at a c" using Cons.prems(3) by auto
    then show False using at_inj [OF h(1-3) _ h(3)] Cons.prems(4,5) by auto
  qed
  moreover have "\<exists>ps. insert_all (pointers bs) (List.insert (at a b) initialPtrs) ok a = Some (ps, ok)
      \<and> set ps = at a ` (set (b # seen) \<union> set bs)"
    by (rule Cons.IH [OF h(4) Cons.prems(2)]) (use Cons.prems(3-5) h in auto)
  ultimately show ?case using m by (auto simp: insert_commute)
qed simp

lemma moved_loop_ok:
  assumes "holds n bs a" "0 < n" "\<forall>b \<in> set bs. at a b \<notin> set initialPtrs"
  shows "moved_loop (pointers bs) n initialPtrs ok has_moved a = Some (ok, has_moved \<or> bs \<noteq> [])"
  using assms
proof (induction bs arbitrary: ok has_moved)
  case (Cons b bs)
  have h: "alloc_inv a" "contents a b = Some (pattern_bytes n)" "pattern_bytes n \<noteq> []" "holds n bs a"
    using Cons.prems(1,2) by (auto simp: holds_def pattern_bytes_def)
  obtain m where m: "get a (Pointer (Some b)) = Some (at a b)" using at_live [OF h(1-3)] by metis
  have "isDataOk a (Pointer (Some b)) n = Some True" using isDataOk_iff [OF h(1,2), of n] Cons.prems(1) by (simp add: holds_def)
  then show ?case using m Cons.IH [OF h(4) Cons.prems(2)] Cons.prems(3) by simp
qed simp

lemma defrag_moves:
  assumes "alloc_inv a" "defrag a = Some a'" "contents a b = Some zs" "zs \<noteq> []" "contents a c = Some ys" "ys \<noteq> []"
  shows "at a' b \<noteq> at a c"
proof -
  have d: "alloc_inv a'" "contents a' = contents a" "same_arena a a'" "ping_pong a' = (\<not> ping_pong a)"
    using defrag_ok [OF assms(1)] assms(2) by auto
  have b: "contents a' b = Some zs" using d(2) assms(3) by simp
  obtain m :: MemoryBlock where m: "at a' b = Some (mb_ptr m)" "cur_part a' \<le> mb_ptr m" "mb_ptr m < cur_part a' + size_memory_part a'"
    by (rule at_live [OF d(1) b assms(4)])
  obtain k :: MemoryBlock where k: "at a c = Some (mb_ptr k)" "cur_part a \<le> mb_ptr k" "mb_ptr k < cur_part a + size_memory_part a"
    by (rule at_live [OF assms(1,5,6)])
  have "layout a" "layout a'" using assms(1) d(1) by (simp_all add: alloc_inv_def view_inv_def)
  then show ?thesis using m k d(3,4) by (auto simp: layout_def cur_part_def same_arena_def split: if_splits)
qed

lemma DefragMove_passes:
  assumes "buf + buf_size < SZ"
  shows "ends (DefragMove buf m) (\<lambda>ok. ok)"
  unfolding DefragMove_def
proof (rule filled_up_ends [OF assms])
  fix bs a
  assume h: "holds 135 bs a" "length bs = 32768 div 135"
  show "ends (calls (punch (pointers bs) a) (\<lambda>(ptrs, a). do {
       (initialPtrs, ok) \<leftarrow> insert_all ptrs [] True a;
       a \<leftarrow> defrag a;
       (ok, has_moved) \<leftarrow> moved_loop ptrs 135 initialPtrs ok False a;
       check_free ptrs 135 (ok \<and> has_moved) a
     })) (\<lambda>ok. ok)"
  proof (intro ends_calls punch_ends [OF h(1)], goal_cases)
    case (2 cs a1)
    have inv: "alloc_inv a1" and ne: "cs \<noteq> []" using 2(1,2) h(2) by (auto simp: holds_def)
    have c: "contents a1 b = Some (pattern_bytes 135)" "pattern_bytes 135 \<noteq> []" if "b \<in> set cs" for b
      using 2(1) that by (auto simp: holds_def pattern_bytes_def)
    obtain ps where ps: "insert_all (pointers cs) [] True a1 = Some (ps, True)" "set ps = at a1 ` set cs"
      using insert_all_ok [OF 2(1), of "[]" "[]" True] by auto
    obtain a2 where d: "defrag a1 = Some a2" "alloc_inv a2" "contents a2 = contents a1" using defrag_ok [OF inv] by blast
    have h2: "holds 135 cs a2" using 2(1) d by (simp add: holds_def)
    have "\<forall>b \<in> set cs. at a2 b \<notin> set ps" using ps(2) defrag_moves [OF inv d(1) c c] by auto
    then have "moved_loop (pointers cs) 135 ps True False a2 = Some (True, True)"
      using moved_loop_ok [OF h2] ne by simp
    then show ?case using ps(1) d(1) check_free_ends [OF h2, of True] by simp
  qed (use h(2) in simp)
qed (simp_all add: buf_size_def)

lemma DefragMoveTwice_passes:
  assumes "buf + buf_size < SZ"
  shows "ends (DefragMoveTwice buf m) (\<lambda>ok. ok)"
  unfolding DefragMoveTwice_def
proof (rule filled_up_ends [OF assms])
  fix bs a
  assume h: "holds 225 bs a" "length bs = 32768 div 225"
  obtain x0 x1 rest where r: "bs = x0 # x1 # rest" "length rest = 143"
    using h(2) by (cases bs; cases "tl bs") auto
  have "8 < length rest" using r(2) by simp
  then obtain ws x10 vs where w: "rest = ws @ x10 # vs" "length ws = 8" by (rule split_nth)
  have "6 < length vs" using r(2) w by simp
  then obtain us x15 ts where u: "vs = us @ x15 # ts" "length us = 6" by (rule split_nth)
  note bs = r(1) [unfolded w(1)]
  have last: "ends (defrag a \<bind> (\<lambda>a. calls (alloc a 225) (\<lambda>(p, a). writeTo a p 225 \<bind> check_free (pointers cs @ [p]) 225 True))) (\<lambda>ok. ok)"
    if a: "holds 225 cs a" "225 \<le> size_free_memory a" for cs a
  proof -
    have inv: "alloc_inv a" using a by (simp add: holds_def)
    show ?thesis
    proof (intro ends_defrag [OF inv] ends_calls ends_alloc, goal_cases)
      case (3 a2 b zs a3)
      then have "b \<notin> set cs" using a(1) by (auto simp: holds_def)
      have "ends (writeTo a3 (Pointer (Some b)) 225 \<bind> check_free (pointers (cs @ [b])) 225 True) (\<lambda>ok. ok)"
      proof (rule ends_writeTo)
        fix a4 assume "alloc_inv a4"
          "contents a4 = (contents a3)(b \<mapsto> pattern_bytes 225 @ drop 225 (the (contents a3 b)))"
        then have "holds 225 (cs @ [b]) a4" using a(1) 3 \<open>b \<notin> set cs\<close> by (auto simp: holds_def)
        from check_free_ends [OF this, of True] show "ends (check_free (pointers (cs @ [b])) 225 True a4) (\<lambda>ok. ok)" by simp
      qed (use 3 in simp_all)
      then show ?case by simp
    qed (use a(2) in simp_all)
  qed
  show "ends (calls (free_at 1 (pointers bs) a) (\<lambda>(ptrs, a).
     calls (free_at 10 ptrs a) (\<lambda>(ptrs, a). do {
       let ptrs = erase_at 1 (erase_at 10 ptrs);
       a \<leftarrow> defrag a;
       calls (free_at 15 ptrs a) (\<lambda>(ptrs, a). do {
         let ptrs = erase_at 15 ptrs;
         a \<leftarrow> defrag a;
         calls (alloc a 225) (\<lambda>(p, a). do {
           a \<leftarrow> writeTo a p 225;
           check_free (ptrs @ [p]) 225 True a
         })
       })
     }))) (\<lambda>ok. ok)"
  proof (intro ends_calls ends_free_at [of 225 "[x0]" x1 "ws @ x10 # vs" a _ "[Pointer (Some x0)]" "pointers (ws @ x10 # vs)"], goal_cases)
    case (4 a1)
    show ?case unfolding prod.case
    proof (intro ends_calls ends_free_at [of 225 "x0 # ws" x10 vs a1 _ "Pointer (Some x0) # Pointer None # pointers ws" "pointers vs"], goal_cases)
      case (4 a2)
      have e: "erase_at 1 (erase_at 10 ((Pointer (Some x0) # Pointer None # pointers ws) @ Pointer None # pointers vs))
          = pointers ((x0 # ws @ us) @ x15 # ts)" by (simp add: erase_at_def w(2) u(1))
      have inv: "alloc_inv a2" using 4(1) by (simp add: holds_def)
      show ?case unfolding prod.case Let_def e
      proof (intro ends_defrag [OF inv])
        fix a3 assume a3: "alloc_inv a3" "contents a3 = contents a2" "size_free_memory a3 = size_free_memory a2"
        then have h3: "holds 225 ((x0 # ws @ us) @ x15 # ts) a3" using 4(1) by (simp add: holds_def u(1))
        show "ends (calls (free_at 15 (pointers ((x0 # ws @ us) @ x15 # ts)) a3) (\<lambda>(ptrs, a).
            defrag a \<bind> (\<lambda>a. calls (alloc a 225) (\<lambda>(p, a). writeTo a p 225 \<bind> check_free (erase_at 15 ptrs @ [p]) 225 True)))) (\<lambda>ok. ok)"
        proof (intro ends_calls ends_free_at [OF h3, of _ "pointers (x0 # ws @ us)" "pointers ts"], goal_cases)
          case (3 a4)
          have "erase_at 15 (pointers (x0 # ws @ us) @ Pointer None # pointers ts) = pointers ((x0 # ws @ us) @ ts)"
            by (simp add: erase_at_def w(2) u(2))
          then show ?case using last [OF 3(1)] 3(3) by simp
        qed (use w(2) u(2) in simp_all)
      qed
    qed (use 4 w(2) in simp_all)
  qed (use h in \<open>simp_all add: bs\<close>)
qed (simp_all add: buf_size_def)
section \<open>Growing in place\<close>

lemma writeTo_loop_only_mem: "writeTo_loop v i sz a = Some a' \<Longrightarrow> \<exists>mm. a' = a\<lparr>mem := mm\<rparr>"
proof (induction v i sz a rule: writeTo_loop.induct)
  case (1 v i sz a)
  show ?case
  proof (cases "i < sz")
    case True
    then obtain a1 k where a1: "write_byte a (v + i) (word_of_nat (i mod 31)) = Some a1" "int_next i = Some k"
      "writeTo_loop v k sz a1 = Some a'"
      using 1(2) unfolding writeTo_loop.simps [of v i sz a] by (auto simp: bind_eq_Some_conv)
    obtain mm where "a' = a1\<lparr>mem := mm\<rparr>" using 1(1) [OF True a1] by blast
    then show ?thesis using a1(1) by (auto simp: write_byte_def split: if_splits)
  next
    case False
    then have "a' = a\<lparr>mem := mem a\<rparr>" using 1(2) by (subst (asm) writeTo_loop.simps) simp
    then show ?thesis by blast
  qed
qed

lemma writeTo_only_mem: "writeTo a p n = Some a' \<Longrightarrow> \<exists>mm. a' = a\<lparr>mem := mm\<rparr>"
proof -
  assume w: "writeTo a p n = Some a'"
  then obtain v where "get a p = Some v" by (auto simp: writeTo_def bind_eq_Some_conv)
  then show ?thesis using w writeTo_loop_only_mem
    by (cases v) (auto simp: writeTo_def split: if_splits intro: exI [of _ "mem a"])
qed

text \<open>The first block of an arena is followed by the rest, one free block.\<close>

definition first_block :: "addr \<Rightarrow> memory \<Rightarrow> Allocator" where
  "first_block buf m = (Allocator_init buf buf_size m)\<lparr>list_blocks := [1, 0], next_blk := 2, size_free_memory := 32633,
     heap := [0 \<mapsto> \<lparr>mb_ptr = buf + 135, mb_size = 32633, mb_free = True\<rparr>, 1 \<mapsto> \<lparr>mb_ptr = buf, mb_size = 135, mb_free = False\<rparr>]\<rparr>"

lemma alloc_first: "alloc (Allocator_init buf buf_size m) 135 = Some (Inr (Pointer (Some 1), first_block buf m))"
  by (simp add: alloc_def findblock_def alloc_at_def Allocator_init_def new_block_def Let_def iter_get_def store_def
      insert_at_def first_block_def buf_size_def sz_sub_def SZ_def)

lemma grow_first:
  "\<exists>a. realloc ((first_block buf m)\<lparr>mem := mm\<rparr>) (Pointer (Some 1)) 270 = Some (Inr (Pointer (Some 1), a))
    \<and> get a (Pointer (Some 1)) = Some (Some buf)"
  by (simp add: realloc_def realloc_grow_def realloc_next_def realloc_in_place_def shortSizeBlock_def appendfollow_def
      first_block_def iter_next_def iter_prev_def iter_get_def new_block_def store_def delete_block_def insert_at_def erase_at_def
      Let_def sz_sub_def sz_add_def SZ_def get_def Allocator_init_def)

lemma ReallocGrowInplace_passes:
  assumes "buf + buf_size < SZ"
  shows "ends (ReallocGrowInplace buf m) (\<lambda>ok. ok)"
proof -
  let ?a = "first_block buf m" and ?p = "Pointer (Some 1)"
  obtain b zs a1 where "alloc (Allocator_init buf buf_size m) 135 = Some (Inr (Pointer (Some b), a1))" "alloc_inv a1"
    "length zs = 135" "contents a1 = [b \<mapsto> zs]" "size_free_memory a1 = 32768 - 135"
    using alloc_ok [OF start_state(1) [OF assms, of m], of 135] start_state [OF assms] by auto
  then have A: "alloc_inv ?a" "contents ?a = [1 \<mapsto> zs]" "length zs = 135" "size_free_memory ?a = 32633"
    using alloc_first [of buf m] by simp_all
  obtain a2 where W: "writeTo ?a ?p 135 = Some a2" "alloc_inv a2" "contents a2 = [1 \<mapsto> pattern_bytes 135]"
    "size_free_memory a2 = 32633" using writeTo_ok [OF A(1), of 1 zs 135] A by auto
  obtain mm where mm: "a2 = ?a\<lparr>mem := mm\<rparr>" using writeTo_only_mem [OF W(1)] by blast
  have g: "get a2 ?p = Some (Some buf)" by (simp add: mm first_block_def get_def)
  obtain a3 ws where R: "realloc a2 ?p 270 = Some (Inr (?p, a3))" "alloc_inv a3" "size_free_memory a3 = 32633 - 135"
    "length ws = 135" "contents a3 = [1 \<mapsto> pattern_bytes 135 @ ws]"
    using realloc_grow_ok [OF W(2), of 1 "pattern_bytes 135" 270] W(3,4) by auto
  have g3: "get a3 ?p = Some (Some buf)" using grow_first [where buf = buf and m = m and mm = mm] R(1) mm by auto
  have "ends (check_all [?p] 135 True a3 \<bind> (\<lambda>ok. calls (alloc a3 135) (\<lambda>(p2, a). do {
           a \<leftarrow> writeTo a ?p (135 * 2);
           a \<leftarrow> writeTo a p2 135;
           ok \<leftarrow> check_all [?p] (135 * 2) ok a;
           ok \<leftarrow> check_all [p2] 135 ok a;
           calls (free_all [?p, p2] a) (\<lambda>a. Some (Inr ok))
         }))) (\<lambda>ok. ok)"
    using R(2-5) by (auto intro!: run_rules simp: take_pattern split: if_splits)
  then show ?thesis using alloc_first [of buf m] W(1) g R(1) g3
    by (simp add: ReallocGrowInplace_def calls_def)
qed

section \<open>The test suite\<close>

definition allocator_tests :: "(addr \<Rightarrow> memory \<Rightarrow> bool run) list" where
  "allocator_tests = [AllocInRange, AllocReadWrite, AllocNoMem, AllocReuse, DefragMove, DefragMoveTwice, DefragAvailable,
     ReallocFromEmpty, ReallocGrowInplace, ReallocShrink, ReallocGrow]"

lemma ends_True: "ends r (\<lambda>ok. ok) \<longleftrightarrow> r = Some (Inr True)"
  by (auto simp: ends_def)

text \<open>Property C7.
  Every test of the suite passes, wherever the array lies and whatever it contains: no exception
  leaves a test, nothing undefined is done, and every expectation holds.
\<close>

theorem tests_pass:
  assumes "buf + buf_size < SZ" "test \<in> set allocator_tests"
  shows "test buf m = Some (Inr True)"
  using assms(2) AllocInRange_passes [OF assms(1)] AllocReadWrite_passes [OF assms(1)] AllocNoMem_passes [OF assms(1)]
    AllocReuse_passes [OF assms(1)] DefragMove_passes [OF assms(1)] DefragMoveTwice_passes [OF assms(1)]
    DefragAvailable_passes [OF assms(1)] ReallocFromEmpty_passes [OF assms(1)] ReallocGrowInplace_passes [OF assms(1)]
    ReallocShrink_passes [OF assms(1)] ReallocGrow_passes [OF assms(1)]
  by (auto simp: allocator_tests_def ends_True)

theorem tests_pass_witness:
  "DefragMove 4096 (\<lambda>_. 7) = Some (Inr True) \<and> ReallocGrowInplace 4096 (\<lambda>_. 7) = Some (Inr True)"
  using tests_pass [of 4096 DefragMove "\<lambda>_. 7"] tests_pass [of 4096 ReallocGrowInplace "\<lambda>_. 7"]
  by (simp add: allocator_tests_def buf_size_def SZ_def)

end
