(* ===== verification/Merge_Sort.thy ===== *)
theory Merge_Sort
  imports Prelude
begin

text \<open>
  Model of \<^verbatim>\<open>src/p8/merge_sort.cpp\<close>: the recursive merge sort on a range of an \<open>int\<close>
  array. Pointers are positions of the array; a read or write outside of it, or past the end
  of the temporary array, is undefined (\<^const>\<open>None\<close>). The two sections that OpenMP runs in
  parallel are composed in the order of the text; \<open>sections_commute\<close> shows that the other
  order gives the same array, each section changing its own range only. The length of the range
  is converted to \<open>int\<close>, and the numbers of the input are read as \<open>int\<close>.
\<close>

section \<open>The program\<close>

function merge_loop ::
  "int list \<Rightarrow> nat \<Rightarrow> nat \<Rightarrow> nat \<Rightarrow> nat \<Rightarrow> nat \<Rightarrow> int list \<Rightarrow> int list option" where
  "merge_loop a len start_left end_left start_right end_right tmp =
     (if start_left \<noteq> end_left \<or> start_right \<noteq> end_right then
        if len \<le> length tmp then None
        else if start_left = end_left then do {
          y \<leftarrow> iter_get a start_right;
          merge_loop a len start_left end_left (Suc start_right) end_right (tmp @ [y])
        } else do {
          x \<leftarrow> iter_get a start_left;
          take_left \<leftarrow>
            (if start_right = end_right then Some True
             else do { y \<leftarrow> iter_get a start_right; Some (x < y) });
          if take_left then merge_loop a len (Suc start_left) end_left start_right end_right (tmp @ [x])
          else do {
            y \<leftarrow> iter_get a start_right;
            merge_loop a len start_left end_left (Suc start_right) end_right (tmp @ [y])
          }
        }
      else Some tmp)"
  by pat_completeness auto
termination by (relation "measure (\<lambda>(a, len, sl, el, sr, er, tmp). len - length tmp)") auto

declare merge_loop.simps [simp del]

fun copy_back :: "int list \<Rightarrow> nat \<Rightarrow> int list \<Rightarrow> nat list \<Rightarrow> int list option" where
  "copy_back a left tmp [] = Some a"
| "copy_back a left tmp (i # is) = do {
     x \<leftarrow> iter_get tmp i;
     if left + i < length a then copy_back (a[left + i := x]) left tmp is else None
   }"

lemma to_int32_le: "0 \<le> x \<Longrightarrow> to_int32 x \<le> x"
proof (cases "x < 2 ^ 31")
  case True
  moreover assume "0 \<le> x"
  ultimately show ?thesis by (simp add: to_int32_id in_int32_def INT_MIN_def INT_MAX_def)
next
  case False
  have "(x + 2147483648) mod 4294967296 < 4294967296" by simp
  moreover have "2147483648 \<le> x" using False by simp
  ultimately show ?thesis by (simp add: to_int32_eq)
qed

text \<open>
  \<open>int len = right - left\<close> is the distance cut to 32 bits. When a range is so long that \<open>len\<close> is
  too small, the merge runs over the end of \<open>tmp_array\<close>, whose size is \<open>len\<close>; a negative distance
  that is cut to a positive \<open>len\<close> is undefined at once, because no element lies between.
\<close>

function merge_sort :: "int list \<Rightarrow> nat \<Rightarrow> nat \<Rightarrow> int list option" where
  "merge_sort a left right =
     (let len = to_int32 (int right - int left) in
      if len \<le> 1 then Some a
      else if right < left then None
      else
        let end_left = left + nat (len div 2) in do {
          a \<leftarrow> merge_sort a left end_left;
          a \<leftarrow> merge_sort a end_left right;
          tmp_array \<leftarrow> merge_loop a (nat len) left end_left end_left right [];
          copy_back a left tmp_array [0..<nat len]
        })"
  by pat_completeness auto

termination
proof (relation "measure (\<lambda>(a, left, right). right - left)", goal_cases)
  case (2 a left right len end_left)
  then show ?case using to_int32_le [of "int right - int left"] by auto
next
  case (3 a left right len end_left)
  then show ?case using to_int32_le [of "int right - int left"] by auto
qed simp

declare merge_sort.simps [simp del]

text \<open>
  \<open>in_file >> x\<close> on the numbers written in the file: one that is not an \<open>int\<close> is read as the nearest
  \<open>int\<close> and makes every later read fail. A failed read leaves its variable as it was, that
  is indeterminate, so that the array is then not sorted but undefined.
\<close>

definition nearest_int :: "int \<Rightarrow> int" where
  "nearest_int x = (if x < INT_MIN then INT_MIN else if INT_MAX < x then INT_MAX else x)"

fun read_ints :: "nat \<Rightarrow> int list \<Rightarrow> int list option" where
  "read_ints 0 xs = Some []"
| "read_ints (Suc k) [] = None"
| "read_ints (Suc k) (x # xs) =
     (if in_int32 x then do { ys \<leftarrow> read_ints k xs; Some (x # ys) }
      else if k = 0 then Some [nearest_int x] else None)"

text \<open>\<open>main\<close> on the numbers of the input file: \<open>n\<close>, then the elements. \<open>new\<close> throws for a negative \<open>n\<close>.\<close>

datatype sort_error = bad_array_new_length

fun main_sort :: "int list \<Rightarrow> (sort_error + int list) option" where
  "main_sort [] = None"
| "main_sort (n # xs) =
     (if nearest_int n < 0 then Some (Inl bad_array_new_length)
      else do {
        arr \<leftarrow> read_ints (nat (nearest_int n)) (if in_int32 n then xs else []);
        arr \<leftarrow> merge_sort arr 0 (nat (nearest_int n));
        Some (Inr arr)
      })"

section \<open>Merging\<close>

fun merged :: "int list \<Rightarrow> int list \<Rightarrow> int list" where
  "merged [] ys = ys"
| "merged (x # xs) [] = x # xs"
| "merged (x # xs) (y # ys) = (if x < y then x # merged xs (y # ys) else y # merged (x # xs) ys)"

lemma mset_merged [simp]: "mset (merged xs ys) = mset xs + mset ys"
  by (induction xs ys rule: merged.induct) auto

lemma set_merged [simp]: "set (merged xs ys) = set xs \<union> set ys"
  by (metis mset_merged set_mset_mset set_mset_union)

lemma length_merged [simp]: "length (merged xs ys) = length xs + length ys"
  by (metis mset_merged size_mset size_union)

lemma sorted_merged: "sorted xs \<Longrightarrow> sorted ys \<Longrightarrow> sorted (merged xs ys)"
  by (induction xs ys rule: merged.induct) (auto simp: not_less)

lemma merged_sort: "merged (sort xs) (sort ys) = sort (xs @ ys)"
  using sorted_merged [of "sort xs" "sort ys"] by (intro properties_for_sort [symmetric]) simp_all

text \<open>The loop reads two segments of the array and appends their merge.\<close>

lemma iter_get_append: "iter_get (xs @ x # ys) (length xs) = Some x"
  by (simp add: iter_get_def)

lemma merge_loop_left:
  assumes "a = us @ xs @ ws" "length tmp + length xs \<le> len"
  shows "merge_loop a len (length us) (length us + length xs) r r tmp = Some (tmp @ xs)"
  using assms
proof (induction xs arbitrary: us tmp)
  case Nil
  then show ?case by (simp add: merge_loop.simps)
next
  case (Cons x xs)
  have "iter_get a (length us) = Some x" using iter_get_append [of us x "xs @ ws"] Cons.prems(1) by simp
  then show ?case using Cons.IH [of "us @ [x]" "tmp @ [x]"] Cons.prems
    by (subst merge_loop.simps) simp
qed

lemma merge_loop_right:
  assumes "a = us @ ys @ ws" "length tmp + length ys \<le> len"
  shows "merge_loop a len l l (length us) (length us + length ys) tmp = Some (tmp @ ys)"
  using assms
proof (induction ys arbitrary: us tmp)
  case Nil
  then show ?case by (simp add: merge_loop.simps)
next
  case (Cons y ys)
  have "iter_get a (length us) = Some y" using iter_get_append [of us y "ys @ ws"] Cons.prems(1) by simp
  then show ?case using Cons.IH [of "us @ [y]" "tmp @ [y]"] Cons.prems
    by (subst merge_loop.simps) simp
qed

lemma merge_loop_merged:
  assumes "a = us @ xs @ vs @ ys @ ws" "length tmp + length xs + length ys \<le> len"
  shows "merge_loop a len (length us) (length us + length xs)
      (length (us @ xs @ vs)) (length (us @ xs @ vs) + length ys) tmp = Some (tmp @ merged xs ys)"
  using assms
proof (induction xs ys arbitrary: us vs tmp rule: merged.induct)
  case (1 ys)
  then show ?case using merge_loop_right [of a "us @ vs" ys ws tmp len "length us"] by simp
next
  case (2 x xs)
  then show ?case
    using merge_loop_left [of a us "x # xs" "vs @ ws" tmp len "length us + length (x # xs) + length vs"]
    by (simp add: add.assoc)
next
  case (3 x xs y ys)
  have g: "iter_get a (length us) = Some x" "iter_get a (length (us @ (x # xs) @ vs)) = Some y"
    using iter_get_append [of us x "xs @ vs @ (y # ys) @ ws"]
      iter_get_append [of "us @ (x # xs) @ vs" y "ys @ ws"] 3(3) by simp_all
  show ?case
  proof (cases "x < y")
    case True
    have "merge_loop a len (length (us @ [x])) (length (us @ [x]) + length xs)
        (length ((us @ [x]) @ xs @ vs)) (length ((us @ [x]) @ xs @ vs) + length (y # ys)) (tmp @ [x])
      = Some ((tmp @ [x]) @ merged xs (y # ys))"
      using 3 True by (intro 3(1)) simp_all
    then show ?thesis using True g 3(4) by (subst merge_loop.simps) simp
  next
    case False
    have e: "(x # xs) @ vs @ [y] = (x # xs @ vs) @ [y]" by simp
    have "merge_loop a len (length us) (length us + length (x # xs)) (length (us @ (x # xs) @ vs @ [y]))
        (length (us @ (x # xs) @ vs @ [y]) + length ys) (tmp @ [y]) = Some ((tmp @ [y]) @ merged (x # xs) ys)"
      using 3 False by (intro 3(2)) simp_all
    then show ?thesis using False g 3(4) by (subst merge_loop.simps) simp
  qed
qed

lemma copy_back_prefix:
  assumes "length tmp = length ys"
  shows "copy_back (xs @ ys @ zs) (length xs) tmp [0..<length ys] = Some (xs @ tmp @ zs)"
proof -
  have "copy_back (xs @ take i tmp @ drop i ys @ zs) (length xs) tmp [i..<length ys] = Some (xs @ tmp @ zs)"
    if "i \<le> length ys" for i using that
  proof (induction "length ys - i" arbitrary: i)
    case 0
    then show ?case using assms by simp
  next
    case (Suc k)
    then have i: "i < length ys" by simp
    have "(xs @ take i tmp @ drop i ys @ zs)[length xs + i := tmp ! i]
        = xs @ take (Suc i) tmp @ drop (Suc i) ys @ zs"
      using i assms by (simp add: list_update_append take_Suc_conv_app_nth Cons_nth_drop_Suc [symmetric])
    then show ?case using Suc.hyps(1) [of "Suc i"] Suc.hyps(2) i assms
      by (simp add: upt_conv_Cons iter_get_def)
  qed
  from this [of 0] show ?thesis by simp
qed

text \<open>The sort of a range is the sorted range, in place, everything else untouched.\<close>

lemma merge_sort_range:
  "length ys < 2 ^ 31 \<Longrightarrow> merge_sort (xs @ ys @ zs) (length xs) (length xs + length ys) = Some (xs @ sort ys @ zs)"
proof (induction "length ys" arbitrary: xs ys zs rule: less_induct)
  case less
  have len: "to_int32 (int (length xs + length ys) - int (length xs)) = int (length ys)"
    using less.prems by (simp add: to_int32_id in_int32_def INT_MIN_def INT_MAX_def)
  show ?case
  proof (cases "length ys \<le> 1")
    case True
    then have "sort ys = ys" by (cases ys rule: list.exhaust) (auto simp: length_Suc_conv sorted_sort_id)
    then show ?thesis using True len by (simp add: merge_sort.simps)
  next
    case False
    let ?h = "length ys div 2"
    define ps qs where "ps = take ?h ys" and "qs = drop ?h ys"
    have ys: "ys = ps @ qs" "length ps = ?h" "length ps < length ys" "length qs < length ys"
      using False by (auto simp: ps_def qs_def)
    have 1: "merge_sort (xs @ (ps @ qs) @ zs) (length xs) (length xs + length ps) = Some (xs @ sort ps @ qs @ zs)"
      using less.hyps [of ps xs "qs @ zs"] less.prems ys(3) by simp
    have 2: "merge_sort (xs @ sort ps @ qs @ zs) (length xs + length ps) (length xs + (length ps + length qs))
        = Some (xs @ sort ps @ sort qs @ zs)"
      using less.hyps [of qs "xs @ sort ps" zs] less.prems ys(4) by (simp add: add.assoc)
    have 3: "merge_loop (xs @ sort ps @ sort qs @ zs) (length ps + length qs) (length xs) (length xs + length ps)
        (length xs + length ps) (length xs + (length ps + length qs)) [] = Some (sort (ps @ qs))"
      using merge_loop_merged [of "xs @ sort ps @ sort qs @ zs" xs "sort ps" "[]" "sort qs" zs "[]"
          "length ps + length qs"] by (simp add: merged_sort add.assoc)
    have 4: "copy_back (xs @ sort ps @ sort qs @ zs) (length xs) (sort (ps @ qs)) [0..<length ps + length qs]
        = Some (xs @ sort (ps @ qs) @ zs)"
      using copy_back_prefix [of "sort (ps @ qs)" "sort ps @ sort qs" xs zs] by simp
    have h: "(length ps + length qs) div 2 = length ps" "\<not> length ps + length qs \<le> 1"
      using ys(1,2) False by simp_all
    have "nat (int (length ps + length qs) div 2) = (length ps + length qs) div 2"
      using nat_int [of "(length ps + length qs) div 2"] by (simp add: zdiv_int)
    then have n: "nat (int (length ps + length qs) div 2) = length ps" using h(1) by simp
    have e: "to_int32 (int (length xs + (length ps + length qs)) - int (length xs)) = int (length ps + length qs)"
      using len unfolding ys(1) length_append .
    have g: "\<not> int (length ps + length qs) \<le> 1" "\<not> length xs + (length ps + length qs) < length xs"
      using h(2) by simp_all
    show ?thesis unfolding ys(1) length_append
      by (subst merge_sort.simps)
        (simp only: Let_def e if_not_P [OF g(1)] if_not_P [OF g(2)] n nat_int 1 2 3 4 Option.bind.bind_lunit)
  qed
qed

lemma merge_sort_split:
  assumes "left \<le> right" "right \<le> length a" "right - left < 2 ^ 31"
  shows "merge_sort a left right
    = Some (take left a @ sort (take (right - left) (drop left a)) @ drop right a)"
proof -
  have "a = take left a @ take (right - left) (drop left a) @ drop right a"
    using assms by (metis append_take_drop_id drop_drop le_add_diff_inverse2)
  then show ?thesis using assms
    merge_sort_range [of "take (right - left) (drop left a)" "take left a" "drop right a"]
    by simp
qed

lemma read_ints_all:
  "k \<le> length xs \<Longrightarrow> \<forall>x \<in> set (take k xs). in_int32 x \<Longrightarrow> read_ints k xs = Some (take k xs)"
  by (induction k xs rule: read_ints.induct) auto

section \<open>Properties\<close>

text \<open>Property C6. \<open>merge_sort\<close> on a range of fewer than \<open>2 ^ 31\<close> elements inside the array returns,
  with the range replaced by a sorted permutation of itself and every other element in its place.\<close>

theorem merge_sort_sorts:
  assumes "left \<le> right" "right \<le> length a" "right - left < 2 ^ 31"
  shows "\<exists>a'. merge_sort a left right = Some a' \<and> length a' = length a
    \<and> sorted (take (right - left) (drop left a'))
    \<and> mset (take (right - left) (drop left a')) = mset (take (right - left) (drop left a))
    \<and> take left a' = take left a \<and> drop right a' = drop right a"
  using assms merge_sort_split [OF assms] by (auto simp: min_def)

theorem merge_sort_sorts_witness:
  "\<exists>a'. merge_sort [9, 3, 1, 2, 0] 1 4 = Some a' \<and> sorted (take 3 (drop 1 a')) \<and> take 1 a' = [9]"
  using merge_sort_sorts [of 1 4 "[9, 3, 1, 2, 0]"] by auto

text \<open>A range of \<open>2 ^ 31\<close> elements or a little more has a negative \<open>len\<close> and is left as it is.\<close>

lemma merge_sort_long:
  assumes "left + 2 ^ 31 \<le> right" "right < left + 2 ^ 32"
  shows "merge_sort a left right = Some a"
proof -
  let ?d = "int right - int left"
  have d: "2147483648 \<le> ?d" "?d < 4294967296" using assms by simp_all
  have "(?d + 2147483648) mod 4294967296 = (?d + 2147483648 - 4294967296) mod 4294967296"
    using minus_mod_self2 [of "?d + 2147483648" 4294967296] by simp
  also have "\<dots> = ?d + 2147483648 - 4294967296" using d by (intro mod_pos_pos_trivial) simp_all
  finally have "to_int32 ?d < 0" using d unfolding to_int32_eq by simp
  then show ?thesis by (subst merge_sort.simps) (simp add: Let_def)
qed

text \<open>Property C23. The two parallel sections commute: sorting the right half first and the left
  half then gives the same array, since each reads and writes its own half only; the halves have fewer
  than \<open>2 ^ 31\<close> elements.\<close>

theorem sections_commute:
  assumes "left \<le> mid" "mid \<le> right" "right \<le> length a" "mid - left < 2 ^ 31" "right - mid < 2 ^ 31"
  shows "do { a \<leftarrow> merge_sort a left mid; merge_sort a mid right }
    = do { a \<leftarrow> merge_sort a mid right; merge_sort a left mid }"
proof -
  define us xs ys zs where "us = take left a" and "xs = take (mid - left) (drop left a)"
    and "ys = take (right - mid) (drop mid a)" and "zs = drop right a"
  have "drop left a = xs @ drop mid a" "drop mid a = ys @ zs"
    using assms unfolding xs_def ys_def zs_def
    by (metis append_take_drop_id drop_drop le_add_diff_inverse2)+
  then have a: "a = us @ xs @ ys @ zs" unfolding us_def by (metis append_take_drop_id)
  have l: "length us = left" "length xs = mid - left" "length ys = right - mid"
    using assms by (simp_all add: us_def xs_def ys_def)
  have m: "mid = length us + length xs" "right = length us + length xs + length ys" using l assms by simp_all
  have b: "length xs < 2 ^ 31" "length ys < 2 ^ 31" using l assms(4,5) by simp_all
  have 1: "merge_sort (us @ xs @ vs) left mid = Some (us @ sort xs @ vs)" for vs
    using merge_sort_range [OF b(1), of us vs] m l(1) by simp
  have 2: "merge_sort (us @ vs @ ys @ zs) mid right = Some (us @ vs @ sort ys @ zs)"
    if "length vs = length xs" for vs
    using merge_sort_range [OF b(2), of "us @ vs" zs] that m by simp
  show ?thesis unfolding a 1 Option.bind.bind_lunit 2 [OF refl] 2 [OF length_sort] ..
qed

theorem sections_commute_witness:
  "do { a \<leftarrow> merge_sort [4, 2, 3, 1] 0 2; merge_sort a 2 4 }
    = do { a \<leftarrow> merge_sort [4, 2, 3, 1] 2 4; merge_sort a 0 2 }"
  by (rule sections_commute) simp_all

text \<open>Property C24. The program sorts its input: for \<open>n\<close> followed by at least \<open>n\<close> numbers, all of
  type \<open>int\<close>, the output is the sorted list of the first \<open>n\<close> of them.\<close>

theorem main_sort_sorts:
  assumes "0 \<le> n" "nat n \<le> length xs" "in_int32 n" "\<forall>x \<in> set (take (nat n) xs). in_int32 x"
  shows "\<exists>out. main_sort (n # xs) = Some (Inr out) \<and> sorted out \<and> mset out = mset (take (nat n) xs)"
proof -
  have n: "nearest_int n = n" using assms(3) by (simp add: nearest_int_def in_int32_def)
  have "nat n < 2 ^ 31" using assms(1,3) by (simp add: in_int32_def INT_MAX_def nat_less_iff)
  then show ?thesis using assms n read_ints_all [OF assms(2,4)] merge_sort_split [of 0 "nat n" "take (nat n) xs"] by simp
qed

theorem main_sort_sorts_witness:
  "\<exists>out. main_sort [3, 5, 1, 4] = Some (Inr out) \<and> sorted out \<and> mset out = {#5, 1, 4#}"
  using main_sort_sorts [of 3 "[5, 1, 4]"] by (simp add: in_int32_def INT_MIN_def INT_MAX_def)

text \<open>A number that is not an \<open>int\<close> spoils what follows it, and is changed when it is the last one.\<close>

lemma main_sort_large:
  "main_sort [2, 3000000000, 1] = None" "main_sort [2, 1, 3000000000] = Some (Inr [1, 2147483647])"
proof -
  have "merge_sort [1, 2147483647] 0 2 = Some [1, 2147483647]"
    using merge_sort_split [of 0 2 "[1, 2147483647]"] by simp
  then show "main_sort [2, 3000000000, 1] = None" "main_sort [2, 1, 3000000000] = Some (Inr [1, 2147483647])"
    by (simp_all add: in_int32_def nearest_int_def INT_MIN_def INT_MAX_def numeral_2_eq_2)
qed

end
