(* ===== verification/Message.thy ===== *)
theory Message
  imports Prelude
begin

text \<open>
  Model of the receiving side of the chat protocol, \<^verbatim>\<open>src/p2/message.h\<close>,
  \<^verbatim>\<open>src/p2/message.cpp\<close> and \<^verbatim>\<open>src/p2/messagereceiver.cpp\<close>: a message is a header of four
  bytes with its length and then its bytes, and a \<open>Message\<close> object is fed with whatever
  pieces the socket delivers.

  The fixed arrays \<open>cur_part\<close>, \<open>add_part\<close> (2048) and \<open>tmp_buf\<close> (1024) are kept with their
  capacities: a \<open>memcpy\<close> past the end is undefined (\<^const>\<open>None\<close>). Members that the
  constructor leaves uninitialised are an arbitrary initial object.
\<close>

section \<open>The length header\<close>

text \<open>\<open>*((uint32_t *)buf) = size\<close> and back, on a little-endian machine.\<close>

definition put32 :: "nat \<Rightarrow> byte list" where
  "put32 n = map (\<lambda>i. word_of_nat (n div 256 ^ i)) [0..<4]"

definition get32 :: "byte list \<Rightarrow> nat" where
  "get32 bs = foldr (\<lambda>b acc. unat b + 256 * acc) bs 0"

lemma length_put32 [simp]: "length (put32 n) = 4"
  by (simp add: put32_def)

lemma get32_put32: "get32 (put32 n) = n mod 2 ^ 32"
proof -
  have l: "[0..<4] = [0, 1, 2, 3]" by (simp add: upt_rec)
  have "get32 (put32 n) = n mod 256 + 256 * (n div 256 mod 256 + 256 * (n div 65536 mod 256
      + 256 * (n div 16777216 mod 256)))"
    by (simp add: get32_def put32_def unat_byte l)
  also have "\<dots> = n mod 4294967296"
    using mod_mult2_eq [of n 256 16777216] mod_mult2_eq [of "n div 256" 256 65536]
      mod_mult2_eq [of "n div 65536" 256 256] div_mult2_eq [of n 256 256] div_mult2_eq [of n 65536 256]
    by simp
  finally show ?thesis by simp
qed

lemma get32_less: "get32 bs < 256 ^ length bs"
proof (induction bs)
  case Nil
  then show ?case by (simp add: get32_def)
next
  case (Cons b bs)
  have "unat b < 256" using unsigned_less [where 'a = nat and 'b = 8, of b] by simp
  moreover have "get32 bs + 1 \<le> 256 ^ length bs" using Cons by simp
  then have "256 * get32 bs + 256 \<le> 256 * 256 ^ length bs" by linarith
  ultimately show ?case by (simp add: get32_def)
qed

section \<open>Message\<close>

type_synonym buffer = "nat \<Rightarrow> byte"

definition buf_put :: "nat \<Rightarrow> buffer \<Rightarrow> nat \<Rightarrow> byte list \<Rightarrow> buffer option" where
  "buf_put cap b off xs =
     (if off + length xs \<le> cap then Some (\<lambda>i. if off \<le> i \<and> i < off + length xs then xs ! (i - off) else b i)
      else None)"

definition buf_get :: "buffer \<Rightarrow> nat \<Rightarrow> nat \<Rightarrow> byte list" where
  "buf_get b off n = map b [off..<off + n]"

record Message =
  have_count :: bool
  len_msg :: nat
  cur_len :: size_t
  cur_part :: buffer
  cur_message :: "byte list"
  have_part_next_msg :: bool
  len_add_part :: size_t
  add_part :: buffer

text \<open>\<open>cur_message += cur_part\<close> appends a C string: the bytes before the first zero.\<close>

definition c_string :: "buffer \<Rightarrow> nat \<Rightarrow> byte list" where
  "c_string b n = takeWhile (\<lambda>x. x \<noteq> 0) (buf_get b 0 n)"

definition add_to_cur_msg :: "Message \<Rightarrow> byte list \<Rightarrow> nat \<Rightarrow> Message option" where
  "add_to_cur_msg s buf len = do {
     b \<leftarrow> buf_put 2048 (cur_part s) 0 (take len buf);
     b \<leftarrow> buf_put 2048 b len [0];
     Some (s\<lparr>cur_part := b, cur_len := sz_add (cur_len s) len, cur_message := cur_message s @ c_string b len\<rparr>)
   }"

text \<open>\<open>add_part_msg\<close> once the header is known, and in general.\<close>

definition add_part_counted :: "Message \<Rightarrow> byte list \<Rightarrow> Message option" where
  "add_part_counted s buf =
     (let len = length buf in
      if sz_add (cur_len s) len \<le> len_msg s then do {
        s \<leftarrow> add_to_cur_msg s buf len;
        Some (s\<lparr>have_part_next_msg := False\<rparr>)
      } else do {
        let delta_len = sz_sub (len_msg s) (cur_len s);
        s \<leftarrow> add_to_cur_msg s buf delta_len;
        let buf = drop delta_len buf;
        let len = sz_sub len delta_len;
        let s = s\<lparr>have_part_next_msg := True\<rparr>;
        b \<leftarrow> buf_put 2048 (add_part s) 0 buf;
        Some (s\<lparr>add_part := b, len_add_part := len\<rparr>)
      })"

definition add_part_msg :: "Message \<Rightarrow> byte list \<Rightarrow> Message option" where
  "add_part_msg s buf =
     (if have_count s then add_part_counted s buf
      else do {
        b \<leftarrow> buf_put 2048 (cur_part s) (cur_len s) buf;
        let s = s\<lparr>cur_part := b, cur_len := sz_add (cur_len s) (length buf)\<rparr>;
        if cur_len s > 4 then do {
          let s = s\<lparr>len_msg := get32 (buf_get (cur_part s) 0 4), have_count := True\<rparr>;
          let tmp_len = cur_len s - 4;
          let s = s\<lparr>cur_len := 0, cur_message := []\<rparr>;
          _ \<leftarrow> (if tmp_len \<le> 1024 then Some () else None);
          let tmp_buf = buf_get (cur_part s) 4 tmp_len;
          add_part_counted s tmp_buf
        } else Some s
      })"

definition initialise :: "Message \<Rightarrow> byte list \<Rightarrow> Message option" where
  "initialise s buf =
     add_part_msg (s\<lparr>cur_message := [], cur_len := 0, have_count := False, have_part_next_msg := False\<rparr>) buf"

definition have_full_message :: "Message \<Rightarrow> bool" where
  "have_full_message s = (if have_count s \<and> len_msg s = cur_len s then True else False)"

text \<open>Each further turn of \<open>get_message\<close> works on fewer left-over bytes.\<close>

definition turn_size :: "Message \<Rightarrow> nat" where
  "turn_size s = (if have_count s then (if have_part_next_msg s then len_add_part s + 2 else 1) else 0)"

lemma add_to_cur_msg_sel:
  assumes "add_to_cur_msg s buf len = Some s'"
  shows "have_count s' = have_count s" "len_add_part s' = len_add_part s" "len_msg s' = len_msg s"
    "have_part_next_msg s' = have_part_next_msg s"
  using assms by (auto simp: add_to_cur_msg_def bind_eq_Some_conv)

lemma buf_put_bound: "buf_put cap b off xs = Some b' \<Longrightarrow> off + length xs \<le> cap"
  by (simp add: buf_put_def split: if_splits)

lemma add_part_counted_rest:
  assumes "add_part_counted s buf = Some s'" "cur_len s = 0" "length buf < SZ" "have_part_next_msg s'"
  shows "len_add_part s' \<le> length buf"
proof (cases "length buf \<le> len_msg s")
  case True
  then show ?thesis using assms by (auto simp: add_part_counted_def bind_eq_Some_conv sz_simps)
next
  case False
  then have "sz_sub (len_msg s) 0 = len_msg s" "sz_sub (length buf) (len_msg s) = length buf - len_msg s"
    using assms(3) by (simp_all add: sz_simps)
  then show ?thesis using False assms
    by (auto simp: add_part_counted_def bind_eq_Some_conv sz_simps Let_def)
qed

lemma initialise_turn:
  assumes "initialise s buf = Some s'"
  shows "turn_size s' < length buf + 2"
proof (cases "have_count s' \<and> have_part_next_msg s'")
  case True
  let ?s = "s\<lparr>cur_message := [], cur_len := 0, have_count := False, have_part_next_msg := False\<rparr>"
  obtain b where b: "buf_put 2048 (cur_part s) 0 buf = Some b"
    using assms by (auto simp: initialise_def add_part_msg_def bind_eq_Some_conv)
  note lb = buf_put_bound [OF b]
  have e: "sz_add 0 (length buf) = length buf" using lb by (simp add: sz_simps SZ_def)
  have big: "4 < length buf"
    using assms True e b by (auto simp: initialise_def add_part_msg_def Let_def split: if_splits)
  then obtain t where t: "add_part_counted t (buf_get b 4 (length buf - 4)) = Some s'" "cur_len t = 0"
    using assms e b by (auto simp: initialise_def add_part_msg_def Let_def bind_eq_Some_conv split: if_splits)
  have "len_add_part s' \<le> length buf - 4"
    using add_part_counted_rest [OF t] True lb by (simp add: buf_get_def SZ_def)
  then show ?thesis using big by (auto simp: turn_size_def)
qed (auto simp: turn_size_def)

function get_message_loop :: "Message \<Rightarrow> byte list list \<Rightarrow> (byte list list \<times> Message) option" where
  "get_message_loop s msgs =
     (if have_count s \<and> len_msg s = cur_len s then do {
        let msgs = msgs @ [cur_message s];
        let t = s\<lparr>have_count := False, cur_len := 0, cur_message := []\<rparr>;
        t \<leftarrow> (if have_part_next_msg t then do {
                _ \<leftarrow> (if len_add_part t \<le> 1024 then Some () else None);
                initialise t (buf_get (add_part t) 0 (len_add_part t))
              } else Some t);
        get_message_loop t msgs
      } else Some (msgs, s))"
  by pat_completeness auto
termination
proof (relation "measure (\<lambda>(s, msgs). turn_size s)", goal_cases)
  case (2 s msgs msgs' t' t)
  show ?case
  proof (cases "have_part_next_msg s")
    case True
    have "turn_size t < len_add_part s + 2"
      using 2 True initialise_turn [of t' "buf_get (add_part t') 0 (len_add_part t')" t] by (auto simp: buf_get_def bind_eq_Some_conv split: if_splits)
    then show ?thesis using 2 True by (simp add: turn_size_def)
  next
    case False
    then show ?thesis using 2 by (auto simp: turn_size_def)
  qed
qed simp

declare get_message_loop.simps [simp del]

definition get_message :: "Message \<Rightarrow> (byte list list \<times> Message) option" where
  "get_message s = get_message_loop s []"

text \<open>The constructor, on an object with arbitrary uninitialised members.\<close>

definition new_Message :: "Message \<Rightarrow> byte list \<Rightarrow> Message option" where
  "new_Message garbage buf = initialise garbage buf"

section \<open>MessageReceiver\<close>

text \<open>
  \<open>messanger\<close> maps sockets to their \<open>Message\<close>; \<open>garbage\<close> is what a new object holds.
  \<open>deleteSockFd\<close> is written as in the code, with its test for a missing entry.
\<close>

type_synonym MessageReceiver = "int \<rightharpoonup> Message"

definition process :: "Message \<Rightarrow> MessageReceiver \<Rightarrow> int \<Rightarrow> byte list \<Rightarrow> (byte list list \<times> MessageReceiver) option" where
  "process garbage r sockfd buf = do {
     s \<leftarrow> (case r sockfd of
             None \<Rightarrow> new_Message garbage buf
           | Some s \<Rightarrow> add_part_msg s buf);
     (msgs, s) \<leftarrow> get_message s;
     Some (msgs, r(sockfd \<mapsto> s))
   }"

definition deleteSockFd :: "MessageReceiver \<Rightarrow> int \<Rightarrow> MessageReceiver" where
  "deleteSockFd r sockfd = (if r sockfd = None then r(sockfd := None) else r)"

lemma deleteSockFd_id: "deleteSockFd r fd = r"
  by (auto simp: deleteSockFd_def)

section \<open>The reference decoder\<close>

text \<open>
  What the receiver is meant to compute: the messages of a byte stream and the bytes of the
  unfinished one. A header is looked at when a fifth byte is there, as in the code.
\<close>

definition complete :: "byte list \<Rightarrow> bool" where
  "complete bs \<longleftrightarrow> 4 < length bs \<and> get32 (take 4 bs) \<le> length (drop 4 bs)"

definition body_of :: "byte list \<Rightarrow> byte list" where
  "body_of bs = take (get32 (take 4 bs)) (drop 4 bs)"

definition after_body :: "byte list \<Rightarrow> byte list" where
  "after_body bs = drop (get32 (take 4 bs)) (drop 4 bs)"

function decode :: "byte list \<Rightarrow> byte list list \<times> byte list" where
  "decode bs =
     (if complete bs then
        (let (msgs, rest) = decode (after_body bs) in (body_of bs # msgs, rest))
      else ([], bs))"
  by pat_completeness auto
termination by (relation "measure length") (auto simp: complete_def after_body_def)

declare decode.simps [simp del]

lemma decode_complete: "complete bs \<Longrightarrow>
    decode bs = (body_of bs # fst (decode (after_body bs)), snd (decode (after_body bs)))"
  by (subst decode.simps) (simp add: case_prod_unfold Let_def)

lemma decode_incomplete: "\<not> complete bs \<Longrightarrow> decode bs = ([], bs)"
  by (subst decode.simps) simp

lemma complete_append: "complete bs \<Longrightarrow> complete (bs @ cs)"
  by (auto simp: complete_def)

lemma after_body_append: "complete bs \<Longrightarrow> after_body (bs @ cs) = after_body bs @ cs"
  by (simp add: complete_def after_body_def)

lemma body_of_append: "complete bs \<Longrightarrow> body_of (bs @ cs) = body_of bs"
  by (simp add: complete_def body_of_def)

text \<open>Decoding in pieces is decoding at once.\<close>

lemma decode_append:
  "decode (bs @ cs) = (fst (decode bs) @ fst (decode (snd (decode bs) @ cs)), snd (decode (snd (decode bs) @ cs)))"
proof (induction bs rule: decode.induct)
  case (1 bs)
  show ?case
  proof (cases "complete bs")
    case True
    then show ?thesis using 1 [OF True]
      by (simp add: decode_complete complete_append after_body_append body_of_append)
  next
    case False
    then show ?thesis by (simp add: decode_incomplete)
  qed
qed

lemma decode_rest_incomplete: "\<not> complete (snd (decode bs))"
proof (induction bs rule: decode.induct)
  case (1 bs)
  then show ?case by (cases "complete bs") (simp_all add: decode_complete decode_incomplete)
qed

text \<open>Streams without a zero byte in a body, so that C strings carry the bodies whole.\<close>

function clean :: "byte list \<Rightarrow> bool" where
  "clean bs \<longleftrightarrow> (4 < length bs \<longrightarrow> 0 \<notin> set (body_of bs)) \<and> (complete bs \<longrightarrow> clean (after_body bs))"
  by pat_completeness auto
termination by (relation "measure length") (auto simp: complete_def after_body_def)

declare clean.simps [simp del]

definition frame :: "byte list \<Rightarrow> byte list" where
  "frame m = put32 (length m) @ m"

lemma frame_split:
  assumes "length m < 2 ^ 32"
  shows "get32 (take 4 (frame m @ cs)) = length m" "drop 4 (frame m @ cs) = m @ cs"
  using assms by (simp_all add: frame_def get32_put32)

lemma decode_frame:
  assumes "length m < 2 ^ 32" "m @ cs \<noteq> []"
  shows "decode (frame m @ cs) = (m # fst (decode cs), snd (decode cs))"
proof -
  have "0 < length m + length cs" using assms(2) by auto
  then have "4 < length (frame m @ cs)" by (simp add: frame_def)
  then have "complete (frame m @ cs)" "body_of (frame m @ cs) = m" "after_body (frame m @ cs) = cs"
    unfolding complete_def body_of_def after_body_def frame_split [OF assms(1)] by simp_all
  then show ?thesis by (simp add: decode_complete)
qed

lemma decode_frames:
  assumes "\<forall>m \<in> set ms. m \<noteq> [] \<and> length m < 2 ^ 32"
  shows "decode (concat (map frame ms)) = (ms, [])"
  using assms
proof (induction ms)
  case Nil
  then show ?case by (simp add: decode_incomplete complete_def)
next
  case (Cons m ms)
  then show ?case using decode_frame [of m "concat (map frame ms)"] by simp
qed

lemma clean_frames:
  assumes "\<forall>m \<in> set ms. m \<noteq> [] \<and> 0 \<notin> set m \<and> length m < 2 ^ 32"
  shows "clean (concat (map frame ms))"
  using assms
proof (induction ms)
  case Nil
  then show ?case by (subst clean.simps) (simp add: complete_def)
next
  case (Cons m ms)
  let ?bs = "frame m @ concat (map frame ms)"
  have m: "length m < 2 ^ 32" using Cons.prems by simp
  have "body_of ?bs = m" "after_body ?bs = concat (map frame ms)"
    using frame_split [OF m, of "concat (map frame ms)"] by (simp_all add: body_of_def after_body_def)
  then show ?case using Cons by (subst clean.simps) simp
qed

section \<open>The object against the decoder\<close>

text \<open>
  \<open>holds s bs\<close>: the object has taken in the bytes \<open>bs\<close> that follow the last delivered message,
  with what exceeds the current message kept in \<open>add_part\<close>.
\<close>

definition holds :: "Message \<Rightarrow> byte list \<Rightarrow> bool" where
  "holds s bs \<longleftrightarrow>
     (if length bs \<le> 4 then
        \<not> have_count s \<and> \<not> have_part_next_msg s \<and> cur_len s = length bs \<and> buf_get (cur_part s) 0 (length bs) = bs
      else have_count s \<and> len_msg s = get32 (take 4 bs) \<and> cur_message s = body_of bs
        \<and> cur_len s = length (body_of bs) \<and> have_part_next_msg s = (len_msg s < length (drop 4 bs))
        \<and> (have_part_next_msg s \<longrightarrow> len_add_part s = length (after_body bs)
             \<and> buf_get (add_part s) 0 (length (after_body bs)) = after_body bs))"

lemma buf_get_put:
  assumes "buf_put cap b off xs = Some b'"
  shows "buf_get b' off (length xs) = xs" "off = k \<Longrightarrow> buf_get b' 0 k = buf_get b 0 k"
    "buf_get b' 0 (off + length xs) = buf_get b 0 off @ xs"
proof -
  have b': "b' = (\<lambda>i. if off \<le> i \<and> i < off + length xs then xs ! (i - off) else b i)"
    using assms by (simp add: buf_put_def split: if_splits)
  show 1: "buf_get b' off (length xs) = xs"
    by (rule nth_equalityI) (simp_all add: b' buf_get_def)
  show "off = k \<Longrightarrow> buf_get b' 0 k = buf_get b 0 k" by (simp add: b' buf_get_def)
  show "buf_get b' 0 (off + length xs) = buf_get b 0 off @ xs"
    by (rule nth_equalityI) (auto simp: b' buf_get_def nth_append)
qed

lemma buf_put_Some: "off + length xs \<le> cap \<Longrightarrow> \<exists>b'. buf_put cap b off xs = Some b'"
  by (simp add: buf_put_def)

lemma length_buf_get [simp]: "length (buf_get b off n) = n"
  by (simp add: buf_get_def)

lemma add_to_cur_msg_ok:
  assumes "len \<le> length buf" "len < 2048" "cur_len s + len < SZ" "0 \<notin> set (take len buf)"
  shows "\<exists>b. add_to_cur_msg s buf len = Some (s\<lparr>cur_part := b, cur_len := cur_len s + len,
    cur_message := cur_message s @ take len buf\<rparr>)"
proof -
  have l: "length (take len buf) = len" using assms(1) by simp
  obtain b where b: "buf_put 2048 (cur_part s) 0 (take len buf) = Some b"
    using assms(2) l by (auto simp: buf_put_def)
  obtain b' where b': "buf_put 2048 b len [0] = Some b'" using assms(2) by (auto simp: buf_put_def)
  have "buf_get b' 0 len = take len buf"
    using buf_get_put(2) [OF b', of len] buf_get_put(1) [OF b] l by simp
  moreover have tw: "takeWhile (\<lambda>x. x \<noteq> 0) (take len buf) = take len buf"
    using assms(4) by (auto simp: takeWhile_eq_all_conv)
  ultimately show ?thesis using b b' assms(3)
    by (intro exI [of _ b']) (simp add: add_to_cur_msg_def c_string_def sz_simps tw)
qed

lemma add_part_counted_holds:
  assumes s: "have_count s" "len_msg s = get32 (take 4 bs)" "cur_message s = drop 4 bs"
    "cur_len s = length (drop 4 bs)" "length (drop 4 bs) \<le> len_msg s" "4 \<le> length bs"
    and buf: "length buf \<le> 1024" "4 < length (bs @ buf)"
    and c: "0 \<notin> set (body_of (bs @ buf))"
  shows "\<exists>s'. add_part_counted s buf = Some s' \<and> holds s' (bs @ buf)"
proof -
  have "length (take 4 bs) = 4" using s(6) by simp
  then have n: "len_msg s < 2 ^ 32" using s(2) get32_less [of "take 4 bs"] by simp
  have g: "get32 (take 4 (bs @ buf)) = len_msg s" using s(2,6) by simp
  have body: "body_of (bs @ buf) = drop 4 bs @ take (len_msg s - cur_len s) buf"
    unfolding body_of_def g using s by simp
  have rest: "after_body (bs @ buf) = drop (len_msg s - cur_len s) buf"
    unfolding after_body_def g using s by simp
  have sz: "cur_len s + length buf < SZ" "len_msg s < SZ" using s(4,5) n buf by (simp_all add: SZ_def)
  show ?thesis
  proof (cases "cur_len s + length buf \<le> len_msg s")
    case True
    have "0 \<notin> set (take (length buf) buf)" using c True by (auto simp: body)
    then obtain b where "add_to_cur_msg s buf (length buf) = Some (s\<lparr>cur_part := b,
        cur_len := cur_len s + length buf, cur_message := cur_message s @ take (length buf) buf\<rparr>)"
      using add_to_cur_msg_ok [of "length buf" buf s] buf sz by auto
    then show ?thesis using True s buf(2) sz
      by (simp add: add_part_counted_def sz_simps holds_def g body min_def del: take_append) 
  next
    case False
    let ?d = "len_msg s - cur_len s"
    have d: "sz_sub (len_msg s) (cur_len s) = ?d" "sz_sub (length buf) ?d = length buf - ?d" "?d \<le> length buf"
      using False s(4,5) sz by (simp_all add: sz_simps)
    have "0 \<notin> set (take ?d buf)" using c by (auto simp: body)
    then obtain b where a: "add_to_cur_msg s buf ?d = Some (s\<lparr>cur_part := b,
        cur_len := cur_len s + ?d, cur_message := cur_message s @ take ?d buf\<rparr>)"
      using add_to_cur_msg_ok [of ?d buf s] buf sz d by auto
    have "0 + length (drop ?d buf) \<le> 2048" using buf(1) unfolding length_drop by arith
    then obtain b' where b': "buf_put 2048 (add_part s) 0 (drop ?d buf) = Some b'"
      using buf_put_Some by blast
    let ?s' = "s\<lparr>cur_part := b, cur_len := cur_len s + ?d, cur_message := cur_message s @ take ?d buf,
        have_part_next_msg := True, add_part := b', len_add_part := length buf - ?d\<rparr>"
    have f: "(sz_add (cur_len s) (length buf) \<le> len_msg s) = False" using False sz(1) by (simp add: sz_simps)
    have "add_part_counted s buf = Some ?s'"
      unfolding add_part_counted_def Let_def f if_False d(1,2) a Option.bind.bind_lunit
      by (simp add: b')
    moreover have "holds ?s' (bs @ buf)"
    proof -
      have l: "(length (bs @ buf) \<le> 4) = False" using buf(2) by simp
      have n: "len_msg s < length (drop 4 (bs @ buf))" using False s(4,6) by simp
      have lb: "length (body_of (bs @ buf)) = len_msg s" using n by (simp add: body_of_def g del: take_append)
      have cl: "cur_len s + ?d = len_msg s" using s(4,5) by simp
      have la: "length (after_body (bs @ buf)) = length buf - ?d" by (simp add: rest)
      have bg: "buf_get b' 0 (length buf - ?d) = after_body (bs @ buf)"
        using buf_get_put(1) [OF b'] by (simp only: rest length_drop)
      show ?thesis unfolding holds_def l if_False g lb la
        using n s(1) bg cl by (simp add: s(3) body del: drop_append length_drop)
    qed
    ultimately show ?thesis by blast
  qed
qed

lemma add_part_msg_holds:
  assumes h: "holds s bs" and i: "\<not> complete bs" and buf: "length buf \<le> 1024"
    and c: "4 < length (bs @ buf) \<Longrightarrow> 0 \<notin> set (body_of (bs @ buf))"
  shows "\<exists>s'. add_part_msg s buf = Some s' \<and> holds s' (bs @ buf)"
proof (cases "4 < length bs")
  case True
  then have "length (drop 4 bs) < get32 (take 4 bs)" using i by (simp add: complete_def)
  moreover from this have "body_of bs = drop 4 bs" by (simp add: body_of_def)
  ultimately show ?thesis using add_part_counted_holds [of s bs buf] True h buf c
    by (simp add: holds_def add_part_msg_def)
next
  case False
  then have s: "\<not> have_count s" "\<not> have_part_next_msg s" "cur_len s = length bs" "buf_get (cur_part s) 0 (length bs) = bs"
    using h by (simp_all add: holds_def)
  obtain b where b: "buf_put 2048 (cur_part s) (length bs) buf = Some b"
    using buf_put_Some [of "length bs" buf 2048] False buf by auto
  have g: "buf_get b 0 (length bs + length buf) = bs @ buf"
    using buf_get_put(3) [OF b] s(4) by simp
  have sz: "sz_add (length bs) (length buf) = length bs + length buf"
    using False buf by (simp add: sz_simps SZ_def)
  show ?thesis
  proof (cases "4 < length (bs @ buf)")
    case small: False
    then show ?thesis using s b g sz by (simp add: add_part_msg_def holds_def)
  next
    case True
    have hd: "buf_get b 0 4 = take 4 (bs @ buf)" and tl: "buf_get b 4 (length bs + length buf - 4) = drop 4 (bs @ buf)"
      unfolding g [symmetric] using True by (simp_all add: buf_get_def take_map drop_map)
    let ?t = "s\<lparr>cur_part := b, len_msg := get32 (take 4 (bs @ buf)), have_count := True, cur_len := 0, cur_message := []\<rparr>"
    have sm: "length bs + length buf - 4 \<le> 1024" using False buf by arith
    have l4: "length (take 4 (bs @ buf)) = 4" using True by simp
    have "\<exists>s'. add_part_counted ?t (drop 4 (bs @ buf)) = Some s' \<and> holds s' (take 4 (bs @ buf) @ drop 4 (bs @ buf))"
      using l4 True False buf c [OF True] by (intro add_part_counted_holds) simp_all
    then obtain s' where "add_part_counted ?t (drop 4 (bs @ buf)) = Some s'" "holds s' (bs @ buf)"
      unfolding append_take_drop_id by blast
    then show ?thesis using s b sz hd tl True sm by (simp add: add_part_msg_def)
  qed
qed

text \<open>Before a header is there, nothing but the received bytes matters.\<close>

lemma initialise_holds:
  assumes "length bs \<le> 1024" "4 < length bs \<Longrightarrow> 0 \<notin> set (body_of bs)"
  shows "\<exists>s'. initialise s bs = Some s' \<and> holds s' bs"
  unfolding initialise_def
  using add_part_msg_holds [of "s\<lparr>cur_message := [], cur_len := 0, have_count := False, have_part_next_msg := False\<rparr>" "[]" bs]
    assms by (simp add: holds_def complete_def buf_get_def)

lemma get_message_loop_decodes:
  assumes "holds s bs" "clean bs" "length (after_body bs) \<le> 1024 \<or> \<not> complete bs"
  shows "\<exists>s'. get_message_loop s msgs = Some (msgs @ fst (decode bs), s') \<and> holds s' (snd (decode bs))"
  using assms
proof (induction bs arbitrary: s msgs rule: decode.induct)
  case (1 bs)
  show ?case
  proof (cases "complete bs")
    case False
    then have e: "(have_count s \<and> len_msg s = cur_len s) = False"
      using 1(2) by (auto simp: holds_def complete_def body_of_def split: if_splits)
    have "get_message_loop s msgs = Some (msgs, s)"
      by (subst get_message_loop.simps) (simp only: e if_False)
    then show ?thesis using 1(2) False by (simp add: decode_incomplete)
  next
    case True
    then have l: "4 < length bs" "length (body_of bs) = get32 (take 4 bs)"
      by (simp_all add: complete_def body_of_def)
    have h: "have_count s" "len_msg s = cur_len s" "cur_message s = body_of bs"
      "have_part_next_msg s \<longleftrightarrow> after_body bs \<noteq> []"
      "after_body bs \<noteq> [] \<Longrightarrow> len_add_part s = length (after_body bs)
        \<and> buf_get (add_part s) 0 (length (after_body bs)) = after_body bs"
      using 1(2) l by (auto simp: holds_def after_body_def)
    have cl: "clean (after_body bs)" using 1(3) True by (subst (asm) clean.simps) simp
    let ?t = "s\<lparr>have_count := False, cur_len := 0, cur_message := []\<rparr>"
    have nx: "\<exists>t. (if have_part_next_msg ?t then do {
            _ \<leftarrow> (if len_add_part ?t \<le> 1024 then Some () else None);
            initialise ?t (buf_get (add_part ?t) 0 (len_add_part ?t)) } else Some ?t) = Some t
        \<and> holds t (after_body bs)"
    proof (cases "after_body bs = []")
      case True
      then show ?thesis using h by (simp add: holds_def buf_get_def)
    next
      case ne: False
      have "4 < length (after_body bs) \<Longrightarrow> 0 \<notin> set (body_of (after_body bs))"
        using cl by (subst (asm) clean.simps) simp
      then show ?thesis using h ne initialise_holds [of "after_body bs" ?t] 1(4) True by simp
    qed
    then obtain t where t: "(if have_part_next_msg ?t then do {
            _ \<leftarrow> (if len_add_part ?t \<le> 1024 then Some () else None);
            initialise ?t (buf_get (add_part ?t) 0 (len_add_part ?t)) } else Some ?t) = Some t"
        "holds t (after_body bs)" by blast
    have "length (after_body (after_body bs)) \<le> 1024" using 1(4) True by (simp add: after_body_def)
    then obtain s' where s': "get_message_loop t (msgs @ [body_of bs])
        = Some ((msgs @ [body_of bs]) @ fst (decode (after_body bs)), s')"
      "holds s' (snd (decode (after_body bs)))"
      using 1(1) [OF True t(2) cl] by blast
    show ?thesis
      using h(1-3) t(1) s' True
      by (subst get_message_loop.simps) (simp add: decode_complete Let_def)
  qed
qed

section \<open>Feeding a stream\<close>

text \<open>A socket's object: absent before the first piece, afterwards holding the unfinished rest.\<close>

definition slot_holds :: "MessageReceiver \<Rightarrow> int \<Rightarrow> byte list \<Rightarrow> bool" where
  "slot_holds r fd bs \<longleftrightarrow> (case r fd of None \<Rightarrow> bs = [] | Some s \<Rightarrow> holds s bs) \<and> \<not> complete bs"

lemma clean_body: "clean bs \<Longrightarrow> 4 < length bs \<Longrightarrow> 0 \<notin> set (body_of bs)"
  by (subst (asm) clean.simps) simp

lemma after_body_small:
  "\<not> complete bs \<Longrightarrow> length buf \<le> 1024 \<Longrightarrow> length (after_body (bs @ buf)) \<le> 1024 \<or> \<not> complete (bs @ buf)"
proof -
  assume i: "\<not> complete bs" and b: "length buf \<le> 1024"
  have "length (after_body (bs @ buf)) \<le> 1024"
  proof (cases "4 < length bs")
    case True
    then have "length bs - 4 < get32 (take 4 bs)" using i by (simp add: complete_def)
    then show ?thesis using b True by (simp add: after_body_def)
  next
    case False
    then have "length (drop 4 (bs @ buf)) \<le> 1024" using b by simp
    then show ?thesis unfolding after_body_def length_drop by arith
  qed
  then show ?thesis ..
qed

lemma process_decodes:
  assumes s: "slot_holds r fd bs" and buf: "length buf \<le> 1024" and c: "clean (bs @ buf)"
  shows "\<exists>r'. process g r fd buf = Some (fst (decode (bs @ buf)), r')
    \<and> slot_holds r' fd (snd (decode (bs @ buf))) \<and> (\<forall>fd'. fd' \<noteq> fd \<longrightarrow> r' fd' = r fd')"
proof -
  have i: "\<not> complete bs" using s by (simp add: slot_holds_def)
  have "\<exists>t. (case r fd of None \<Rightarrow> new_Message g buf | Some s \<Rightarrow> add_part_msg s buf) = Some t \<and> holds t (bs @ buf)"
  proof (cases "r fd")
    case None
    then have "bs = []" using s by (simp add: slot_holds_def)
    then show ?thesis using None initialise_holds [of buf g] buf clean_body [OF c] by (simp add: new_Message_def)
  next
    case (Some s')
    then have "holds s' bs" using s by (simp add: slot_holds_def)
    then show ?thesis using Some add_part_msg_holds [of s' bs buf] i buf clean_body [OF c] by simp
  qed
  then obtain t where t: "(case r fd of None \<Rightarrow> new_Message g buf | Some s \<Rightarrow> add_part_msg s buf) = Some t"
      "holds t (bs @ buf)" by blast
  obtain s' where "get_message t = Some (fst (decode (bs @ buf)), s')" "holds s' (snd (decode (bs @ buf)))"
    using get_message_loop_decodes [OF t(2) c after_body_small [OF i buf], of "[]"] by (auto simp: get_message_def)
  then show ?thesis using t(1) decode_rest_incomplete [of "bs @ buf"]
    by (intro exI [of _ "r(fd \<mapsto> s')"]) (simp add: process_def slot_holds_def)
qed

fun process_all :: "Message \<Rightarrow> MessageReceiver \<Rightarrow> int \<Rightarrow> byte list list \<Rightarrow> (byte list list \<times> MessageReceiver) option" where
  "process_all g r fd [] = Some ([], r)"
| "process_all g r fd (buf # bufs) = do {
     (msgs, r) \<leftarrow> process g r fd buf;
     (more, r) \<leftarrow> process_all g r fd bufs;
     Some (msgs @ more, r)
   }"

lemma clean_append: "clean (bs @ cs) \<Longrightarrow> clean (snd (decode bs) @ cs)"
proof (induction bs rule: decode.induct)
  case (1 bs)
  show ?case
  proof (cases "complete bs")
    case True
    have "clean (after_body bs @ cs)"
      using 1(2) True complete_append [OF True] after_body_append [OF True]
      by (subst (asm) clean.simps) simp
    then show ?thesis using 1(1) [OF True] True by (simp add: decode_complete)
  next
    case False
    then show ?thesis using 1(2) by (simp add: decode_incomplete)
  qed
qed

lemma clean_prefix: "clean (bs @ cs) \<Longrightarrow> clean bs"
proof (induction bs rule: decode.induct)
  case (1 bs)
  have "0 \<notin> set (body_of bs)" if "4 < length bs"
  proof -
    have "0 \<notin> set (body_of (bs @ cs))" using clean_body [OF 1(2)] that by simp
    moreover have "set (body_of bs) \<subseteq> set (body_of (bs @ cs))" using that by (auto simp: body_of_def)
    ultimately show ?thesis by blast
  qed
  moreover have "clean (after_body bs)" if "complete bs"
  proof -
    have "clean (after_body bs @ cs)"
      using 1(2) that complete_append [OF that] after_body_append [OF that]
      by (subst (asm) clean.simps) simp
    then show ?thesis by (rule 1(1) [OF that])
  qed
  ultimately show ?case by (subst clean.simps) simp
qed

lemma process_all_decodes:
  assumes "slot_holds r fd bs" "\<forall>buf \<in> set bufs. length buf \<le> 1024" "clean (bs @ concat bufs)"
  shows "\<exists>r'. process_all g r fd bufs = Some (fst (decode (bs @ concat bufs)), r')
    \<and> slot_holds r' fd (snd (decode (bs @ concat bufs)))"
  using assms
proof (induction bufs arbitrary: r bs)
  case Nil
  then have "decode bs = ([], bs)" by (simp add: slot_holds_def decode_incomplete)
  then show ?case using Nil by simp
next
  case (Cons buf bufs)
  have c: "clean ((bs @ buf) @ concat bufs)" using Cons.prems(3) by simp
  obtain r1 where p: "process g r fd buf = Some (fst (decode (bs @ buf)), r1)"
      "slot_holds r1 fd (snd (decode (bs @ buf)))"
    using process_decodes [OF Cons.prems(1) _ clean_prefix [OF c]] Cons.prems(2) by fastforce
  obtain r2 where q: "process_all g r1 fd bufs = Some (fst (decode (snd (decode (bs @ buf)) @ concat bufs)), r2)"
      "slot_holds r2 fd (snd (decode (snd (decode (bs @ buf)) @ concat bufs)))"
    using Cons.IH [OF p(2) _ clean_append [OF c]] Cons.prems(2) by auto
  show ?case using p(1) q decode_append [of "bs @ buf" "concat bufs"] by simp
qed

section \<open>Properties\<close>

definition blank_Message :: Message where
  "blank_Message = \<lparr>have_count = False, len_msg = 0, cur_len = 0, cur_part = (\<lambda>_. 0), cur_message = [],
     have_part_next_msg = False, len_add_part = 0, add_part = (\<lambda>_. 0)\<rparr>"

text \<open>Property C9. However a stream without zero bytes in its bodies is cut into pieces of at most
  1024 bytes, the receiver runs without overrunning any of its buffers and delivers exactly
  the messages of the stream, in order: the framing does not depend on the cuts.\<close>

theorem receiver_decodes_stream:
  assumes "r fd = None" "\<forall>buf \<in> set bufs. length buf \<le> 1024" "clean (concat bufs)"
  shows "\<exists>r'. process_all g r fd bufs = Some (fst (decode (concat bufs)), r')
    \<and> slot_holds r' fd (snd (decode (concat bufs)))"
  using process_all_decodes [of r fd "[]" bufs g] assms by (simp add: slot_holds_def complete_def)

theorem receiver_decodes_stream_witness:
  "\<exists>r'. process_all blank_Message Map.empty 5 [[2, 0, 0], [0, 104], [105]] = Some (fst (decode [2, 0, 0, 0, 104, 105]), r')"
proof -
  have "clean [2, 0, 0, 0, 104, 105 :: byte]"
    by (subst clean.simps, subst clean.simps) (simp add: complete_def after_body_def body_of_def get32_def)
  then show ?thesis
    using receiver_decodes_stream [of Map.empty 5 "[[2, 0, 0], [0, 104], [105]]" blank_Message] by auto
qed

text \<open>Property C25. Round trip of the protocol: frames of non-empty messages without zero bytes, cut
  anywhere, are received as these messages, with nothing left over.\<close>

theorem frames_round_trip:
  assumes "r fd = None" "\<forall>buf \<in> set bufs. length buf \<le> 1024" "concat bufs = concat (map frame ms)"
    and "\<forall>m \<in> set ms. m \<noteq> [] \<and> 0 \<notin> set m \<and> length m < 2 ^ 32"
  shows "\<exists>r'. process_all g r fd bufs = Some (ms, r') \<and> slot_holds r' fd []"
proof -
  have "decode (concat (map frame ms)) = (ms, [])" using assms(4) by (intro decode_frames) blast
  then show ?thesis
    using process_all_decodes [of r fd "[]" bufs g] assms(1-3) clean_frames [OF assms(4)]
    by (simp add: slot_holds_def complete_def)
qed

theorem frames_round_trip_witness:
  "\<exists>r'. process_all blank_Message Map.empty 5 [[2, 0, 0, 0, 104], [105, 1, 0, 0, 0], [33]] = Some ([[104, 105], [33]], r')"
proof -
  have l: "[0..<4] = [0, 1, 2, 3]" by (simp add: upt_rec)
  have "concat [[2, 0, 0, 0, 104], [105, 1, 0, 0, 0], [33]] = concat (map frame [[104, 105], [33 :: byte]])"
    by (simp add: frame_def put32_def l)
  from frames_round_trip [OF _ _ this, of Map.empty 5 blank_Message] show ?thesis by auto
qed

text \<open>Property C39. A message that is already complete in its length is not delivered while it is
  empty and nothing follows: the header of an empty message stays pending until a fifth byte
  arrives, because the code waits for more than four bytes.\<close>

theorem empty_message_waits:
  assumes "r fd = None"
  shows "\<exists>r'. process g r fd (frame []) = Some ([], r') \<and> slot_holds r' fd (frame [])"
proof -
  have e: "decode (frame []) = ([], frame [])" by (rule decode_incomplete) (simp add: complete_def frame_def)
  have "clean (frame [])" by (subst clean.simps) (simp add: complete_def frame_def)
  moreover have "slot_holds r fd []" using assms by (simp add: slot_holds_def complete_def)
  ultimately show ?thesis using process_decodes [of r fd "[]" "frame []" g] e
    by (simp add: frame_def) blast
qed

theorem empty_message_waits_witness:
  "\<exists>r'. process blank_Message Map.empty 5 (frame []) = Some ([], r')"
  using empty_message_waits [of Map.empty 5 blank_Message] by auto

text \<open>\<open>deleteSockFd\<close> of the receiver never removes anything: its test is for a missing
  entry, so the half-received message of a closed socket is still there when the number is
  used again.\<close>

theorem receiver_delete_keeps: "deleteSockFd r fd = r"
  by (rule deleteSockFd_id)

end
