(* ===== verification/Message_Send.thy ===== *)
theory Message_Send
  imports Message
begin

text \<open>
  Model of the sending side of the chat protocol, \<^verbatim>\<open>src/p2/messageforsend.cpp\<close> and
  \<^verbatim>\<open>src/p2/messagesender.cpp\<close>: a byte queue in blocks of 1024 bytes, filled with frames and
  emptied by whatever \<open>send\<close> accepts. A \<open>memcpy\<close> past a block is undefined (\<^const>\<open>None\<close>);
  the bytes of a new block that are not written are indeterminate in C++ and zero here.
\<close>

section \<open>MessageForSend\<close>

record MessageForSend =
  bitlist :: "byte list list"
  count :: size_t
  beg_offset :: size_t
  end_offset :: size_t
  need_write :: bool

definition new_MessageForSend :: MessageForSend where
  "new_MessageForSend = \<lparr>bitlist = [], count = 0, beg_offset = 0, end_offset = 0, need_write = False\<rparr>"

definition block_write :: "byte list \<Rightarrow> nat \<Rightarrow> byte list \<Rightarrow> byte list option" where
  "block_write blk off xs =
     (if off + length xs \<le> length blk then Some (take off blk @ xs @ drop (off + length xs) blk) else None)"

definition fresh_block :: "byte list \<Rightarrow> byte list" where
  "fresh_block xs = xs @ replicate (1024 - length xs) 0"

text \<open>The \<open>while\<close> loop of \<open>add_message\<close>: whole blocks of the message.\<close>

function push_blocks :: "byte list \<Rightarrow> nat \<Rightarrow> byte list list \<Rightarrow> nat \<times> byte list list" where
  "push_blocks buf offset bl =
     (if offset + 1024 \<le> length buf
      then push_blocks buf (offset + 1024) (bl @ [fresh_block (take 1024 (drop offset buf))])
      else (offset, bl))"
  by pat_completeness auto
termination by (relation "measure (\<lambda>(buf, offset, bl). length buf - offset)") auto

declare push_blocks.simps [simp del]

definition add_message :: "MessageForSend \<Rightarrow> byte list \<Rightarrow> MessageForSend option" where
  "add_message s message = do {
     let buf = put32 (length message) @ message;
     let size_message = length message + 4;
     (offset, s) \<leftarrow>
       (if bitlist s \<noteq> [] then
          if end_offset s + size_message \<le> 1024 then do {
            blk \<leftarrow> block_write (last (bitlist s)) (end_offset s) buf;
            Some (size_message,
              s\<lparr>bitlist := butlast (bitlist s) @ [blk], end_offset := end_offset s + size_message\<rparr>)
          } else do {
            blk \<leftarrow> block_write (last (bitlist s)) (end_offset s) (take (1024 - end_offset s) buf);
            Some (1024 - end_offset s, s\<lparr>bitlist := butlast (bitlist s) @ [blk]\<rparr>)
          }
        else Some (0, s));
     let (offset, bl) = push_blocks buf offset (bitlist s);
     let s = s\<lparr>bitlist := bl\<rparr>;
     let s = (if offset \<noteq> size_message
              then s\<lparr>end_offset := size_message - offset, bitlist := bitlist s @ [fresh_block (drop offset buf)]\<rparr>
              else s);
     Some (s\<lparr>count := sz_add (count s) size_message\<rparr>)
   }"

definition getbitarray :: "MessageForSend \<Rightarrow> nat \<Rightarrow> byte list option" where
  "getbitarray s len =
     (let len = (if len > count s then count s else len) in
      if len = 0 then Some []
      else case bitlist s of
        [] \<Rightarrow> None
      | blk # bl \<Rightarrow>
          if beg_offset s + len \<le> 1024 then Some (take len (drop (beg_offset s) blk))
          else (case bl of
              [] \<Rightarrow> None
            | blk2 # _ \<Rightarrow>
                let offset = 1024 - beg_offset s in
                if len - offset \<le> length blk2
                then Some (take offset (drop (beg_offset s) blk) @ take (len - offset) blk2)
                else None))"

definition erase :: "MessageForSend \<Rightarrow> nat \<Rightarrow> MessageForSend option" where
  "erase s len = do {
     s \<leftarrow>
       (if beg_offset s + len < 1024 then Some (s\<lparr>beg_offset := beg_offset s + len\<rparr>)
        else case bitlist s of
          [] \<Rightarrow> None
        | blk # bl \<Rightarrow>
            let delta = 1024 - beg_offset s
            in Some (s\<lparr>bitlist := bl, beg_offset := sz_sub len delta\<rparr>));
     Some (s\<lparr>count := sz_sub (count s) len\<rparr>)
   }"

section \<open>The queue\<close>

definition queue :: "MessageForSend \<Rightarrow> byte list" where
  "queue s = drop (beg_offset s) (take (beg_offset s + count s) (concat (bitlist s)))"

definition send_ok :: "MessageForSend \<Rightarrow> bool" where
  "send_ok s \<longleftrightarrow> (\<forall>b \<in> set (bitlist s). length b = 1024) \<and> beg_offset s < 1024 \<and> count s < SZ
     \<and> (if bitlist s = [] then beg_offset s = 0 \<and> count s = 0
        else end_offset s \<le> 1024 \<and> beg_offset s + count s = 1024 * (length (bitlist s) - 1) + end_offset s)"

lemma length_blocks: "\<forall>b \<in> set bl. length b = 1024 \<Longrightarrow> length (concat bl) = 1024 * length bl"
  by (induction bl) auto

lemma send_ok_total:
  assumes "send_ok s"
  shows "beg_offset s + count s \<le> length (concat (bitlist s))"
  using assms length_blocks [of "bitlist s"]
  by (cases "bitlist s") (auto simp: send_ok_def)

lemma length_queue: "send_ok s \<Longrightarrow> length (queue s) = count s"
  using send_ok_total [of s] by (simp add: queue_def)

lemma new_MessageForSend_ok: "send_ok new_MessageForSend" "queue new_MessageForSend = []"
  by (simp_all add: new_MessageForSend_def send_ok_def queue_def)

lemma getbitarray_ok:
  assumes s: "send_ok s" and len: "len \<le> 1024"
  shows "getbitarray s len = Some (take len (queue s))"
proof -
  define n where "n = (if len > count s then count s else len)"
  have n: "n = min len (count s)" "n \<le> 1024" "n \<le> count s" using len by (auto simp: n_def)
  have q: "take len (queue s) = take n (queue s)" using length_queue [OF s] by (simp add: n(1) min_def)
  show ?thesis
  proof (cases "n = 0")
    case True
    then show ?thesis using n by (simp add: getbitarray_def n_def [symmetric] q)
  next
    case False
    then obtain blk bl where b: "bitlist s = blk # bl"
      using s n(3) by (cases "bitlist s") (auto simp: send_ok_def)
    have l: "length blk = 1024" "beg_offset s < 1024" "\<forall>b \<in> set bl. length b = 1024"
      using s by (auto simp: send_ok_def b)
    have t: "take n (queue s) = take n (drop (beg_offset s) (concat (bitlist s)))"
      using n(3) by (simp add: queue_def take_drop min_def)
    show ?thesis
    proof (cases "beg_offset s + n \<le> 1024")
      case True
      then show ?thesis using False l by (simp add: getbitarray_def n_def [symmetric] b q t)
    next
      case two: False
      then have "bl \<noteq> []" using s n(3) by (auto simp: send_ok_def b)
      then obtain blk2 bl' where bl: "bl = blk2 # bl'" by (cases bl) auto
      have "length blk2 = 1024" using l(3) by (simp add: bl)
      then show ?thesis using False two l n(2)
        by (simp add: getbitarray_def n_def [symmetric] b bl q t Let_def add.commute)
    qed
  qed
qed

lemma erase_ok:
  assumes s: "send_ok s" and len: "len \<le> 1024" "len \<le> count s"
  shows "\<exists>s'. erase s len = Some s' \<and> send_ok s' \<and> queue s' = drop len (queue s) \<and> need_write s' = need_write s"
proof (cases "beg_offset s + len < 1024")
  case True
  let ?s = "s\<lparr>beg_offset := beg_offset s + len, count := count s - len\<rparr>"
  have "erase s len = Some ?s"
    using True len s by (simp add: erase_def sz_simps send_ok_def)
  moreover have "queue ?s = drop len (queue s)" using len by (simp add: queue_def add.commute)
  moreover have "send_ok ?s" using s True len by (auto simp: send_ok_def)
  ultimately show ?thesis by auto
next
  case False
  then obtain blk bl where b: "bitlist s = blk # bl"
    using s len by (cases "bitlist s") (auto simp: send_ok_def)
  have l: "length blk = 1024" "beg_offset s < 1024" "\<forall>b \<in> set bl. length b = 1024" "count s < SZ"
    using s by (auto simp: send_ok_def b)
  let ?d = "len - (1024 - beg_offset s)"
  let ?s = "s\<lparr>bitlist := bl, beg_offset := ?d, count := count s - len\<rparr>"
  have "erase s len = Some ?s"
    using False len l by (simp add: erase_def b sz_simps)
  moreover have "queue ?s = drop len (queue s)"
  proof -
    let ?X = "concat bl"
    have e: "?d = len + beg_offset s - 1024" "len + beg_offset s - 1024 + (count s - len) = beg_offset s + count s - 1024"
      using False len l by simp_all
    have t: "take (beg_offset s + count s) (blk @ ?X) = blk @ take (beg_offset s + count s - 1024) ?X"
      using False len l(1) by simp
    have "drop len (queue s) = drop (len + beg_offset s - 1024) (take (beg_offset s + count s - 1024) ?X)"
      by (simp only: queue_def b concat.simps t drop_drop) (use False l(1) in simp)
    moreover have "queue ?s = drop (len + beg_offset s - 1024) (take (beg_offset s + count s - 1024) ?X)"
      by (simp add: queue_def e del: take_append)
    ultimately show ?thesis by simp
  qed
  moreover have "send_ok ?s" using s False len l by (cases bl) (auto simp: send_ok_def b)
  ultimately show ?thesis by auto
qed

definition pushed :: "byte list \<Rightarrow> nat \<Rightarrow> byte list list \<Rightarrow> nat \<Rightarrow> byte list list \<Rightarrow> bool" where
  "pushed buf off bl off' bl' \<longleftrightarrow> off \<le> off' \<and> off' \<le> length buf
     \<and> concat bl' = concat bl @ take (off' - off) (drop off buf)
     \<and> (\<forall>b \<in> set bl'. length b = 1024) \<and> (bl \<noteq> [] \<longrightarrow> bl' \<noteq> [])
     \<and> length buf - off' = (length buf - off) mod 1024"

lemma push_blocks_ok:
  assumes "off \<le> length buf" "\<forall>b \<in> set bl. length b = 1024"
  shows "\<exists>off' bl'. push_blocks buf off bl = (off', bl') \<and> pushed buf off bl off' bl'"
  using assms
proof (induction buf off bl rule: push_blocks.induct)
  case (1 buf off bl)
  show ?case
  proof (cases "off + 1024 \<le> length buf")
    case True
    let ?b = "fresh_block (take 1024 (drop off buf))"
    have b: "?b = take 1024 (drop off buf)" "length ?b = 1024" using True by (simp_all add: fresh_block_def)
    have "\<forall>x \<in> set (bl @ [?b]). length x = 1024" using 1(3) b(2) by auto
    from 1(1) [OF True True this] obtain off' bl' where
      r: "push_blocks buf (off + 1024) (bl @ [?b]) = (off', bl')" "pushed buf (off + 1024) (bl @ [?b]) off' bl'"
      by blast
    have le: "off + 1024 \<le> off'" using r(2) by (simp add: pushed_def)
    have e: "off' - off = 1024 + (off' - (off + 1024))" using le by simp
    have "take (off' - off) (drop off buf)
        = take 1024 (drop off buf) @ take (off' - (off + 1024)) (drop (off + 1024) buf)"
      unfolding e take_add drop_drop by (simp add: add.commute)
    moreover have "(length buf - (off + 1024)) mod 1024 = (length buf - off) mod 1024"
      using True le_mod_geq [of 1024 "length buf - off"] by simp
    ultimately have "pushed buf off bl off' bl'" using r(2) b(1) by (simp add: pushed_def)
    moreover have "push_blocks buf off bl = (off', bl')"
      using r(1) True by (subst push_blocks.simps) simp
    ultimately show ?thesis by blast
  next
    case False
    have "push_blocks buf off bl = (off, bl)" using False by (subst push_blocks.simps) simp
    moreover have "pushed buf off bl off bl" using False 1(2,3) by (simp add: pushed_def)
    ultimately show ?thesis by blast
  qed
qed

text \<open>
  The frames the queue can take: the bytes that do not fit into the last block must not fill
  whole blocks exactly, or \<open>end_offset\<close> keeps its old value.
\<close>

definition room_in_last :: "MessageForSend \<Rightarrow> nat" where
  "room_in_last s = (if bitlist s = [] then 0 else 1024 - end_offset s)"

definition off_boundary :: "MessageForSend \<Rightarrow> byte list \<Rightarrow> bool" where
  "off_boundary s m \<longleftrightarrow> length m + 4 \<le> room_in_last s \<or> (length m + 4 - room_in_last s) mod 1024 \<noteq> 0"

text \<open>The data written so far, from the start of the first block.\<close>

lemma concat_last:
  assumes "bl \<noteq> []" "\<forall>b \<in> set bl. length b = 1024" "e \<le> 1024"
  shows "take (1024 * (length bl - 1) + e) (concat bl) = concat (butlast bl) @ take e (last bl)"
proof -
  have e: "bl = butlast bl @ [last bl]" using assms(1) by simp
  have "length (concat (butlast bl)) = 1024 * (length bl - 1)"
    using length_blocks [of "butlast bl"] assms(2) by (auto dest: in_set_butlastD)
  then show ?thesis by (subst e, subst concat_append) simp
qed

lemma write_last:
  assumes s: "send_ok s" "bitlist s \<noteq> []" and xs: "end_offset s + length xs \<le> 1024"
  obtains blk where "block_write (last (bitlist s)) (end_offset s) xs = Some blk" "length blk = 1024"
    "\<And>n. n = length xs \<Longrightarrow> take (beg_offset s + count s + n) (concat (butlast (bitlist s) @ [blk]))
       = take (beg_offset s + count s) (concat (bitlist s)) @ xs"
proof -
  let ?bl = "bitlist s" and ?e = "end_offset s"
  let ?blk = "take ?e (last ?bl) @ xs @ drop (?e + length xs) (last ?bl)"
  have l: "length (last ?bl) = 1024" "\<forall>b \<in> set ?bl. length b = 1024" "?e \<le> 1024"
    using s last_in_set [of ?bl] by (auto simp: send_ok_def)
  have t: "beg_offset s + count s = 1024 * (length ?bl - 1) + ?e" using s by (simp add: send_ok_def)
  have lb: "length (concat (butlast ?bl)) = 1024 * (length ?bl - 1)"
    using length_blocks [of "butlast ?bl"] l(2) by (auto dest: in_set_butlastD)
  have "take (beg_offset s + count s + length xs) (concat (butlast ?bl @ [?blk]))
      = concat (butlast ?bl) @ take ?e (last ?bl) @ xs"
    using l(1,3) xs unfolding t by (simp add: lb)
  also have "\<dots> = take (beg_offset s + count s) (concat ?bl) @ xs"
    unfolding t concat_last [OF s(2) l(2,3)] by simp
  finally show thesis using l xs
    by (intro that [of ?blk]) (simp_all add: block_write_def)
qed

lemma push_rest:
  assumes bl: "\<forall>b \<in> set bl. length b = 1024" "concat bl = D @ take off buf" and off: "off \<le> length buf"
    and nb: "(length buf - off) mod 1024 \<noteq> 0"
  obtains off' bl' where "push_blocks buf off bl = (off', bl')" "off' \<noteq> length buf" "length buf - off' \<le> 1024"
    "\<forall>b \<in> set (bl' @ [fresh_block (drop off' buf)]). length b = 1024"
    "\<exists>junk. concat (bl' @ [fresh_block (drop off' buf)]) = D @ buf @ junk"
    "length D + length buf = 1024 * length bl' + (length buf - off')"
proof -
  obtain off' bl' where p: "push_blocks buf off bl = (off', bl')" "pushed buf off bl off' bl'"
    using push_blocks_ok [OF off bl(1)] by blast
  then have le: "off \<le> off'" "off' \<le> length buf" and c: "concat bl' = concat bl @ take (off' - off) (drop off buf)"
    and l: "\<forall>b \<in> set bl'. length b = 1024" and m: "length buf - off' = (length buf - off) mod 1024"
    by (simp_all add: pushed_def)
  have small: "length buf - off' < 1024" unfolding m by simp
  have "off' = off + (off' - off)" using le by simp
  then have "take off' buf = take off buf @ take (off' - off) (drop off buf)" by (metis take_add)
  then have cD: "concat bl' = D @ take off' buf" using c bl(2) by simp
  then have "concat (bl' @ [fresh_block (drop off' buf)]) = D @ buf @ replicate (1024 - (length buf - off')) 0"
    by (simp add: fresh_block_def)
  then have ex: "\<exists>junk. concat (bl' @ [fresh_block (drop off' buf)]) = D @ buf @ junk" by blast
  moreover have "length D + off' = 1024 * length bl'"
    using arg_cong [OF cD, of length] length_blocks [OF l] le(2) by simp
  then have "length D + length buf = 1024 * length bl' + (length buf - off')" using le(2) by simp
  moreover have "off' \<noteq> length buf" using m nb by auto
  ultimately show thesis using p(1) small l
    by (intro that [of off' bl', OF _ _ _ _ ex]) (auto simp: fresh_block_def)
qed

lemma queue_append:
  fixes w :: bool
  assumes "\<forall>b \<in> set bl. length b = 1024" "bl \<noteq> []" "e \<le> 1024" "beg < 1024"
    and "beg + c = length D" "concat bl = D @ buf @ junk" "n = c + length buf"
    and "length D + length buf = 1024 * (length bl - 1) + e" "n < SZ"
  defines "t \<equiv> \<lparr>bitlist = bl, count = n, beg_offset = beg, end_offset = e, need_write = w\<rparr>"
  shows "send_ok t" "queue t = drop beg D @ buf"
  using assms by (simp_all add: send_ok_def queue_def)

text \<open>The part of a frame that goes into the last block when the whole of it does not fit.\<close>

lemma first_part:
  assumes s: "send_ok s" and f: "bitlist s = [] \<or> \<not> end_offset s + length buf \<le> 1024"
  obtains bl1 where "(if bitlist s \<noteq> [] then
          if end_offset s + length buf \<le> 1024 then do {
            blk \<leftarrow> block_write (last (bitlist s)) (end_offset s) buf;
            Some (length buf, s\<lparr>bitlist := butlast (bitlist s) @ [blk], end_offset := end_offset s + length buf\<rparr>)
          } else do {
            blk \<leftarrow> block_write (last (bitlist s)) (end_offset s) (take (1024 - end_offset s) buf);
            Some (1024 - end_offset s, s\<lparr>bitlist := butlast (bitlist s) @ [blk]\<rparr>)
          }
        else Some (0, s)) = Some (room_in_last s, s\<lparr>bitlist := bl1\<rparr>)"
    "\<forall>b \<in> set bl1. length b = 1024"
    "concat bl1 = take (beg_offset s + count s) (concat (bitlist s)) @ take (room_in_last s) buf"
proof (cases "bitlist s = []")
  case True
  then show thesis by (intro that [of "[]"]) (simp_all add: room_in_last_def)
next
  case ne: False
  let ?bl = "bitlist s" and ?e = "end_offset s" and ?r = "room_in_last s"
  have e: "?e \<le> 1024" "?r = 1024 - ?e" using s ne by (simp_all add: send_ok_def room_in_last_def)
  have sz: "\<forall>b \<in> set ?bl. length b = 1024" using s by (simp add: send_ok_def)
  have lr: "length (take ?r buf) = ?r" using f ne e by simp
  obtain blk where w: "block_write (last ?bl) ?e (take ?r buf) = Some blk" "length blk = 1024"
    "take (beg_offset s + count s + ?r) (concat (butlast ?bl @ [blk]))
      = take (beg_offset s + count s) (concat ?bl) @ take ?r buf"
    using write_last [OF s ne, of "take ?r buf"] lr e by (metis le_add_diff_inverse order_refl)
  have l: "\<forall>b \<in> set (butlast ?bl @ [blk]). length b = 1024"
    using sz w(2) by (auto dest: in_set_butlastD)
  have "length (concat (butlast ?bl @ [blk])) = beg_offset s + count s + ?r"
    using length_blocks [OF l] s ne e by (cases ?bl rule: rev_cases) (auto simp: send_ok_def)
  then have "concat (butlast ?bl @ [blk]) = take (beg_offset s + count s) (concat ?bl) @ take ?r buf" using w(3) by simp
  then show thesis using l w(1) e(2) ne f by (intro that [of "butlast ?bl @ [blk]"]) simp_all
qed

text \<open>A frame goes to the end of the queue, off the boundary.\<close>

lemma add_message_ok:
  assumes s: "send_ok s" and m: "off_boundary s msg" and n: "count s + length msg + 4 < SZ"
  shows "\<exists>s'. add_message s msg = Some s' \<and> send_ok s' \<and> queue s' = queue s @ frame msg
    \<and> need_write s' = need_write s"
proof -
  let ?buf = "frame msg" and ?size = "length msg + 4" and ?bl = "bitlist s" and ?e = "end_offset s"
  have lbuf: "length ?buf = ?size" by (simp add: frame_def)
  define D where "D = take (beg_offset s + count s) (concat ?bl)"
  have lD: "length D = beg_offset s + count s" using send_ok_total [OF s] by (simp add: D_def)
  have q: "queue s = drop (beg_offset s) D" by (simp add: queue_def D_def)
  have sz: "beg_offset s < 1024" "\<forall>b \<in> set ?bl. length b = 1024" using s by (simp_all add: send_ok_def)
  show ?thesis
  proof (cases "?bl \<noteq> [] \<and> ?e + ?size \<le> 1024")
    case True
    then obtain blk where w: "block_write (last ?bl) ?e ?buf = Some blk" "length blk = 1024"
      "take (beg_offset s + count s + ?size) (concat (butlast ?bl @ [blk])) = D @ ?buf"
      using write_last [OF s, of ?buf] lbuf unfolding D_def by metis
    let ?s = "s\<lparr>bitlist := butlast ?bl @ [blk], end_offset := ?e + ?size, count := count s + ?size\<rparr>"
    have "push_blocks ?buf ?size (butlast ?bl @ [blk]) = (?size, butlast ?bl @ [blk])"
      using lbuf by (subst push_blocks.simps) simp
    then have "add_message s msg = Some ?s"
      using True w(1) n by (simp add: add_message_def frame_def Let_def sz_simps)
    moreover have "queue ?s = queue s @ ?buf"
      using w(3) lD by (simp add: queue_def D_def [symmetric] add.assoc del: concat_append)
    moreover have "send_ok ?s"
      using s True w(2) n by (auto simp: send_ok_def dest: in_set_butlastD)
    ultimately show ?thesis by (intro exI [of _ ?s]) simp
  next
    case False
    let ?r = "room_in_last s"
    have r: "?r < ?size" using False s by (auto simp: room_in_last_def send_ok_def)
    then have nb: "(length ?buf - ?r) mod 1024 \<noteq> 0" using m lbuf by (auto simp: off_boundary_def)
    have g: "?bl = [] \<or> \<not> ?e + length ?buf \<le> 1024" using False lbuf by simp
    obtain bl1 where first: "(if ?bl \<noteq> [] then
          if ?e + ?size \<le> 1024 then do {
            blk \<leftarrow> block_write (last ?bl) ?e ?buf;
            Some (?size, s\<lparr>bitlist := butlast ?bl @ [blk], end_offset := ?e + ?size\<rparr>)
          } else do {
            blk \<leftarrow> block_write (last ?bl) ?e (take (1024 - ?e) ?buf);
            Some (1024 - ?e, s\<lparr>bitlist := butlast ?bl @ [blk]\<rparr>)
          }
        else Some (0, s)) = Some (?r, s\<lparr>bitlist := bl1\<rparr>)"
      and bl1: "\<forall>b \<in> set bl1. length b = 1024" "concat bl1 = D @ take ?r ?buf"
      by (rule first_part [OF s g, unfolded lbuf, folded D_def])
    have "?r \<le> length ?buf" using r lbuf by simp
    from bl1 this nb obtain off' bl' where p: "push_blocks ?buf ?r bl1 = (off', bl')" "off' \<noteq> length ?buf"
      "length ?buf - off' \<le> 1024" "\<forall>b \<in> set (bl' @ [fresh_block (drop off' ?buf)]). length b = 1024"
      "\<exists>junk. concat (bl' @ [fresh_block (drop off' ?buf)]) = D @ ?buf @ junk"
      "length D + length ?buf = 1024 * length bl' + (length ?buf - off')" by (rule push_rest)
    obtain junk where j: "concat (bl' @ [fresh_block (drop off' ?buf)]) = D @ ?buf @ junk" using p(5) by blast
    let ?s = "\<lparr>bitlist = bl' @ [fresh_block (drop off' ?buf)], count = count s + ?size,
        beg_offset = beg_offset s, end_offset = ?size - off', need_write = need_write s\<rparr>"
    have "add_message s msg = Some ?s"
      unfolding add_message_def frame_def [symmetric] Let_def first Option.bind.bind_lunit prod.case
      using p(1,2) lbuf n by (cases s) (simp add: sz_simps)
    moreover have e: "?size - off' \<le> 1024" using p(3) lbuf by simp
    have t: "length D + length ?buf = 1024 * (length (bl' @ [fresh_block (drop off' ?buf)]) - 1) + (?size - off')"
      using p(6) lbuf by simp
    have n': "count s + ?size = count s + length ?buf" "count s + ?size < SZ" using lbuf n by simp_all
    note queue_append [OF p(4) _ e sz(1) lD [symmetric] j n'(1) t n'(2), of "need_write s"]
    then have "send_ok ?s" "queue ?s = drop (beg_offset s) D @ ?buf" by blast+
    ultimately show ?thesis by (intro exI [of _ ?s]) (simp add: q)
  qed
qed

section \<open>MessageSender\<close>

text \<open>
  \<open>messanger\<close> as the entries of the \<open>std::map\<close> in the order of the sockets. \<open>emplace\<close> keeps an
  entry that is there.
\<close>

type_synonym MessageSender = "(int \<times> MessageForSend) list"

fun emplace :: "int \<Rightarrow> MessageForSend \<Rightarrow> MessageSender \<Rightarrow> MessageSender" where
  "emplace fd v [] = [(fd, v)]"
| "emplace fd v ((k, w) # r) =
     (if fd < k then (fd, v) # (k, w) # r else if fd = k then (k, w) # r else (k, w) # emplace fd v r)"

definition add_client :: "MessageSender \<Rightarrow> int \<Rightarrow> MessageSender" where
  "add_client ms sock_fd = emplace sock_fd new_MessageForSend ms"

fun sender_add_message :: "MessageSender \<Rightarrow> byte list \<Rightarrow> MessageSender option" where
  "sender_add_message [] msg = Some []"
| "sender_add_message ((fd, q) # r) msg = do {
     q \<leftarrow> add_message q msg;
     r \<leftarrow> sender_add_message r msg;
     Some ((fd, q) # r)
   }"

definition sender_deleteSockFd :: "MessageSender \<Rightarrow> int \<Rightarrow> MessageSender" where
  "sender_deleteSockFd ms sockfd =
     (if map_of ms sockfd = None then filter (\<lambda>e. fst e \<noteq> sockfd) ms else ms)"

lemma set_emplace:
  "map_of ms fd = None \<Longrightarrow> set (emplace fd v ms) = insert (fd, v) (set ms)"
  "map_of ms fd \<noteq> None \<Longrightarrow> sorted_wrt (<) (map fst ms) \<Longrightarrow> emplace fd v ms = ms"
proof -
  show "map_of ms fd = None \<Longrightarrow> set (emplace fd v ms) = insert (fd, v) (set ms)"
    by (induction fd v ms rule: emplace.induct) (auto split: if_splits)
  show "map_of ms fd \<noteq> None \<Longrightarrow> sorted_wrt (<) (map fst ms) \<Longrightarrow> emplace fd v ms = ms"
    by (induction fd v ms rule: emplace.induct) (force split: if_splits dest: map_of_SomeD)+
qed

lemma sorted_emplace:
  "sorted_wrt (<) (map fst ms) \<Longrightarrow> sorted_wrt (<) (map fst (emplace fd v ms))"
proof (induction fd v ms rule: emplace.induct)
  case (2 fd v k w r)
  have "fst ` set (emplace fd v r) \<subseteq> insert fd (fst ` set r)"
    by (induction fd v r rule: emplace.induct) auto
  then show ?case using 2 by fastforce
qed simp

lemma sender_add_message_ok:
  assumes "\<forall>(fd, q) \<in> set ms. send_ok q \<and> off_boundary q msg \<and> count q + length msg + 4 < SZ"
  shows "\<exists>ms'. sender_add_message ms msg = Some ms'
    \<and> list_all2 (\<lambda>(fd, q) (fd', q'). fd' = fd \<and> send_ok q' \<and> queue q' = queue q @ frame msg
        \<and> need_write q' = need_write q) ms ms'"
  using assms
proof (induction ms)
  case Nil
  then show ?case by simp
next
  case (Cons e ms)
  obtain fd q where e: "e = (fd, q)" by force
  obtain q' where "add_message q msg = Some q'" "send_ok q'" "queue q' = queue q @ frame msg"
      "need_write q' = need_write q"
    using add_message_ok [of q msg] Cons.prems by (auto simp: e)
  moreover obtain ms' where "sender_add_message ms msg = Some ms'"
    "list_all2 (\<lambda>(fd, q) (fd', q'). fd' = fd \<and> send_ok q' \<and> queue q' = queue q @ frame msg
        \<and> need_write q' = need_write q) ms ms'"
    using Cons by auto
  ultimately show ?case by (auto simp: e)
qed

section \<open>Emptying a queue into a socket\<close>

text \<open>
  The answers of \<open>send\<close>: \<open>Accepts k\<close> takes \<open>k + 1\<close> of the bytes offered, or all of them when
  they are fewer; \<open>Zero\<close> and \<open>Refuses\<close> are a return value of 0 and -1 with the \<open>errno\<close> that the
  code looks at. A script of answers is read from the front, and a socket whose script has
  ended would block.
\<close>

datatype send_result = Accepts nat | Zero int | Refuses int

datatype send_outcome = Drained | Blocked | Closed | Failed

definition EWOULDBLOCK :: int where
  "EWOULDBLOCK = 11"

definition would_block :: "int \<Rightarrow> bool" where
  "would_block errno \<longleftrightarrow> and errno EWOULDBLOCK \<noteq> 0"

text \<open>
  The loop that \<open>Server::writeMessages\<close> and \<open>Client::writeFds\<close> share, over the two operations of
  the queue. They differ in a return value of 0: the client ends (\<open>Closed\<close>), the server treats
  it as an error.
\<close>

fun send_loop ::
  "('q \<Rightarrow> nat \<Rightarrow> byte list option) \<Rightarrow> ('q \<Rightarrow> nat \<Rightarrow> 'q option) \<Rightarrow> bool \<Rightarrow> send_result list \<Rightarrow>
   'q \<Rightarrow> byte list \<Rightarrow> byte list \<Rightarrow> (send_outcome \<times> byte list \<times> 'q) option" where
  "send_loop peek drp close0 rs s buf sent =
     (if buf = [] then Some (Drained, sent, s)
      else case rs of
        [] \<Rightarrow> Some (Blocked, sent, s)
      | Accepts k # rs' \<Rightarrow> do {
          let nbytes = min (Suc k) (length buf);
          s \<leftarrow> drp s nbytes;
          buf' \<leftarrow> peek s 1024;
          send_loop peek drp close0 rs' s buf' (sent @ take nbytes buf)
        }
      | Zero e # rs' \<Rightarrow>
          Some (if close0 then Closed else if would_block e then Blocked else Failed, sent, s)
      | Refuses e # rs' \<Rightarrow> Some (if would_block e then Blocked else Failed, sent, s))"

declare send_loop.simps [simp del]

definition flush :: "bool \<Rightarrow> send_result list \<Rightarrow> MessageForSend \<Rightarrow> (send_outcome \<times> byte list \<times> MessageForSend) option" where
  "flush close0 rs s = do {
     buf \<leftarrow> getbitarray s 1024;
     send_loop getbitarray erase close0 rs s buf []
   }"

locale byte_queue =
  fixes ok :: "'q \<Rightarrow> bool" and bytes :: "'q \<Rightarrow> byte list"
    and peek :: "'q \<Rightarrow> nat \<Rightarrow> byte list option" and drp :: "'q \<Rightarrow> nat \<Rightarrow> 'q option"
    and flag :: "'q \<Rightarrow> bool"
  assumes peek_bytes: "ok s \<Longrightarrow> n \<le> 1024 \<Longrightarrow> peek s n = Some (take n (bytes s))"
    and drop_bytes: "ok s \<Longrightarrow> n \<le> 1024 \<Longrightarrow> n \<le> length (bytes s) \<Longrightarrow>
      \<exists>s'. drp s n = Some s' \<and> ok s' \<and> bytes s' = drop n (bytes s) \<and> flag s' = flag s"
begin

text \<open>No byte is lost, repeated or reordered, whatever the socket accepts.\<close>

lemma send_loop_keeps:
  assumes "ok s"
  shows "\<exists>out w s'. send_loop peek drp c rs s (take 1024 (bytes s)) sent = Some (out, sent @ w, s')
    \<and> ok s' \<and> w @ bytes s' = bytes s \<and> (out = Drained \<longleftrightarrow> bytes s' = []) \<and> flag s' = flag s"
  using assms
proof (induction rs arbitrary: s sent)
  case Nil
  then show ?case by (subst send_loop.simps) auto
next
  case (Cons r rs)
  show ?case
  proof (cases "bytes s = []")
    case True
    then show ?thesis using Cons.prems by (subst send_loop.simps) auto
  next
    case False
    show ?thesis
    proof (cases r)
      case (Accepts k)
      let ?n = "min (Suc k) (length (take 1024 (bytes s)))"
      have n: "?n \<le> 1024" "?n \<le> length (bytes s)" by auto
      obtain s1 where d: "drp s ?n = Some s1" "ok s1" "bytes s1 = drop ?n (bytes s)" "flag s1 = flag s"
        using drop_bytes [OF Cons.prems n] by blast
      obtain out w s' where l: "send_loop peek drp c rs s1 (take 1024 (bytes s1)) (sent @ take ?n (take 1024 (bytes s)))
          = Some (out, (sent @ take ?n (take 1024 (bytes s))) @ w, s')" "ok s'" "w @ bytes s' = bytes s1"
        "out = Drained \<longleftrightarrow> bytes s' = []" "flag s' = flag s1"
        using Cons.IH [OF d(2), of "sent @ take ?n (take 1024 (bytes s))"] by blast
      have "send_loop peek drp c (r # rs) s (take 1024 (bytes s)) sent
          = Some (out, sent @ (take ?n (take 1024 (bytes s)) @ w), s')"
        using False d(1) l(1) peek_bytes [OF d(2), of 1024] Accepts
        by (subst send_loop.simps) (simp add: Let_def)
      moreover have "take ?n (take 1024 (bytes s)) = take ?n (bytes s)" using n(1) by simp
      then have "(take ?n (take 1024 (bytes s)) @ w) @ bytes s' = bytes s"
        using l(3) d(3) by simp
      ultimately show ?thesis using l(2,4,5) d(4) by blast
    next
      case (Zero e)
      then show ?thesis using False Cons.prems by (subst send_loop.simps) auto
    next
      case (Refuses e)
      then show ?thesis using False Cons.prems by (subst send_loop.simps) auto
    qed
  qed
qed

text \<open>A socket that accepts some bytes as often as there are bytes gets all of them.\<close>

lemma send_loop_drains:
  assumes "ok s" "\<forall>r \<in> set rs. \<exists>k. r = Accepts k" "length (bytes s) \<le> length rs"
  shows "\<exists>s'. send_loop peek drp c rs s (take 1024 (bytes s)) sent = Some (Drained, sent @ bytes s, s')"
  using assms
proof (induction rs arbitrary: s sent)
  case Nil
  then show ?case by (subst send_loop.simps) auto
next
  case (Cons r rs)
  show ?case
  proof (cases "bytes s = []")
    case True
    then show ?thesis by (subst send_loop.simps) auto
  next
    case False
    obtain k where k: "r = Accepts k" using Cons.prems(2) by auto
    let ?n = "min (Suc k) (length (take 1024 (bytes s)))"
    have n: "?n \<le> 1024" "?n \<le> length (bytes s)" "0 < ?n" using False by auto
    obtain s1 where d: "drp s ?n = Some s1" "ok s1" "bytes s1 = drop ?n (bytes s)"
      using drop_bytes [OF Cons.prems(1) n(1,2)] by blast
    have acc: "\<forall>r \<in> set rs. \<exists>k. r = Accepts k" using Cons.prems(2) by simp
    have "length (bytes s1) \<le> length rs" using d(3) n(3) Cons.prems(3) by simp
    then obtain s' where l: "send_loop peek drp c rs s1 (take 1024 (bytes s1)) (sent @ take ?n (take 1024 (bytes s)))
        = Some (Drained, (sent @ take ?n (take 1024 (bytes s))) @ bytes s1, s')"
      using Cons.IH [OF d(2) acc, of "sent @ take ?n (take 1024 (bytes s))"] by blast
    have "send_loop peek drp c (r # rs) s (take 1024 (bytes s)) sent
        = Some (Drained, sent @ (take ?n (take 1024 (bytes s)) @ bytes s1), s')"
      using False d(1) l peek_bytes [OF d(2), of 1024] k
      by (subst send_loop.simps) (simp add: Let_def)
    moreover have "take ?n (take 1024 (bytes s)) = take ?n (bytes s)" using n(1) by simp
    then have "take ?n (take 1024 (bytes s)) @ bytes s1 = bytes s" using d(3) by simp
    ultimately show ?thesis by auto
  qed
qed

end

interpretation mq: byte_queue send_ok queue getbitarray erase need_write
  using getbitarray_ok erase_ok length_queue by unfold_locales auto

lemma flush_ok:
  assumes "send_ok s"
  shows "\<exists>out w s'. flush c rs s = Some (out, w, s') \<and> send_ok s' \<and> w @ queue s' = queue s
    \<and> (out = Drained \<longleftrightarrow> queue s' = []) \<and> need_write s' = need_write s"
  using mq.send_loop_keeps [OF assms, of c rs "[]"] getbitarray_ok [OF assms, of 1024]
  by (simp add: flush_def)

lemma flush_drains:
  assumes "send_ok s" "\<forall>r \<in> set rs. \<exists>k. r = Accepts k" "count s \<le> length rs"
  shows "\<exists>s'. flush c rs s = Some (Drained, queue s, s') \<and> send_ok s' \<and> queue s' = [] \<and> need_write s' = need_write s"
proof -
  have "\<exists>s'. flush c rs s = Some (Drained, [] @ queue s, s')"
    using mq.send_loop_drains [OF assms(1,2), of c "[]"] assms(3) length_queue [OF assms(1)]
      getbitarray_ok [OF assms(1), of 1024] by (simp add: flush_def)
  then show ?thesis using flush_ok [OF assms(1), of c rs] by auto
qed

text \<open>The answers that end a connection; the others make the loop send or wait.\<close>

definition send_fails :: "bool \<Rightarrow> send_result \<Rightarrow> bool" where
  "send_fails close0 r = (case r of
      Accepts k \<Rightarrow> False
    | Zero e \<Rightarrow> close0 \<or> \<not> would_block e
    | Refuses e \<Rightarrow> \<not> would_block e)"

lemma send_loop_outcome:
  assumes "send_loop peek drp c rs s buf sent = Some (out, w, s')" "\<forall>r \<in> set rs. \<not> send_fails c r"
  shows "out = Drained \<or> out = Blocked"
  using assms
proof (induction rs arbitrary: s buf sent)
  case Nil
  then show ?case by (subst (asm) send_loop.simps) (auto split: if_splits)
next
  case (Cons r rs)
  have ok: "\<not> send_fails c r" "\<forall>r \<in> set rs. \<not> send_fails c r" using Cons.prems(2) by simp_all
  show ?case
  proof (cases "buf = []")
    case True
    then show ?thesis using Cons.prems(1) by (subst (asm) send_loop.simps) simp
  next
    case ne: False
    show ?thesis
    proof (cases r)
      case (Accepts k)
      then obtain s1 buf1 sent1 where "send_loop peek drp c rs s1 buf1 sent1 = Some (out, w, s')"
        using Cons.prems(1) ne by (subst (asm) send_loop.simps) (auto simp: Let_def bind_eq_Some_conv)
      then show ?thesis by (rule Cons.IH) (rule ok(2))
    qed (use Cons.prems(1) ne ok(1) in \<open>subst (asm) send_loop.simps, simp add: send_fails_def\<close>)+
  qed
qed

lemma flush_outcome:
  assumes "flush c rs s = Some (out, w, s')" "\<forall>r \<in> set rs. \<not> send_fails c r"
  shows "out = Drained \<or> out = Blocked"
proof -
  obtain buf where "send_loop getbitarray erase c rs s buf [] = Some (out, w, s')"
    using assms(1) by (auto simp: flush_def bind_eq_Some_conv)
  then show ?thesis by (rule send_loop_outcome) (rule assms(2))
qed

section \<open>Properties\<close>

text \<open>Property C14. \<open>MessageForSend\<close> is a byte queue: off the block boundary \<open>add_message\<close> appends
  the frame of the message, \<open>getbitarray\<close> shows the front and \<open>erase\<close> removes it.\<close>

theorem send_queue_laws:
  assumes "send_ok s" "off_boundary s msg" "count s + length msg + 4 < SZ" "n \<le> 1024" "n \<le> count s + length msg + 4"
  shows "\<exists>s1 s2. add_message s msg = Some s1 \<and> queue s1 = queue s @ frame msg
    \<and> getbitarray s1 n = Some (take n (queue s @ frame msg))
    \<and> erase s1 n = Some s2 \<and> send_ok s2 \<and> queue s2 = drop n (queue s @ frame msg)"
proof -
  obtain s1 where s1: "add_message s msg = Some s1" "send_ok s1" "queue s1 = queue s @ frame msg"
    using add_message_ok [OF assms(1-3)] by blast
  have "n \<le> count s1"
    using length_queue [OF s1(2)] length_queue [OF assms(1)] assms(5) by (simp add: s1(3) frame_def)
  then show ?thesis using erase_ok [OF s1(2) assms(4)] getbitarray_ok [OF s1(2) assms(4)] s1 by auto
qed

theorem send_queue_laws_witness:
  "\<exists>s1. add_message new_MessageForSend [104, 105] = Some s1 \<and> getbitarray s1 6 = Some (frame [104, 105])"
proof -
  have "off_boundary new_MessageForSend [104, 105]" by (simp add: off_boundary_def room_in_last_def new_MessageForSend_def)
  moreover have "count new_MessageForSend + length [104 :: byte, 105] + 4 < SZ"
    by (simp add: new_MessageForSend_def SZ_def)
  ultimately show ?thesis
    using send_queue_laws [OF new_MessageForSend_ok(1), of "[104, 105]" 6] new_MessageForSend_ok(2)
    by (auto simp: frame_def)
qed

text \<open>
  On the boundary the bytes that do not fit into the last block fill whole blocks. The frame is queued
  as it should, but \<open>end_offset\<close> is not set: it stays what it was in a block that is not the last any more.
\<close>

lemma boundary_frame:
  assumes s: "send_ok s" and m: "\<not> off_boundary s msg" and n: "count s + length msg + 4 < SZ"
  obtains bl blk where "add_message s msg
      = Some (s\<lparr>bitlist := bl @ [blk], count := count s + (length msg + 4)\<rparr>)"
    "length blk = 1024" "\<forall>b \<in> set bl. length b = 1024"
    "drop (beg_offset s) (concat (bl @ [blk])) = queue s @ frame msg"
    "beg_offset s + (count s + (length msg + 4)) = 1024 * Suc (length bl)"
proof -
  let ?buf = "frame msg" and ?size = "length msg + 4" and ?bl = "bitlist s" and ?e = "end_offset s" and ?r = "room_in_last s"
  have lbuf: "length ?buf = ?size" by (simp add: frame_def)
  have r: "?r < ?size" "(?size - ?r) mod 1024 = 0" using m by (simp_all add: off_boundary_def)
  define D where "D = take (beg_offset s + count s) (concat ?bl)"
  have lD: "length D = beg_offset s + count s" using send_ok_total [OF s] by (simp add: D_def)
  have q: "queue s = drop (beg_offset s) D" by (simp add: queue_def D_def)
  have g: "?bl = [] \<or> \<not> ?e + length ?buf \<le> 1024"
    using r(1) s lbuf by (auto simp: room_in_last_def send_ok_def split: if_splits)
  obtain bl1 where first: "(if ?bl \<noteq> [] then
          if ?e + ?size \<le> 1024 then do {
            blk \<leftarrow> block_write (last ?bl) ?e ?buf;
            Some (?size, s\<lparr>bitlist := butlast ?bl @ [blk], end_offset := ?e + ?size\<rparr>)
          } else do {
            blk \<leftarrow> block_write (last ?bl) ?e (take (1024 - ?e) ?buf);
            Some (1024 - ?e, s\<lparr>bitlist := butlast ?bl @ [blk]\<rparr>)
          }
        else Some (0, s)) = Some (?r, s\<lparr>bitlist := bl1\<rparr>)"
    and bl1: "\<forall>b \<in> set bl1. length b = 1024" "concat bl1 = D @ take ?r ?buf"
    by (rule first_part [OF s g, unfolded lbuf, folded D_def])
  have "?r \<le> length ?buf" using r(1) lbuf by simp
  then obtain off' bl' where p: "push_blocks ?buf ?r bl1 = (off', bl')" "pushed ?buf ?r bl1 off' bl'"
    using push_blocks_ok bl1(1) by blast
  have off: "off' = ?size" using p(2) lbuf r(2) by (simp add: pushed_def)
  have c: "concat bl' = D @ ?buf" and l: "\<forall>b \<in> set bl'. length b = 1024"
    using p(2) bl1(2) off lbuf r(1) by (simp_all add: pushed_def)
  have t: "1024 * length bl' = beg_offset s + count s + ?size"
    using arg_cong [OF c, of length] length_blocks [OF l] lD lbuf by simp
  then have "bl' \<noteq> []" by auto
  then obtain bl blk where b: "bl' = bl @ [blk]" by (cases bl' rule: rev_cases) auto
  have "add_message s msg = Some (s\<lparr>bitlist := bl @ [blk], count := count s + ?size\<rparr>)"
    unfolding add_message_def frame_def [symmetric] Let_def first Option.bind.bind_lunit prod.case
    using p(1) off n b by (cases s) (simp add: sz_simps)
  then show thesis using c l t lD unfolding b by (intro that [of bl blk]) (simp_all add: q)
qed

text \<open>Property C33. A frame that runs over into new blocks and ends exactly at the end of a block (the
  bytes that did not fit into the last block are a multiple of 1024) breaks the queue: it is queued, but
  \<open>end_offset\<close> keeps its value, and the next message that fits behind this offset is written into the
  full last block, over the end of what is still to be sent; the queue then counts bytes that it does not hold.\<close>

theorem boundary_frame_is_overwritten:
  assumes "send_ok s" "\<not> off_boundary s m1" "end_offset s + length m2 + 4 \<le> 1024"
    "count s + length m1 + length m2 + 8 < SZ"
  shows "\<exists>s1 s2 bl blk. add_message s m1 = Some s1 \<and> add_message s1 m2 = Some s2 \<and> length blk = 1024
    \<and> queue s1 = queue s @ frame m1 \<and> queue s1 = drop (beg_offset s) (concat bl @ blk)
    \<and> queue s2 = drop (beg_offset s) (concat bl @ take (end_offset s) blk @ frame m2 @ drop (end_offset s + length m2 + 4) blk)
    \<and> count s2 = length (queue s2) + length (frame m2)"
proof -
  have n: "count s + length m1 + 4 < SZ" using assms(4) by simp
  obtain bl blk where a: "add_message s m1
      = Some (s\<lparr>bitlist := bl @ [blk], count := count s + (length m1 + 4)\<rparr>)"
    "length blk = 1024" "\<forall>b \<in> set bl. length b = 1024"
    "drop (beg_offset s) (concat (bl @ [blk])) = queue s @ frame m1"
    "beg_offset s + (count s + (length m1 + 4)) = 1024 * Suc (length bl)"
    by (rule boundary_frame [OF assms(1,2) n])
  let ?e = "end_offset s" and ?size = "length m2 + 4"
  let ?s1 = "s\<lparr>bitlist := bl @ [blk], count := count s + (length m1 + 4)\<rparr>"
  let ?b = "take ?e blk @ frame m2 @ drop (?e + length m2 + 4) blk"
  let ?s2 = "?s1\<lparr>bitlist := bl @ [?b], end_offset := ?e + ?size, count := count s + (length m1 + 4) + ?size\<rparr>"
  have l: "length (frame m2) = ?size" by (simp add: frame_def)
  have lb: "length ?b = 1024" using a(2) assms(3) l by simp
  have lc: "length (concat bl) = 1024 * length bl" by (rule length_blocks [OF a(3)])
  have "push_blocks (frame m2) ?size (bl @ [?b]) = (?size, bl @ [?b])"
    using l by (subst push_blocks.simps) simp
  then have two: "add_message ?s1 m2 = Some ?s2"
    unfolding add_message_def frame_def [symmetric] Let_def using assms(3,4) a(2) l
    by (simp add: block_write_def sz_simps add.assoc)
  have q1: "queue ?s1 = drop (beg_offset s) (concat bl @ blk)"
    using a(2,5) lc by (simp add: queue_def del: take_append)
  let ?n2 = "beg_offset s + (count s + (length m1 + 4) + ?size)"
  have "length (concat bl @ ?b) \<le> ?n2"
    unfolding length_append [of "concat bl"] lb lc using a(5) by simp
  moreover have "queue ?s2 = drop (beg_offset s) (take ?n2 (concat bl @ ?b))"
    by (simp add: queue_def del: take_append)
  ultimately have q2: "queue ?s2 = drop (beg_offset s) (concat bl @ ?b)" by (metis take_all)
  have "length (queue ?s2) = count s + (length m1 + 4)"
    unfolding q2 length_drop length_append [of "concat bl"] lb lc using a(5) by simp
  then have c: "count ?s2 = length (queue ?s2) + length (frame m2)" using l by simp
  have e: "queue ?s1 = queue s @ frame m1" using a(4) q1 by simp
  show ?thesis by (intro exI conjI) (rule a(1) two a(2) e q1 q2 c)+
qed

theorem boundary_frame_is_overwritten_witness:
  "\<exists>s1 s2. add_message new_MessageForSend (replicate 1020 65) = Some s1 \<and> add_message s1 [66] = Some s2
    \<and> queue s1 = frame (replicate 1020 65) \<and> queue s2 = frame [66] @ drop 5 (queue s1)"
proof -
  let ?n = new_MessageForSend
  define m :: "byte list" where "m = replicate 1020 65"
  have m: "length m = 1020" unfolding m_def by (rule length_replicate)
  have "\<not> off_boundary ?n m" "end_offset ?n + length [66 :: byte] + 4 \<le> 1024"
    "count ?n + length m + length [66 :: byte] + 8 < SZ"
    by (simp_all add: off_boundary_def room_in_last_def new_MessageForSend_def SZ_def m)
  note w = boundary_frame_is_overwritten [OF new_MessageForSend_ok(1) this]
  have z: "beg_offset ?n = 0" "end_offset ?n = 0" by (simp_all add: new_MessageForSend_def)
  have e: "0 + length [66 :: byte] + 4 = 5" by simp
  obtain s1 s2 bl blk where s: "add_message ?n m = Some s1" "add_message s1 [66] = Some s2"
    "length blk = 1024" "queue s1 = frame m" "queue s1 = concat bl @ blk"
    "queue s2 = concat bl @ frame [66] @ drop 5 blk"
    using w unfolding z e new_MessageForSend_ok(2) drop_0 append_Nil take_0 by (elim exE conjE) (rule that)
  have "length (queue s1) = 1024" unfolding s(4) by (simp add: frame_def m)
  then have e: "concat bl = []" using s(3) unfolding s(5) length_append by simp
  have "queue s2 = frame [66] @ drop 5 (queue s1)" using s(5,6) unfolding e by simp
  then show ?thesis using s(1,2,4) unfolding m_def by blast
qed

text \<open>Property C26. Whatever a socket accepts, the bytes sent and the bytes left in the queue are
  the queue from before: nothing is lost, repeated or reordered.\<close>

theorem flush_keeps_bytes:
  assumes "send_ok s"
  shows "\<exists>out w s'. flush c rs s = Some (out, w, s') \<and> send_ok s' \<and> w @ queue s' = queue s
    \<and> (out = Drained \<longleftrightarrow> queue s' = [])"
  using flush_ok [OF assms, of c rs] by blast

theorem flush_keeps_bytes_witness:
  "\<exists>out w s'. flush False [Accepts 0, Refuses 11] new_MessageForSend = Some (out, w, s') \<and> w @ queue s' = []"
  using flush_keeps_bytes [OF new_MessageForSend_ok(1), of False "[Accepts 0, Refuses 11]"]
    new_MessageForSend_ok(2) by auto

text \<open>Property C29.
  The send loop ends with everything sent: when every call of \<open>send\<close> takes at least one byte, it
  drains the queue in at most as many calls as there are bytes, and sends exactly the queue.
\<close>

theorem send_loop_ends:
  assumes "send_ok s" "\<forall>r \<in> set rs. \<exists>k. r = Accepts k" "count s \<le> length rs"
  shows "\<exists>s'. flush c rs s = Some (Drained, queue s, s') \<and> send_ok s' \<and> queue s' = [] \<and> count s' = 0"
  using flush_drains [OF assms, of c] length_queue by fastforce

theorem send_loop_ends_witness:
  "\<exists>s s'. add_message new_MessageForSend [104, 105] = Some s
    \<and> flush True (replicate 6 (Accepts 0)) s = Some (Drained, frame [104, 105], s') \<and> queue s' = []"
proof -
  have "off_boundary new_MessageForSend [104, 105]" by (simp add: off_boundary_def room_in_last_def new_MessageForSend_def)
  then obtain s where s: "add_message new_MessageForSend [104, 105] = Some s" "send_ok s" "queue s = frame [104, 105]"
    using add_message_ok [OF new_MessageForSend_ok(1), of "[104, 105]"] new_MessageForSend_ok(2)
    by (auto simp: new_MessageForSend_def SZ_def)
  have "count s = 6" using length_queue [OF s(2)] s(3) by (simp add: frame_def)
  then show ?thesis using send_loop_ends [OF s(2), of "replicate 6 (Accepts 0)" True] s(1,3) by auto
qed

end
