(* ===== verification/Chat_Server.thy ===== *)
theory Chat_Server
  imports Message_Send
begin

text \<open>
  Model of the chat server, \<^verbatim>\<open>src/p2/server.cpp\<close>: the handlers of the \<open>epoll\<close> loop over the
  server's state. What the operating system answers is an argument of each handler: the
  results of \<open>send\<close> per socket and of \<open>epoll_ctl\<close> in an \<open>env\<close>, those of \<open>accept\<close>, \<open>fcntl\<close>
  and \<open>recv\<close> in the event. A handler ends in \<open>Inl code\<close> when the code calls \<open>exit\<close>, and in
  \<^const>\<open>None\<close> when it runs into undefined behaviour.
\<close>

section \<open>State and environment\<close>

definition EPOLLIN :: nat where "EPOLLIN = 1"
definition EPOLLOUT :: nat where "EPOLLOUT = 4"
definition EPOLLERR :: nat where "EPOLLERR = 8"
definition EPOLLHUP :: nat where "EPOLLHUP = 16"
definition EPOLLET :: nat where "EPOLLET = 2 ^ 31"
definition EAGAIN :: nat where "EAGAIN = 11"

text \<open>\<open>watch\<close> is the event mask last set for each socket, \<open>wire\<close> what was sent to it.\<close>

record Server =
  masterSocket :: int
  messangerReceiver :: MessageReceiver
  messageSender :: MessageSender
  watch :: "int \<rightharpoonup> nat"
  wire :: "int \<Rightarrow> byte list"
  cout :: "byte list list"

record env =
  send_answers :: "int \<Rightarrow> send_result list"
  ctl_ok :: "int \<Rightarrow> bool"

datatype recv_result = Received "byte list" | Eof | RecvError int

record event =
  ev_fd :: int
  ev_events :: nat
  ev_accept :: int
  ev_fcntl_ok :: bool
  ev_recvs :: "(recv_result \<times> env) list"
  ev_env :: env

definition exit_code :: "nat \<Rightarrow> (nat + 'a) option" where
  "exit_code n = Some (Inl n)"

section \<open>Writing\<close>

text \<open>One turn of the loop over the clients.\<close>

definition write_entry ::
  "env \<Rightarrow> int \<Rightarrow> MessageForSend \<Rightarrow> (int \<rightharpoonup> nat) \<Rightarrow> (int \<Rightarrow> byte list) \<Rightarrow>
   (nat + MessageForSend \<times> (int \<rightharpoonup> nat) \<times> (int \<Rightarrow> byte list)) option" where
  "write_entry e clientFd q wt wi = do {
     (out, sent, q) \<leftarrow> flush False (send_answers e clientFd) q;
     let wi = wi(clientFd := wi clientFd @ sent);
     (case out of
        Blocked \<Rightarrow>
          if ctl_ok e clientFd
          then Some (Inr (q\<lparr>need_write := True\<rparr>, wt(clientFd \<mapsto> or (or EPOLLIN EPOLLET) EPOLLOUT), wi))
          else exit_code 1
      | Drained \<Rightarrow>
          if need_write q then
            if ctl_ok e clientFd
            then Some (Inr (q\<lparr>need_write := False\<rparr>, wt(clientFd \<mapsto> or EPOLLIN EPOLLET), wi))
            else exit_code 1
          else Some (Inr (q, wt, wi))
      | _ \<Rightarrow> exit_code 1)
   }"

fun write_entries ::
  "env \<Rightarrow> MessageSender \<Rightarrow> (int \<rightharpoonup> nat) \<Rightarrow> (int \<Rightarrow> byte list) \<Rightarrow>
   (nat + MessageSender \<times> (int \<rightharpoonup> nat) \<times> (int \<Rightarrow> byte list)) option" where
  "write_entries e [] wt wi = Some (Inr ([], wt, wi))"
| "write_entries e ((clientFd, q) # r) wt wi = do {
     res \<leftarrow> write_entry e clientFd q wt wi;
     case res of
       Inl c \<Rightarrow> Some (Inl c)
     | Inr (q, wt, wi) \<Rightarrow> do {
         rest \<leftarrow> write_entries e r wt wi;
         Some (case rest of Inl c \<Rightarrow> Inl c | Inr (r, wt, wi) \<Rightarrow> Inr ((clientFd, q) # r, wt, wi))
       }
   }"

definition writeMessages :: "env \<Rightarrow> Server \<Rightarrow> (nat + Server) option" where
  "writeMessages e s = do {
     res \<leftarrow> write_entries e (messageSender s) (watch s) (wire s);
     Some (case res of
         Inl c \<Rightarrow> Inl c
       | Inr (ms, wt, wi) \<Rightarrow> Inr (s\<lparr>messageSender := ms, watch := wt, wire := wi\<rparr>))
   }"

section \<open>Clients\<close>

definition deleteClient :: "env \<Rightarrow> Server \<Rightarrow> int \<Rightarrow> (nat + Server) option" where
  "deleteClient e s clientFd =
     (if \<not> ctl_ok e clientFd then exit_code 1
      else Some (Inr (s\<lparr>watch := (watch s)(clientFd := None),
             messangerReceiver := deleteSockFd (messangerReceiver s) clientFd,
             messageSender := sender_deleteSockFd (messageSender s) clientFd\<rparr>)))"

text \<open>The messages of one piece go into every queue and to the console.\<close>

fun broadcast :: "byte list list \<Rightarrow> Server \<Rightarrow> Server option" where
  "broadcast [] s = Some s"
| "broadcast (m # msgs) s = do {
     ms \<leftarrow> sender_add_message (messageSender s) m;
     broadcast msgs (s\<lparr>messageSender := ms, cout := cout s @ [m]\<rparr>)
   }"

text \<open>\<open>garbage\<close> is the indeterminate content of a new \<open>Message\<close>; a script that has ended
  answers \<open>EAGAIN\<close>.\<close>

fun readClient :: "Message \<Rightarrow> (recv_result \<times> env) list \<Rightarrow> Server \<Rightarrow> int \<Rightarrow> (nat + Server) option" where
  "readClient g [] s clientFd = Some (Inr s)"
| "readClient g ((Eof, e) # rs) s clientFd = deleteClient e s clientFd"
| "readClient g ((RecvError n, e) # rs) s clientFd = (if n \<noteq> int EAGAIN then exit_code 1 else Some (Inr s))"
| "readClient g ((Received buf, e) # rs) s clientFd = do {
     (msgs, r) \<leftarrow> process g (messangerReceiver s) clientFd buf;
     s \<leftarrow> broadcast msgs (s\<lparr>messangerReceiver := r\<rparr>);
     res \<leftarrow> writeMessages e s;
     case res of Inl c \<Rightarrow> Some (Inl c) | Inr s \<Rightarrow> readClient g rs s clientFd
   }"

definition welcome_bytes :: "byte list" where
  "welcome_bytes = [87, 101, 108, 99, 111, 109, 101]"

fun update_entry :: "int \<Rightarrow> (MessageForSend \<Rightarrow> MessageForSend option) \<Rightarrow> MessageSender \<Rightarrow> MessageSender option" where
  "update_entry fd f [] = None"
| "update_entry fd f ((k, q) # r) =
     (if k = fd then do { q \<leftarrow> f q; Some ((k, q) # r) }
      else do { r \<leftarrow> update_entry fd f r; Some ((k, q) # r) })"

definition processMasterEvent :: "event \<Rightarrow> Server \<Rightarrow> (nat + Server) option" where
  "processMasterEvent ev s =
     (if and (ev_events ev) EPOLLERR \<noteq> 0 then exit_code 1
      else
        let newFd = ev_accept ev in
        if newFd = -1 then exit_code 1
        else if \<not> ev_fcntl_ok ev then exit_code 1
        else if \<not> ctl_ok (ev_env ev) newFd then exit_code 1
        else do {
          let s = s\<lparr>watch := (watch s)(newFd \<mapsto> or (or EPOLLIN EPOLLET) EAGAIN)\<rparr>;
          let ms = add_client (messageSender s) newFd;
          ms \<leftarrow> update_entry newFd (\<lambda>q. add_message q welcome_bytes) ms;
          writeMessages (ev_env ev) (s\<lparr>messageSender := ms\<rparr>)
        })"

definition processClientEvent :: "Message \<Rightarrow> event \<Rightarrow> Server \<Rightarrow> (nat + Server) option" where
  "processClientEvent g ev s =
     (if and (ev_events ev) EPOLLERR \<noteq> 0 then exit_code 1
      else if and (ev_events ev) EPOLLHUP \<noteq> 0 then deleteClient (ev_env ev) s (ev_fd ev)
      else if and (ev_events ev) EPOLLIN \<noteq> 0 then readClient g (ev_recvs ev) s (ev_fd ev)
      else Some (Inr s))"

text \<open>The body of the loop of \<open>start\<close> over the events that \<open>epoll_wait\<close> returned.\<close>

fun handle_events :: "Message \<Rightarrow> event list \<Rightarrow> Server \<Rightarrow> (nat + Server) option" where
  "handle_events g [] s = Some (Inr s)"
| "handle_events g (ev # evs) s = do {
     res \<leftarrow> (if ev_fd ev = masterSocket s then processMasterEvent ev s else processClientEvent g ev s);
     case res of Inl c \<Rightarrow> Some (Inl c) | Inr s \<Rightarrow> handle_events g evs s
   }"

text \<open>The loop runs for ever; it is followed as long as \<open>epoll_wait\<close> is given answers, the last
  argument but one. \<^const>\<open>None\<close> in it is the answer -1.\<close>

fun start :: "Message \<Rightarrow> event list option list \<Rightarrow> Server \<Rightarrow> (nat + Server) option" where
  "start g [] s = Some (Inr s)"
| "start g (None # waits) s = exit_code 1"
| "start g (Some evs # waits) s = do {
     res \<leftarrow> handle_events g evs s;
     case res of Inl c \<Rightarrow> Some (Inl c) | Inr s \<Rightarrow> start g waits s
   }"

text \<open>The constructor exits when a system call fails.\<close>

record startup =
  st_socket :: int
  st_setsockopt :: int
  st_bind :: int
  st_listen :: int
  st_epoll_create :: int
  st_epoll_ctl :: int

definition new_Server :: "startup \<Rightarrow> (nat + Server) option" where
  "new_Server st =
     (if st_socket st = -1 then exit_code 1
      else if st_setsockopt st = -1 then exit_code 1
      else if st_bind st = -1 then exit_code 1
      else if st_listen st = -1 then exit_code 1
      else if st_epoll_create st = -1 then exit_code 1
      else if st_epoll_ctl st = -1 then exit_code 1
      else Some (Inr \<lparr>masterSocket = st_socket st, messangerReceiver = Map.empty, messageSender = [],
        watch = [st_socket st \<mapsto> or EPOLLIN EPOLLET], wire = (\<lambda>_. []), cout = []\<rparr>))"

definition server_main :: "startup \<Rightarrow> Message \<Rightarrow> event list option list \<Rightarrow> (nat + Server) option" where
  "server_main st g waits = do {
     r \<leftarrow> new_Server st;
     case r of Inl c \<Rightarrow> Some (Inl c) | Inr server \<Rightarrow> start g waits server
   }"

section \<open>Streams\<close>

text \<open>What a client's connection has carried or is going to: sent bytes and the queue.\<close>

definition queues_ok :: "MessageSender \<Rightarrow> bool" where
  "queues_ok ms \<longleftrightarrow> (\<forall>(fd, q) \<in> set ms. send_ok q) \<and> distinct (map fst ms)"

definition stream :: "MessageSender \<Rightarrow> (int \<Rightarrow> byte list) \<Rightarrow> int \<rightharpoonup> byte list" where
  "stream ms wi fd = map_option (\<lambda>q. wi fd @ queue q) (map_of ms fd)"

lemma send_ok_flag [simp]: "send_ok (q\<lparr>need_write := b\<rparr>) = send_ok q" "queue (q\<lparr>need_write := b\<rparr>) = queue q"
  by (simp_all add: send_ok_def queue_def)

text \<open>
  A socket serves when \<open>epoll_ctl\<close> works for it and no \<open>send\<close> fails but for \<open>EWOULDBLOCK\<close>: the
  server exits in its send loops only over a client whose socket does not.
\<close>

definition serves :: "env \<Rightarrow> int \<Rightarrow> bool" where
  "serves e fd \<longleftrightarrow> ctl_ok e fd \<and> (\<forall>r \<in> set (send_answers e fd). \<not> send_fails False r)"

definition clients :: "Server \<Rightarrow> int set" where
  "clients s = fst ` set (messageSender s)"

lemma write_entry_ok:
  assumes "send_ok q"
  shows "(write_entry e fd q wt wi = Some (Inl 1) \<and> \<not> serves e fd) \<or>
    (\<exists>q' wt' w. write_entry e fd q wt wi = Some (Inr (q', wt', wi(fd := wi fd @ w))) \<and> send_ok q'
      \<and> w @ queue q' = queue q \<and> need_write q' = (queue q' \<noteq> []))"
proof -
  obtain out w q1 where f: "flush False (send_answers e fd) q = Some (out, w, q1)" "send_ok q1"
    "w @ queue q1 = queue q" "out = Drained \<longleftrightarrow> queue q1 = []" "need_write q1 = need_write q"
    using flush_ok [OF assms] by blast
  have I: ?thesis if "write_entry e fd q wt wi = Some (Inr (q1\<lparr>need_write := b\<rparr>, wt', wi(fd := wi fd @ w)))"
    "b = (queue q1 \<noteq> [])" for b wt'
    using that f(2,3) by (intro disjI2 exI [of _ "q1\<lparr>need_write := b\<rparr>"] exI [of _ wt'] exI [of _ w]) simp
  have u: "q1 = q1\<lparr>need_write := False\<rparr>" if "\<not> need_write q1" using that by simp
  have o: "out = Drained \<or> out = Blocked" if "serves e fd"
    using flush_outcome [OF f(1)] that by (simp add: serves_def)
  have c: "ctl_ok e fd" if "serves e fd" using that by (simp add: serves_def)
  show ?thesis
  proof (cases out)
    case Drained
    then have "queue q1 = []" using f(4) by simp
    then show ?thesis using I [of False] u Drained c
      by (cases "need_write q1"; cases "ctl_ok e fd") (auto simp: write_entry_def f(1) exit_code_def)
  next
    case Blocked
    then have "queue q1 \<noteq> []" using f(4) by simp
    then show ?thesis using I [of True] Blocked c
      by (cases "ctl_ok e fd") (auto simp: write_entry_def f(1) exit_code_def)
  qed (use o in \<open>auto simp: write_entry_def f(1) exit_code_def\<close>)
qed

lemma write_entries_ok:
  assumes "queues_ok ms"
  shows "(write_entries e ms wt wi = Some (Inl 1) \<and> (\<exists>c \<in> fst ` set ms. \<not> serves e c)) \<or>
    (\<exists>ms' wt' wi'. write_entries e ms wt wi = Some (Inr (ms', wt', wi')) \<and> queues_ok ms'
      \<and> map fst ms' = map fst ms \<and> stream ms' wi' = stream ms wi
      \<and> (\<forall>fd. fd \<notin> fst ` set ms \<longrightarrow> wi' fd = wi fd)
      \<and> (\<forall>(fd, q) \<in> set ms'. need_write q = (queue q \<noteq> [])))"
  using assms
proof (induction ms arbitrary: wt wi)
  case Nil
  then show ?case by simp
next
  case (Cons x ms)
  obtain fd q where x: "x = (fd, q)" by force
  have ok: "send_ok q" "queues_ok ms" "fd \<notin> fst ` set ms" using Cons.prems by (auto simp: queues_ok_def x)
  show ?case
  proof (cases "write_entry e fd q wt wi = Some (Inl 1)")
    case True
    then have "\<not> serves e fd" using write_entry_ok [OF ok(1), of e fd wt wi] by auto
    then show ?thesis using True by (simp add: x)
  next
    case False
    then obtain q1 wt1 w where one: "write_entry e fd q wt wi = Some (Inr (q1, wt1, wi(fd := wi fd @ w)))"
      "send_ok q1" "w @ queue q1 = queue q" "need_write q1 = (queue q1 \<noteq> [])"
      using write_entry_ok [OF ok(1)] by blast
    let ?wi = "wi(fd := wi fd @ w)"
    consider "write_entries e ms wt1 ?wi = Some (Inl 1)" "\<exists>c \<in> fst ` set ms. \<not> serves e c"
      | ms' wt' wi' where "write_entries e ms wt1 ?wi = Some (Inr (ms', wt', wi'))" "queues_ok ms'"
        "map fst ms' = map fst ms" "stream ms' wi' = stream ms ?wi"
        "\<forall>fd. fd \<notin> fst ` set ms \<longrightarrow> wi' fd = ?wi fd"
        "\<forall>(fd, q) \<in> set ms'. need_write q = (queue q \<noteq> [])"
      using Cons.IH [OF ok(2), of wt1 ?wi] by blast
    then show ?thesis
    proof cases
      case 1
      then show ?thesis using one(1) by (auto simp: x)
    next
      case 2
      have run: "write_entries e (x # ms) wt wi = Some (Inr ((fd, q1) # ms', wt', wi'))"
        using one(1) 2(1) by (simp add: x)
      have fs: "fst ` set ms' = fst ` set ms" using 2(3) by (metis list.set_map)
      have st: "stream ((fd, q1) # ms') wi' = stream (x # ms) wi"
      proof
        fix fd'
        have "stream ms' wi' fd' = stream ms ?wi fd'" using 2(4) by simp
        then show "stream ((fd, q1) # ms') wi' fd' = stream (x # ms) wi fd'"
          using 2(5) ok(3) one(3) by (simp add: stream_def x)
      qed
      have "queues_ok ((fd, q1) # ms')" using 2(2,3) one(2) ok(3) fs by (auto simp: queues_ok_def)
      then show ?thesis using run st 2(3,5,6) one(4) 
        by (intro disjI2 exI [of _ "(fd, q1) # ms'"] exI [of _ wt'] exI [of _ wi'] conjI) (auto simp: x)
    qed
  qed
qed

lemma writeMessages_ok:
  assumes "queues_ok (messageSender s)"
  shows "(writeMessages e s = Some (Inl 1) \<and> (\<exists>c \<in> clients s. \<not> serves e c)) \<or>
    (\<exists>s'. writeMessages e s = Some (Inr s') \<and> queues_ok (messageSender s')
      \<and> map fst (messageSender s') = map fst (messageSender s)
      \<and> stream (messageSender s') (wire s') = stream (messageSender s) (wire s)
      \<and> messangerReceiver s' = messangerReceiver s \<and> cout s' = cout s \<and> masterSocket s' = masterSocket s
      \<and> (\<forall>fd. fd \<notin> clients s \<longrightarrow> wire s' fd = wire s fd)
      \<and> (\<forall>(fd, q) \<in> set (messageSender s'). need_write q = (queue q \<noteq> [])))"
  using write_entries_ok [OF assms, of e "watch s" "wire s"] by (auto simp: writeMessages_def clients_def)

section \<open>Broadcasting\<close>

text \<open>The messages can be queued one after the other without meeting a block boundary.\<close>

fun all_off_boundary :: "MessageSender \<Rightarrow> byte list list \<Rightarrow> bool" where
  "all_off_boundary ms [] = True"
| "all_off_boundary ms (m # msgs) =
     ((\<forall>(fd, q) \<in> set ms. off_boundary q m \<and> count q + length m + 4 < SZ)
      \<and> (case sender_add_message ms m of None \<Rightarrow> False | Some ms \<Rightarrow> all_off_boundary ms msgs))"

lemma sender_add_message_stream:
  assumes "queues_ok ms" "\<forall>(fd, q) \<in> set ms. off_boundary q m \<and> count q + length m + 4 < SZ"
  obtains ms' where "sender_add_message ms m = Some ms'" "queues_ok ms'" "map fst ms' = map fst ms"
    "\<And>wi fd. stream ms' wi fd = map_option (\<lambda>bs. bs @ frame m) (stream ms wi fd)"
proof -
  have "\<forall>(fd, q) \<in> set ms. send_ok q \<and> off_boundary q m \<and> count q + length m + 4 < SZ"
    using assms by (auto simp: queues_ok_def)
  then obtain ms' where r: "sender_add_message ms m = Some ms'"
    and l: "list_all2 (\<lambda>(fd, q) (fd', q'). fd' = fd \<and> send_ok q' \<and> queue q' = queue q @ frame m
        \<and> need_write q' = need_write q) ms ms'" using sender_add_message_ok by blast
  have f: "map fst ms' = map fst ms" using l by (induction ms ms' rule: list_all2_induct) auto
  have "\<forall>(fd, q) \<in> set ms'. send_ok q" using l by (induction ms ms' rule: list_all2_induct) auto
  then have "queues_ok ms'" using assms(1) f by (simp add: queues_ok_def)
  moreover have "stream ms' wi fd = map_option (\<lambda>bs. bs @ frame m) (stream ms wi fd)" for wi fd
    using l unfolding stream_def by (induction ms ms' rule: list_all2_induct) auto
  ultimately show thesis using r f by (intro that)
qed

lemma broadcast_ok:
  assumes "queues_ok (messageSender s)" "all_off_boundary (messageSender s) msgs"
  shows "\<exists>ms. broadcast msgs s = Some (s\<lparr>messageSender := ms, cout := cout s @ msgs\<rparr>) \<and> queues_ok ms
    \<and> map fst ms = map fst (messageSender s)
    \<and> (\<forall>wi fd. stream ms wi fd = map_option (\<lambda>bs. bs @ concat (map frame msgs)) (stream (messageSender s) wi fd))"
  using assms
proof (induction msgs arbitrary: s)
  case Nil
  then show ?case by (intro exI [of _ "messageSender s"]) (simp add: option.map_ident)
next
  case (Cons m msgs)
  obtain ms1 where one: "sender_add_message (messageSender s) m = Some ms1" "queues_ok ms1"
    "map fst ms1 = map fst (messageSender s)"
    "\<And>wi fd. stream ms1 wi fd = map_option (\<lambda>bs. bs @ frame m) (stream (messageSender s) wi fd)"
    using sender_add_message_stream [OF Cons.prems(1), of m] Cons.prems(2) by auto
  let ?s = "s\<lparr>messageSender := ms1, cout := cout s @ [m]\<rparr>"
  obtain ms where two: "broadcast msgs ?s = Some (?s\<lparr>messageSender := ms, cout := cout ?s @ msgs\<rparr>)"
    "queues_ok ms" "map fst ms = map fst ms1"
    "\<forall>wi fd. stream ms wi fd = map_option (\<lambda>bs. bs @ concat (map frame msgs)) (stream ms1 wi fd)"
    using Cons.IH [of ?s] one Cons.prems(2) by auto
  show ?case using one two
    by (intro exI [of _ ms]) (simp add: option.map_comp comp_def)
qed

lemma read_piece:
  assumes q: "queues_ok (messageSender s)" and r: "slot_holds (messangerReceiver s) fd bs"
    and buf: "length buf \<le> 1024" and c: "clean (bs @ buf)"
    and b: "all_off_boundary (messageSender s) (fst (decode (bs @ buf)))"
  shows "(readClient g ((Received buf, e) # rs) s fd = Some (Inl 1) \<and> (\<exists>c \<in> clients s. \<not> serves e c)) \<or>
    (\<exists>s'. readClient g ((Received buf, e) # rs) s fd = readClient g rs s' fd
      \<and> queues_ok (messageSender s') \<and> map fst (messageSender s') = map fst (messageSender s)
      \<and> slot_holds (messangerReceiver s') fd (snd (decode (bs @ buf)))
      \<and> cout s' = cout s @ fst (decode (bs @ buf))
      \<and> (\<forall>c. stream (messageSender s') (wire s') c
          = map_option (\<lambda>t. t @ concat (map frame (fst (decode (bs @ buf))))) (stream (messageSender s) (wire s) c))
      \<and> (\<forall>(c, q) \<in> set (messageSender s'). need_write q = (queue q \<noteq> []))
      \<and> masterSocket s' = masterSocket s \<and> (\<forall>c. c \<noteq> fd \<longrightarrow> messangerReceiver s' c = messangerReceiver s c)
      \<and> (\<forall>c. c \<notin> clients s \<longrightarrow> wire s' c = wire s c))"
proof -
  obtain r' where p: "process g (messangerReceiver s) fd buf = Some (fst (decode (bs @ buf)), r')"
    "slot_holds r' fd (snd (decode (bs @ buf)))" "\<forall>c. c \<noteq> fd \<longrightarrow> r' c = messangerReceiver s c"
    using process_decodes [OF r buf c] by blast
  let ?msgs = "fst (decode (bs @ buf))"
  let ?s1 = "s\<lparr>messangerReceiver := r'\<rparr>"
  obtain ms where br: "broadcast ?msgs ?s1 = Some (?s1\<lparr>messageSender := ms, cout := cout s @ ?msgs\<rparr>)"
    "queues_ok ms" "map fst ms = map fst (messageSender s)"
    "\<forall>wi c. stream ms wi c = map_option (\<lambda>t. t @ concat (map frame ?msgs)) (stream (messageSender s) wi c)"
    using broadcast_ok [of ?s1 ?msgs] q b by auto
  let ?s2 = "?s1\<lparr>messageSender := ms, cout := cout s @ ?msgs\<rparr>"
  have q2: "queues_ok (messageSender ?s2)" using br(2) by simp
  have "fst ` set ms = fst ` set (messageSender s)" using br(3) by (metis list.set_map)
  then have cl: "clients ?s2 = clients s" by (simp add: clients_def)
  from writeMessages_ok [OF q2, of e] show ?thesis
  proof (elim disjE exE conjE)
    assume "writeMessages e ?s2 = Some (Inl 1)" "\<exists>c \<in> clients ?s2. \<not> serves e c"
    then show ?thesis using p(1) br(1) cl by simp
  next
    fix s'
    assume w: "writeMessages e ?s2 = Some (Inr s')" and s': "queues_ok (messageSender s')"
      "map fst (messageSender s') = map fst (messageSender ?s2)"
      "stream (messageSender s') (wire s') = stream (messageSender ?s2) (wire ?s2)"
      "messangerReceiver s' = messangerReceiver ?s2" "cout s' = cout ?s2" "masterSocket s' = masterSocket ?s2"
      "\<forall>c. c \<notin> clients ?s2 \<longrightarrow> wire s' c = wire ?s2 c"
      "\<forall>(fd, q) \<in> set (messageSender s'). need_write q = (queue q \<noteq> [])"
    have "readClient g ((Received buf, e) # rs) s fd = readClient g rs s' fd" using p(1) br(1) w by simp
    then show ?thesis using s' br(3,4) p(2,3) unfolding cl by (intro disjI2 exI [of _ s']) simp
  qed
qed

lemma readClient_Cons:
  "readClient g ((Received buf, e) # rs) s fd = do {
     r \<leftarrow> readClient g [(Received buf, e)] s fd;
     case r of Inl c \<Rightarrow> Some (Inl c) | Inr s \<Rightarrow> readClient g rs s fd
   }"
  by (auto split: sum.splits bind_splits prod.splits)

section \<open>Properties\<close>

definition EBADF :: int where
  "EBADF = 9"

text \<open>Property C10. When a piece of a client's stream arrives, the server decodes the messages that
  it completes and appends their frames, in this order, to the streams of all clients;
  \<open>need_write\<close> marks exactly the clients with bytes left. It exits only if a client's socket
  fails: \<open>epoll_ctl\<close> does, or \<open>send\<close> for another reason than \<open>EWOULDBLOCK\<close>.\<close>

theorem server_broadcasts:
  assumes "queues_ok (messageSender s)" "slot_holds (messangerReceiver s) fd bs" "length buf \<le> 1024"
    and "clean (bs @ buf)" "all_off_boundary (messageSender s) (fst (decode (bs @ buf)))"
  shows "(readClient g [(Received buf, e)] s fd = Some (Inl 1) \<and> (\<exists>c \<in> clients s. \<not> serves e c)) \<or>
    (\<exists>s'. readClient g [(Received buf, e)] s fd = Some (Inr s')
      \<and> queues_ok (messageSender s') \<and> map fst (messageSender s') = map fst (messageSender s)
      \<and> slot_holds (messangerReceiver s') fd (snd (decode (bs @ buf)))
      \<and> cout s' = cout s @ fst (decode (bs @ buf))
      \<and> (\<forall>c. stream (messageSender s') (wire s') c
          = map_option (\<lambda>t. t @ concat (map frame (fst (decode (bs @ buf))))) (stream (messageSender s) (wire s) c))
      \<and> (\<forall>(c, q) \<in> set (messageSender s'). need_write q = (queue q \<noteq> [])))"
  using read_piece [OF assms, of g e "[]"] unfolding readClient.simps(1) by blast

definition demo_server :: Server where
  "demo_server = \<lparr>masterSocket = 3, messangerReceiver = Map.empty,
     messageSender = [(5, new_MessageForSend), (6, new_MessageForSend)],
     watch = Map.empty, wire = (\<lambda>_. []), cout = []\<rparr>"

definition demo_env :: env where
  "demo_env = \<lparr>send_answers = (\<lambda>_. [Accepts 100]), ctl_ok = (\<lambda>_. True)\<rparr>"

lemma demo_stream:
  "decode [2, 0, 0, 0, 104, 105] = ([[104, 105]], [])" "clean [2, 0, 0, 0, 104, 105 :: byte]"
proof -
  have l: "[0..<4] = [0, 1, 2, 3]" by (simp add: upt_rec)
  have f: "[2, 0, 0, 0, 104, 105 :: byte] = concat (map frame [[104, 105]])"
    by (simp add: frame_def put32_def l)
  show "decode [2, 0, 0, 0, 104, 105] = ([[104, 105]], [])" "clean [2, 0, 0, 0, 104, 105 :: byte]"
    unfolding f by (rule decode_frames clean_frames; simp)+
qed

lemma demo_serves: "serves demo_env fd"
  by (simp add: serves_def demo_env_def send_fails_def)

theorem server_broadcasts_witness:
  "\<exists>s'. readClient blank_Message [(Received [2, 0, 0, 0, 104, 105], demo_env)] demo_server 5 = Some (Inr s')
      \<and> cout s' = [[104, 105]]"
proof -
  have b: "all_off_boundary (messageSender demo_server) [[104, 105]]"
    by (simp add: demo_server_def off_boundary_def room_in_last_def new_MessageForSend_def SZ_def
        add_message_def push_blocks.simps)
  show ?thesis
    using server_broadcasts [of demo_server 5 "[]" "[2, 0, 0, 0, 104, 105]" blank_Message demo_env]
      b demo_stream demo_serves
    by (auto simp: demo_server_def queues_ok_def new_MessageForSend_ok slot_holds_def complete_def)
qed

text \<open>Property C34. Deleting a client leaves its queue in the server, because \<open>deleteSockFd\<close> erases
  only missing entries: the next message is queued for the closed socket, \<open>send\<close> answers
  \<open>EBADF\<close>, whose bits the test \<open>errno & EWOULDBLOCK\<close> takes for \<open>EWOULDBLOCK\<close>, \<open>epoll_ctl\<close> on
  the closed socket fails, and the server exits.\<close>

theorem disconnect_stops_server:
  assumes "queues_ok (messageSender s)" "map_of (messageSender s) gone = Some q" "ctl_ok e gone"
    and "send_answers e' gone = [Refuses EBADF]" "\<not> ctl_ok e' gone"
    and "slot_holds (messangerReceiver s) fd bs" "length buf \<le> 1024" "clean (bs @ buf)"
    and "all_off_boundary (messageSender s) (fst (decode (bs @ buf)))" "fst (decode (bs @ buf)) \<noteq> []"
  shows "\<exists>s'. deleteClient e s gone = Some (Inr s') \<and> messageSender s' = messageSender s
    \<and> readClient g [(Received buf, e')] s' fd = Some (Inl 1)"
proof -
  let ?s = "s\<lparr>watch := (watch s)(gone := None)\<rparr>"
  have del: "deleteClient e s gone = Some (Inr ?s)"
    using assms(2,3) by (simp add: deleteClient_def sender_deleteSockFd_def deleteSockFd_id)
  have stuck: "write_entries e' ms wt wi = Some (Inl 1)"
    if "queues_ok ms" "map_of ms gone = Some q'" "queue q' \<noteq> []" for ms q' wt wi
    using that
  proof (induction ms arbitrary: wt wi)
    case Nil
    then show ?case by simp
  next
    case (Cons x ms)
    obtain c k where x: "x = (c, k)" by force
    have ok: "send_ok k" "queues_ok ms" using Cons.prems by (auto simp: queues_ok_def x)
    show ?case
    proof (cases "c = gone")
      case True
      then have "k = q'" using Cons.prems(2) by (simp add: x)
      then have "flush False [Refuses EBADF] k = Some (Blocked, [], k)"
        using ok(1) Cons.prems(3) getbitarray_ok [OF ok(1), of 1024]
        by (simp add: flush_def send_loop.simps would_block_def EBADF_def EWOULDBLOCK_def)
      then show ?thesis using assms(4,5) True by (simp add: x write_entry_def exit_code_def)
    next
      case False
      then have "map_of ms gone = Some q'" using Cons.prems(2) by (simp add: x)
      then have "write_entries e' ms wt wi = Some (Inl 1)" for wt wi
        using Cons.IH ok(2) Cons.prems(3) by blast
      then show ?thesis using write_entry_ok [OF ok(1), of e' c wt wi] by (auto simp: x)
    qed
  qed
  obtain r' where p: "process g (messangerReceiver s) fd buf = Some (fst (decode (bs @ buf)), r')"
    using process_decodes [OF assms(6-8)] by blast
  let ?msgs = "fst (decode (bs @ buf))"
  let ?s1 = "?s\<lparr>messangerReceiver := r'\<rparr>"
  obtain ms where br: "broadcast ?msgs ?s1 = Some (?s1\<lparr>messageSender := ms, cout := cout s @ ?msgs\<rparr>)"
    "queues_ok ms"
    "\<forall>wi c. stream ms wi c = map_option (\<lambda>t. t @ concat (map frame ?msgs)) (stream (messageSender s) wi c)"
    using broadcast_ok [of ?s1 ?msgs] assms(1,9) by auto
  have "map_option queue (map_of ms gone) = Some (queue q @ concat (map frame ?msgs))"
    using spec [OF spec [OF br(3), of "\<lambda>_. []"], of gone] assms(2) by (simp add: stream_def)
  then obtain q' where q': "map_of ms gone = Some q'" "queue q' = queue q @ concat (map frame ?msgs)"
    by auto
  obtain m0 rest where "?msgs = m0 # rest" using assms(10) by (cases ?msgs) auto
  then have "queue q' \<noteq> []" using q'(2) by (simp add: frame_def put32_def)
  then have "readClient g [(Received buf, e')] ?s fd = Some (Inl 1)"
    using p br(1) stuck [OF br(2) q'(1)] by (simp add: writeMessages_def)
  then show ?thesis using del by auto
qed

theorem disconnect_stops_server_witness:
  "\<exists>s'. deleteClient demo_env demo_server 5 = Some (Inr s') \<and> messageSender s' = messageSender demo_server
    \<and> readClient blank_Message [(Received [2, 0, 0, 0, 104, 105],
        demo_env\<lparr>send_answers := (\<lambda>_. [Refuses EBADF]), ctl_ok := (\<lambda>fd. fd \<noteq> 5)\<rparr>)] s' 6 = Some (Inl 1)"
proof -
  have b: "all_off_boundary (messageSender demo_server) [[104, 105]]"
    by (simp add: demo_server_def off_boundary_def room_in_last_def new_MessageForSend_def SZ_def
        add_message_def push_blocks.simps)
  show ?thesis
    using disconnect_stops_server [of demo_server 5 new_MessageForSend demo_env
        "demo_env\<lparr>send_answers := (\<lambda>_. [Refuses EBADF]), ctl_ok := (\<lambda>fd. fd \<noteq> 5)\<rparr>" 6 "[]"
        "[2, 0, 0, 0, 104, 105]" blank_Message]
      b demo_stream
    by (simp add: demo_server_def demo_env_def queues_ok_def new_MessageForSend_ok slot_holds_def complete_def)
qed

text \<open>An event that only says that a socket can be written again is ignored: the bytes
  that \<open>need_write\<close> marks wait for the next message of any client.\<close>

theorem writable_event_ignored:
  assumes "ev_events ev = EPOLLOUT" "ev_fd ev \<noteq> masterSocket s"
  shows "handle_events g [ev] s = Some (Inr s)"
  using assms by (simp add: processClientEvent_def EPOLLOUT_def EPOLLERR_def EPOLLHUP_def EPOLLIN_def)

theorem writable_event_ignored_witness:
  "handle_events blank_Message [\<lparr>ev_fd = 5, ev_events = EPOLLOUT, ev_accept = 0, ev_fcntl_ok = True, ev_recvs = [], ev_env = demo_env\<rparr>]
     demo_server = Some (Inr demo_server)"
  using writable_event_ignored [of "\<lparr>ev_fd = 5, ev_events = EPOLLOUT, ev_accept = 0, ev_fcntl_ok = True, ev_recvs = [], ev_env = demo_env\<rparr>" demo_server]
  by (simp add: demo_server_def)

lemma map_of_emplace: "map_of ms fd = None \<Longrightarrow> map_of (emplace fd v ms) = (map_of ms)(fd \<mapsto> v)"
  by (induction fd v ms rule: emplace.induct) (auto split: if_splits)

lemma update_entry_ok:
  assumes "map_of ms fd = Some q" "f q = Some q'"
  shows "\<exists>ms'. update_entry fd f ms = Some ms' \<and> map_of ms' = (map_of ms)(fd \<mapsto> q')
    \<and> map fst ms' = map fst ms \<and> set ms' \<subseteq> insert (fd, q') (set ms)"
  using assms
proof (induction ms)
  case (Cons x ms)
  obtain a b where x: "x = (a, b)" by force
  show ?case
  proof (cases "a = fd")
    case True
    then have "b = q" using Cons.prems by (simp add: x)
    then show ?thesis using True Cons.prems(2) by (intro exI [of _ "(fd, q') # ms"]) (auto simp: x)
  next
    case False
    then have "map_of ms fd = Some q" using Cons.prems(1) by (simp add: x)
    then obtain ms' where r: "update_entry fd f ms = Some ms'" "map_of ms' = (map_of ms)(fd \<mapsto> q')"
      "map fst ms' = map fst ms" "set ms' \<subseteq> insert (fd, q') (set ms)"
      using Cons.IH Cons.prems(2) by blast
    have "map_of ((a, b) # ms') = (map_of (x # ms))(fd \<mapsto> q')"
      using r(2) False by (simp add: x fun_upd_twist)
    moreover have "update_entry fd f (x # ms) = Some ((a, b) # ms')" using r(1) False by (simp add: x)
    moreover have "set ((a, b) # ms') \<subseteq> insert (fd, q') (set (x # ms))" using r(4) unfolding x by auto
    moreover have "map fst ((a, b) # ms') = map fst (x # ms)" using r(3) by (simp add: x)
    ultimately show ?thesis by blast
  qed
qed simp

lemma accept_ok:
  assumes "queues_ok (messageSender s)" "sorted_wrt (<) (map fst (messageSender s))"
    and "map_of (messageSender s) (ev_accept ev) = None" "and (ev_events ev) EPOLLERR = 0"
    and "ev_accept ev \<noteq> -1" "ev_fcntl_ok ev" "ctl_ok (ev_env ev) (ev_accept ev)"
  shows "(processMasterEvent ev s = Some (Inl 1)
      \<and> (\<exists>c \<in> insert (ev_accept ev) (clients s). \<not> serves (ev_env ev) c)) \<or>
    (\<exists>s'. processMasterEvent ev s = Some (Inr s') \<and> queues_ok (messageSender s')
      \<and> sorted_wrt (<) (map fst (messageSender s'))
      \<and> stream (messageSender s') (wire s')
        = (stream (messageSender s) (wire s))(ev_accept ev \<mapsto> wire s (ev_accept ev) @ frame welcome_bytes)
      \<and> messangerReceiver s' = messangerReceiver s \<and> cout s' = cout s \<and> masterSocket s' = masterSocket s
      \<and> (\<forall>fd. fd \<notin> insert (ev_accept ev) (clients s) \<longrightarrow> wire s' fd = wire s fd))"
proof -
  let ?fd = "ev_accept ev" and ?ms = "messageSender s"
  have ne: "off_boundary new_MessageForSend welcome_bytes"
    "count new_MessageForSend + length welcome_bytes + 4 < SZ"
    by (simp_all add: off_boundary_def room_in_last_def new_MessageForSend_def welcome_bytes_def SZ_def)
  obtain q where q: "add_message new_MessageForSend welcome_bytes = Some q" "send_ok q"
    "queue q = frame welcome_bytes"
    using add_message_ok [OF new_MessageForSend_ok(1) ne] new_MessageForSend_ok(2) by auto
  let ?em = "add_client ?ms ?fd"
  have em: "map_of ?em = (map_of ?ms)(?fd \<mapsto> new_MessageForSend)" "sorted_wrt (<) (map fst ?em)"
    "set ?em = insert (?fd, new_MessageForSend) (set ?ms)"
    using map_of_emplace [OF assms(3)] sorted_emplace [OF assms(2)] set_emplace(1) [OF assms(3)]
    by (simp_all add: add_client_def)
  obtain ms where u: "update_entry ?fd (\<lambda>q. add_message q welcome_bytes) ?em = Some ms"
    "map_of ms = (map_of ?em)(?fd \<mapsto> q)" "map fst ms = map fst ?em" "set ms \<subseteq> insert (?fd, q) (set ?em)"
    using update_entry_ok [of ?em ?fd new_MessageForSend "\<lambda>q. add_message q welcome_bytes" q] em(1) q(1) by auto
  have so: "sorted_wrt (<) (map fst ms)" using u(3) em(2) by simp
  then have "distinct (map fst ms)" by (simp add: strict_sorted_iff)
  then have qs: "queues_ok ms"
    using u(4) em(3) q(2) assms(1) new_MessageForSend_ok(1) by (fastforce simp: queues_ok_def)
  let ?s = "s\<lparr>watch := (watch s)(?fd \<mapsto> or (or EPOLLIN EPOLLET) EAGAIN), messageSender := ms\<rparr>"
  have run: "processMasterEvent ev s = writeMessages (ev_env ev) ?s"
    using assms(4-7) u(1) by (simp add: processMasterEvent_def)
  have "stream ms (wire s) = (stream ?ms (wire s))(?fd \<mapsto> wire s ?fd @ frame welcome_bytes)"
    by (rule ext) (simp add: stream_def u(2) em(1) q(3))
  moreover have "fst ` set ms = insert ?fd (clients s)"
    using em(3) arg_cong [OF u(3), of set] by (simp add: clients_def)
  then have cl: "clients ?s = insert ?fd (clients s)" by (simp add: clients_def)
  have q: "queues_ok (messageSender ?s)" using qs by simp
  ultimately show ?thesis using writeMessages_ok [OF q, of "ev_env ev"] so unfolding run cl
    by (elim disjE exE conjE) (blast, intro disjI2 exI conjI, assumption, simp_all)
qed

text \<open>Property C27. A new connection gets an entry with the welcome frame, the other streams stay as
  they are, and the order of the entries is kept. The server exits only if a client's socket
  fails when the frame is sent, the new one or another.\<close>

theorem accept_welcomes:
  assumes "queues_ok (messageSender s)" "sorted_wrt (<) (map fst (messageSender s))"
    and "map_of (messageSender s) (ev_accept ev) = None" "and (ev_events ev) EPOLLERR = 0"
    and "ev_accept ev \<noteq> -1" "ev_fcntl_ok ev" "ctl_ok (ev_env ev) (ev_accept ev)"
  shows "(processMasterEvent ev s = Some (Inl 1)
      \<and> (\<exists>c \<in> insert (ev_accept ev) (clients s). \<not> serves (ev_env ev) c)) \<or>
    (\<exists>s'. processMasterEvent ev s = Some (Inr s') \<and> queues_ok (messageSender s')
      \<and> sorted_wrt (<) (map fst (messageSender s'))
      \<and> stream (messageSender s') (wire s')
        = (stream (messageSender s) (wire s))(ev_accept ev \<mapsto> wire s (ev_accept ev) @ frame welcome_bytes))"
  using accept_ok [OF assms] by blast

theorem accept_welcomes_witness:
  "\<exists>s'. processMasterEvent \<lparr>ev_fd = 3, ev_events = 1, ev_accept = 7, ev_fcntl_ok = True, ev_recvs = [], ev_env = demo_env\<rparr>
      demo_server = Some (Inr s') \<and> stream (messageSender s') (wire s') 7 = Some (frame welcome_bytes)"
  using accept_welcomes [of demo_server
      "\<lparr>ev_fd = 3, ev_events = 1, ev_accept = 7, ev_fcntl_ok = True, ev_recvs = [], ev_env = demo_env\<rparr>"] demo_serves
  by (auto simp: demo_server_def demo_env_def queues_ok_def new_MessageForSend_ok EPOLLERR_def)

end
