(* ===== verification/Chat_Client.thy ===== *)
theory Chat_Client
  imports Chat_Server
begin

text \<open>
  Model of the chat client, \<^verbatim>\<open>src/p2/client.cpp\<close>: the body of its \<open>select\<close> loop. What
  \<open>select\<close>, \<open>std::cin\<close>, \<open>recv\<close> and \<open>send\<close> answer is an argument; \<open>Inl code\<close> is a call of
  \<open>exit\<close>.
\<close>

section \<open>The client\<close>

record Client =
  socketFd :: int
  c_receiver :: MessageReceiver
  messageForSend :: MessageForSend
  needwrite :: bool
  c_wire :: "byte list"
  c_cout :: "byte list list"

record select_io =
  sel_failed :: bool
  stdin_ready :: bool
  sock_readable :: bool
  sock_writable :: bool
  cin_word :: "byte list"
  sock_recv :: recv_result
  sock_send :: "send_result list"

definition new_Client :: "int \<Rightarrow> Client" where
  "new_Client fd = \<lparr>socketFd = fd, c_receiver = Map.empty, messageForSend = new_MessageForSend,
     needwrite = False, c_wire = [], c_cout = []\<rparr>"

text \<open>The constructor: \<open>connect\<close> answers 0, or -1 with an \<open>errno\<close>.\<close>

record client_startup =
  cs_socket :: int
  cs_fcntl :: int
  cs_connect :: "int \<times> int"

definition EINPROGRESS :: int where
  "EINPROGRESS = 115"

definition open_Client :: "client_startup \<Rightarrow> (nat + Client) option" where
  "open_Client st =
     (if cs_socket st = -1 then exit_code 1
      else if cs_fcntl st = -1 then exit_code 1
      else if fst (cs_connect st) = -1 \<and> snd (cs_connect st) \<noteq> EINPROGRESS then exit_code 1
      else Some (Inr (new_Client (cs_socket st))))"

definition readServer :: "Message \<Rightarrow> select_io \<Rightarrow> Client \<Rightarrow> (nat + Client) option" where
  "readServer g io s = (case sock_recv io of
      Eof \<Rightarrow> exit_code 0
    | RecvError e \<Rightarrow> exit_code 1
    | Received buf \<Rightarrow> do {
        (msgs, r) \<leftarrow> process g (c_receiver s) (socketFd s) buf;
        Some (Inr (s\<lparr>c_receiver := r, c_cout := c_cout s @ msgs\<rparr>))
      })"

definition readFds :: "Message \<Rightarrow> select_io \<Rightarrow> Client \<Rightarrow> (nat + Client) option" where
  "readFds g io s = do {
     s \<leftarrow> (if stdin_ready io then do {
             q \<leftarrow> add_message (messageForSend s) (cin_word io);
             Some (s\<lparr>messageForSend := q, needwrite := True\<rparr>)
           } else Some s);
     if sock_readable io then readServer g io s else Some (Inr s)
   }"

definition writeFds :: "select_io \<Rightarrow> Client \<Rightarrow> (nat + Client) option" where
  "writeFds io s =
     (if sock_writable io then do {
        (out, sent, q) \<leftarrow> flush True (sock_send io) (messageForSend s);
        let s = s\<lparr>messageForSend := q, c_wire := c_wire s @ sent\<rparr>;
        (case out of
           Closed \<Rightarrow> exit_code 0
         | Blocked \<Rightarrow> Some (Inr (s\<lparr>needwrite := True\<rparr>))
         | Failed \<Rightarrow> exit_code 1
         | Drained \<Rightarrow> Some (Inr (s\<lparr>needwrite := False\<rparr>)))
      } else Some (Inr s))"

text \<open>One turn of \<open>Client::start\<close>; the socket is asked for writability only when needed.\<close>

definition client_turn :: "Message \<Rightarrow> select_io \<Rightarrow> Client \<Rightarrow> (nat + Client) option" where
  "client_turn g io s =
     (if sel_failed io then exit_code 1
      else if \<not> needwrite s then readFds g io s
      else do {
        r \<leftarrow> readFds g io s;
        case r of Inl c \<Rightarrow> Some (Inl c) | Inr s \<Rightarrow> writeFds io s
      })"

fun client_start :: "Message \<Rightarrow> select_io list \<Rightarrow> Client \<Rightarrow> (nat + Client) option" where
  "client_start g [] s = Some (Inr s)"
| "client_start g (io # ios) s = do {
     r \<leftarrow> client_turn g io s;
     case r of Inl c \<Rightarrow> Some (Inl c) | Inr s \<Rightarrow> client_start g ios s
   }"

definition client_main :: "client_startup \<Rightarrow> Message \<Rightarrow> select_io list \<Rightarrow> (nat + Client) option" where
  "client_main st g ios = do {
     r \<leftarrow> open_Client st;
     case r of Inl c \<Rightarrow> Some (Inl c) | Inr client \<Rightarrow> client_start g ios client
   }"

lemma client_main_start:
  "client_main st g ios = Some (Inr s) \<Longrightarrow> client_start g ios (new_Client (cs_socket st)) = Some (Inr s)"
  by (auto simp: client_main_def open_Client_def exit_code_def split: if_splits)

section \<open>Invariant\<close>

text \<open>
  \<open>ms\<close> are the words read so far, \<open>bs\<close> the received bytes after the last delivered message:
  the words are on the wire or in the queue, and \<open>needwrite\<close> is set when bytes wait.
\<close>

definition client_ok :: "Client \<Rightarrow> byte list list \<Rightarrow> byte list \<Rightarrow> bool" where
  "client_ok s ms bs \<longleftrightarrow> send_ok (messageForSend s) \<and> slot_holds (c_receiver s) (socketFd s) bs
     \<and> c_wire s @ queue (messageForSend s) = concat (map frame ms)
     \<and> (queue (messageForSend s) \<noteq> [] \<longrightarrow> needwrite s)"

text \<open>What the environment of a turn may do: the typed word stays off the block boundary, a
  received piece is at most a buffer and has no zero byte in a body.\<close>

definition io_ok :: "select_io \<Rightarrow> Client \<Rightarrow> byte list \<Rightarrow> bool" where
  "io_ok io s bs \<longleftrightarrow>
     (stdin_ready io \<longrightarrow> off_boundary (messageForSend s) (cin_word io)
        \<and> count (messageForSend s) + length (cin_word io) + 4 < SZ)
     \<and> (sock_readable io \<longrightarrow> (case sock_recv io of
           Received buf \<Rightarrow> length buf \<le> 1024 \<and> clean (bs @ buf) | _ \<Rightarrow> True))"

definition typed :: "select_io \<Rightarrow> byte list list" where
  "typed io = (if stdin_ready io then [cin_word io] else [])"

definition piece :: "select_io \<Rightarrow> byte list" where
  "piece io = (if sock_readable io then (case sock_recv io of Received buf \<Rightarrow> buf | _ \<Rightarrow> []) else [])"

text \<open>The calls whose failure ends the client: \<open>select\<close>, a \<open>recv\<close> without bytes, a \<open>send\<close> that
  returns 0 or fails for another reason than \<open>EWOULDBLOCK\<close>.\<close>

definition recv_fails :: "select_io \<Rightarrow> bool" where
  "recv_fails io \<longleftrightarrow> sock_readable io \<and> (case sock_recv io of Received buf \<Rightarrow> False | _ \<Rightarrow> True)"

definition turn_fails :: "select_io \<Rightarrow> bool" where
  "turn_fails io \<longleftrightarrow> sel_failed io \<or> recv_fails io
     \<or> sock_writable io \<and> (\<exists>r \<in> set (sock_send io). send_fails True r)"

lemma readFds_ok:
  assumes ok: "client_ok s ms bs" and io: "io_ok io s bs"
  shows "((\<exists>c. readFds g io s = Some (Inl c)) \<and> recv_fails io) \<or>
    (\<exists>s'. readFds g io s = Some (Inr s') \<and> client_ok s' (ms @ typed io) (snd (decode (bs @ piece io)))
      \<and> c_cout s' = c_cout s @ fst (decode (bs @ piece io)) \<and> socketFd s' = socketFd s)"
proof -
  obtain s1 where s1: "(if stdin_ready io then do {
             q \<leftarrow> add_message (messageForSend s) (cin_word io);
             Some (s\<lparr>messageForSend := q, needwrite := True\<rparr>)
           } else Some s) = Some s1"
    "client_ok s1 (ms @ typed io) bs" "c_cout s1 = c_cout s" "socketFd s1 = socketFd s"
  proof (cases "stdin_ready io")
    case True
    obtain q where "add_message (messageForSend s) (cin_word io) = Some q" "send_ok q"
      "queue q = queue (messageForSend s) @ frame (cin_word io)"
      using add_message_ok [of "messageForSend s" "cin_word io"] ok io True
      by (auto simp: client_ok_def io_ok_def)
    moreover from this have "c_wire s @ queue q = concat (map frame (ms @ [cin_word io]))"
      using ok by (simp add: client_ok_def flip: append.assoc)
    ultimately show thesis using True ok
      by (intro that [of "s\<lparr>messageForSend := q, needwrite := True\<rparr>"]) (simp_all add: client_ok_def typed_def)
  next
    case False
    then show thesis using ok by (intro that [of s]) (simp_all add: typed_def)
  qed
  have sl: "slot_holds (c_receiver s1) (socketFd s1) bs" using s1(2) by (simp add: client_ok_def)
  show ?thesis
  proof (cases "sock_readable io")
    case False
    have "decode bs = ([], bs)" using sl by (simp add: slot_holds_def decode_incomplete)
    then show ?thesis using s1 False by (simp add: readFds_def piece_def)
  next
    case True
    show ?thesis
    proof (cases "sock_recv io")
      case (Received buf)
      obtain r' where "process g (c_receiver s1) (socketFd s1) buf = Some (fst (decode (bs @ buf)), r')"
        "slot_holds r' (socketFd s1) (snd (decode (bs @ buf)))"
        using process_decodes [OF sl, of buf g] io True Received by (auto simp: io_ok_def)
      then show ?thesis using s1 True Received
        by (simp add: readFds_def readServer_def piece_def client_ok_def)
    qed (use s1 True in \<open>simp_all add: readFds_def readServer_def exit_code_def recv_fails_def\<close>)
  qed
qed

lemma writeFds_ok:
  assumes "client_ok s ms bs"
  shows "((\<exists>c. writeFds io s = Some (Inl c)) \<and> turn_fails io) \<or>
    (\<exists>s'. writeFds io s = Some (Inr s') \<and> client_ok s' ms bs \<and> c_cout s' = c_cout s \<and> socketFd s' = socketFd s)"
proof -
  obtain out w q where f: "flush True (sock_send io) (messageForSend s) = Some (out, w, q)" "send_ok q"
    "w @ queue q = queue (messageForSend s)" "out = Drained \<longleftrightarrow> queue q = []"
    using flush_ok [of "messageForSend s" True "sock_send io"] assms by (auto simp: client_ok_def)
  have w: "(c_wire s @ w) @ queue q = concat (map frame ms)"
    using assms f(3) by (simp add: client_ok_def)
  show ?thesis
  proof (cases "sock_writable io")
    case True
    moreover have "turn_fails io" if "out \<noteq> Drained" "out \<noteq> Blocked"
      using flush_outcome [OF f(1)] that True by (auto simp: turn_fails_def)
    ultimately show ?thesis using assms f(1,2,4) w
      by (cases out) (simp_all add: writeFds_def client_ok_def exit_code_def)
  next
    case False
    then show ?thesis using assms by (simp add: writeFds_def)
  qed
qed

lemma client_turn_ok:
  assumes "client_ok s ms bs" "io_ok io s bs"
  shows "((\<exists>c. client_turn g io s = Some (Inl c)) \<and> turn_fails io) \<or>
    (\<exists>s'. client_turn g io s = Some (Inr s') \<and> client_ok s' (ms @ typed io) (snd (decode (bs @ piece io)))
      \<and> c_cout s' = c_cout s @ fst (decode (bs @ piece io)) \<and> socketFd s' = socketFd s)"
proof (cases "sel_failed io")
  case True
  then show ?thesis by (simp add: client_turn_def exit_code_def turn_fails_def)
next
  case False
  from readFds_ok [OF assms, of g] show ?thesis
  proof (elim disjE exE conjE)
    fix c assume "readFds g io s = Some (Inl c)" "recv_fails io"
    then show ?thesis using False by (auto simp: client_turn_def turn_fails_def)
  next
    fix s1 assume s1: "readFds g io s = Some (Inr s1)" "client_ok s1 (ms @ typed io) (snd (decode (bs @ piece io)))"
      "c_cout s1 = c_cout s @ fst (decode (bs @ piece io))" "socketFd s1 = socketFd s"
    then have "client_turn g io s = (if needwrite s then writeFds io s1 else Some (Inr s1))"
      using False by (simp add: client_turn_def)
    then show ?thesis using writeFds_ok [OF s1(2), of io] s1 by (cases "needwrite s") auto
  qed
qed

text \<open>Many turns: the environment keeps its conditions in every state that the client comes to.\<close>

fun turns_ok :: "Message \<Rightarrow> select_io list \<Rightarrow> Client \<Rightarrow> byte list \<Rightarrow> bool" where
  "turns_ok g [] s bs = True"
| "turns_ok g (io # ios) s bs =
     (io_ok io s bs \<and> (case client_turn g io s of
        Some (Inr s') \<Rightarrow> turns_ok g ios s' (snd (decode (bs @ piece io)))
      | _ \<Rightarrow> True))"

lemma client_run_ok:
  assumes "client_ok s ms bs" "turns_ok g ios s bs" "client_start g ios s = Some (Inr s')"
  shows "client_ok s' (ms @ concat (map typed ios)) (snd (decode (bs @ concat (map piece ios))))
    \<and> c_cout s' = c_cout s @ fst (decode (bs @ concat (map piece ios)))"
  using assms
proof (induction ios arbitrary: s ms bs)
  case Nil
  then have "decode bs = ([], bs)" by (simp add: client_ok_def slot_holds_def decode_incomplete)
  then show ?case using Nil by simp
next
  case (Cons io ios)
  have io: "io_ok io s bs" using Cons.prems(2) by simp
  from client_turn_ok [OF Cons.prems(1) io, of g] show ?case
  proof (elim disjE exE conjE)
    fix c assume "client_turn g io s = Some (Inl c)" "turn_fails io"
    then show ?thesis using Cons.prems(3) by simp
  next
    fix s1
    assume s1: "client_turn g io s = Some (Inr s1)"
      "client_ok s1 (ms @ typed io) (snd (decode (bs @ piece io)))"
      "c_cout s1 = c_cout s @ fst (decode (bs @ piece io))"
    have "turns_ok g ios s1 (snd (decode (bs @ piece io)))" "client_start g ios s1 = Some (Inr s')"
      using Cons.prems(2,3) s1(1) by simp_all
    from Cons.IH [OF s1(2) this] show ?thesis
      using s1(3) decode_append [of "bs @ piece io" "concat (map piece ios)"] by simp
  qed
qed

section \<open>Properties\<close>

text \<open>Property C28. In every turn the client either exits, because a call failed or the server closed
  the connection, or keeps its invariant: the words typed are framed, in order, on the wire or
  in the queue, \<open>needwrite\<close> is set while bytes wait, and what it prints are the messages of
  the received stream.\<close>

theorem client_turn_keeps:
  assumes "client_ok s ms bs" "io_ok io s bs"
  shows "((\<exists>c. client_turn g io s = Some (Inl c)) \<and> turn_fails io) \<or>
    (\<exists>s'. client_turn g io s = Some (Inr s') \<and> client_ok s' (ms @ typed io) (snd (decode (bs @ piece io)))
      \<and> c_cout s' = c_cout s @ fst (decode (bs @ piece io)))"
  using client_turn_ok [OF assms, of g] by blast

lemma new_Client_ok: "client_ok (new_Client fd) [] []"
  by (simp add: client_ok_def new_Client_def new_MessageForSend_ok slot_holds_def complete_def)

theorem client_turn_keeps_witness:
  "\<exists>s'. client_turn blank_Message \<lparr>sel_failed = False, stdin_ready = True, sock_readable = False,
      sock_writable = True, cin_word = [104], sock_recv = Eof, sock_send = [Accepts 9]\<rparr> (new_Client 3) = Some (Inr s')
      \<and> client_ok s' [[104]] []"
proof -
  let ?io = "\<lparr>sel_failed = False, stdin_ready = True, sock_readable = False,
      sock_writable = True, cin_word = [104], sock_recv = Eof, sock_send = [Accepts 9]\<rparr>"
  have "io_ok ?io (new_Client 3) []"
    by (simp add: io_ok_def new_Client_def new_MessageForSend_def off_boundary_def room_in_last_def SZ_def)
  from client_turn_keeps [OF new_Client_ok this, of blank_Message] show ?thesis
    by (simp add: typed_def piece_def decode_incomplete complete_def turn_fails_def recv_fails_def send_fails_def) blast
qed

end
