(* ===== verification/Chat_Room.thy ===== *)
theory Chat_Room
  imports Chat_Server "HOL-Library.Sublist"
begin

text \<open>
  What the chat server promises over a whole run: the room. Its state is what each socket was heard
  to send, the messages said so far, each with the socket it came from, and for each client the
  number of messages that had been said when it was accepted. The room is a function of the events
  alone; \<open>room_sim\<close> relates it to the server's state, and every event keeps the relation.
\<close>

section \<open>Texts\<close>

definition text_words :: "byte list list \<Rightarrow> bool" where
  "text_words ws \<longleftrightarrow> (\<forall>w \<in> set ws. w \<noteq> [] \<and> 0 \<notin> set w \<and> length w < 2 ^ 32)"

lemma text_words_append [simp]: "text_words (vs @ ws) \<longleftrightarrow> text_words vs \<and> text_words ws"
  by (auto simp: text_words_def)

lemma text_words_drop: "text_words ws \<Longrightarrow> text_words (drop n ws)"
  by (auto simp: text_words_def dest: in_set_dropD)

lemma decode_text: "text_words ws \<Longrightarrow> decode (concat (map frame ws)) = (ws, [])"
  by (intro decode_frames) (simp add: text_words_def)

lemma decode_prefix:
  assumes "prefix bs (concat (map frame ws))" "text_words ws"
  shows "prefix (fst (decode bs)) ws" "clean bs"
proof -
  obtain r where r: "concat (map frame ws) = bs @ r" using assms(1) by (auto simp: prefix_def)
  have d: "decode (bs @ r) = (ws, [])" "clean (bs @ r)"
    using decode_frames clean_frames [of ws] assms(2) by (auto simp: text_words_def simp flip: r)
  show "prefix (fst (decode bs)) ws" using d(1) decode_append [of bs r] by (auto simp: prefix_def)
  show "clean bs" using d(2) by (rule clean_prefix)
qed

text \<open>Messages that are decoded from a stream without zero bytes in its bodies have none and fit a header.\<close>

lemma decoded_text:
  assumes "clean bs" "[] \<notin> set (fst (decode bs))"
  shows "text_words (fst (decode bs))"
  using assms
proof (induction bs rule: decode.induct)
  case (1 bs)
  show ?case
  proof (cases "complete bs")
    case True
    have c: "0 \<notin> set (body_of bs)" "clean (after_body bs)"
      using 1(2) True by (subst (asm) clean.simps, simp add: complete_def)+
    have "length (take 4 bs) = 4" using True by (simp add: complete_def)
    then have "length (body_of bs) < 2 ^ 32"
      using get32_less [of "take 4 bs"] by (simp add: body_of_def)
    moreover have "body_of bs \<noteq> []" "[] \<notin> set (fst (decode (after_body bs)))"
      using 1(3) True by (auto simp: decode_complete)
    ultimately show ?thesis using 1(1) True c by (simp add: decode_complete text_words_def)
  next
    case False
    then show ?thesis by (simp add: decode_incomplete text_words_def)
  qed
qed

section \<open>The room\<close>

record room =
  heard :: "int \<Rightarrow> byte list"
  said :: "(int \<times> byte list) list"
  joined :: "int \<rightharpoonup> nat"

definition new_room :: room where
  "new_room = \<lparr>heard = (\<lambda>_. []), said = [], joined = Map.empty\<rparr>"

text \<open>The messages that a piece completes, those of one socket, and those that are due to a client.\<close>

definition news :: "room \<Rightarrow> int \<Rightarrow> byte list \<Rightarrow> byte list list" where
  "news rm c buf = fst (decode (snd (decode (heard rm c)) @ buf))"

definition said_by :: "int \<Rightarrow> room \<Rightarrow> byte list list" where
  "said_by c rm = map snd (filter (\<lambda>x. fst x = c) (said rm))"

definition due :: "room \<Rightarrow> nat \<Rightarrow> byte list list" where
  "due rm j = welcome_bytes # map snd (drop j (said rm))"

definition hear :: "int \<Rightarrow> byte list \<Rightarrow> room \<Rightarrow> room" where
  "hear c buf rm = rm\<lparr>heard := (heard rm)(c := heard rm c @ buf),
     said := said rm @ map (Pair c) (news rm c buf)\<rparr>"

fun room_reads :: "(recv_result \<times> env) list \<Rightarrow> int \<Rightarrow> room \<Rightarrow> room" where
  "room_reads ((Received buf, e) # rs) c rm = room_reads rs c (hear c buf rm)"
| "room_reads _ c rm = rm"

definition room_event :: "int \<Rightarrow> event \<Rightarrow> room \<Rightarrow> room" where
  "room_event master ev rm =
     (if ev_fd ev = master then rm\<lparr>joined := (joined rm)(ev_accept ev \<mapsto> length (said rm))\<rparr>
      else if and (ev_events ev) EPOLLHUP \<noteq> 0 then rm
      else if and (ev_events ev) EPOLLIN \<noteq> 0 then room_reads (ev_recvs ev) (ev_fd ev) rm
      else rm)"

definition room_run :: "int \<Rightarrow> event list \<Rightarrow> room" where
  "room_run master evs = fold (room_event master) evs new_room"

text \<open>
  What the environment of a run may do, in every state that the server comes to: a new connection
  has a number that was not used before; a piece is at most a buffer, has no zero byte in a body and
  completes no empty message; and no frame meets a block boundary of a queue.
\<close>

definition piece_ok :: "byte list \<Rightarrow> Server \<Rightarrow> int \<Rightarrow> room \<Rightarrow> bool" where
  "piece_ok buf s c rm \<longleftrightarrow> length buf \<le> 1024 \<and> clean (snd (decode (heard rm c)) @ buf)
     \<and> [] \<notin> set (news rm c buf) \<and> all_off_boundary (messageSender s) (news rm c buf)"

fun reads_ok :: "Message \<Rightarrow> (recv_result \<times> env) list \<Rightarrow> Server \<Rightarrow> int \<Rightarrow> room \<Rightarrow> bool" where
  "reads_ok g ((Received buf, e) # rs) s c rm =
     (piece_ok buf s c rm \<and> (case readClient g [(Received buf, e)] s c of
        Some (Inr s') \<Rightarrow> reads_ok g rs s' c (hear c buf rm)
      | _ \<Rightarrow> True))"
| "reads_ok g _ s c rm = True"

definition event_ok :: "Message \<Rightarrow> event \<Rightarrow> Server \<Rightarrow> room \<Rightarrow> bool" where
  "event_ok g ev s rm =
     (if ev_fd ev = masterSocket s then joined rm (ev_accept ev) = None
      else if and (ev_events ev) EPOLLHUP \<noteq> 0 then True
      else if and (ev_events ev) EPOLLIN \<noteq> 0 then reads_ok g (ev_recvs ev) s (ev_fd ev) rm
      else True)"

fun run_ok :: "Message \<Rightarrow> event list \<Rightarrow> Server \<Rightarrow> room \<Rightarrow> bool" where
  "run_ok g [] s rm = True"
| "run_ok g (ev # evs) s rm =
     (event_ok g ev s rm \<and> (case handle_events g [ev] s of
        Some (Inr s') \<Rightarrow> run_ok g evs s' (room_event (masterSocket s) ev rm)
      | _ \<Rightarrow> True))"

section \<open>The simulation\<close>

lemma bind_Inr: "(do { r \<leftarrow> x; case r of Inl c \<Rightarrow> Some (Inl c) | Inr s \<Rightarrow> f s }) = Some (Inr t)
    \<longleftrightarrow> (\<exists>s. x = Some (Inr s) \<and> f s = Some (Inr t))"
  by (cases x) (auto split: sum.splits)

definition room_sim :: "room \<Rightarrow> Server \<Rightarrow> bool" where
  "room_sim rm s \<longleftrightarrow>
     (queues_ok (messageSender s) \<and> sorted_wrt (<) (map fst (messageSender s)))
     \<and> (\<forall>c. slot_holds (messangerReceiver s) c (snd (decode (heard rm c))))
     \<and> (\<forall>c. stream (messageSender s) (wire s) c = map_option (\<lambda>j. concat (map frame (due rm j))) (joined rm c))
     \<and> (\<forall>c. joined rm c = None \<longrightarrow> wire s c = [])
     \<and> cout s = map snd (said rm)
     \<and> (\<forall>c. said_by c rm = fst (decode (heard rm c)))
     \<and> (\<forall>c j. joined rm c = Some j \<longrightarrow> j \<le> length (said rm))
     \<and> text_words (map snd (said rm))"

lemma room_sim_watch: "room_sim rm s \<Longrightarrow> room_sim rm (s\<lparr>watch := w\<rparr>)"
  by (simp add: room_sim_def)

lemma room_sim_clients: "room_sim rm s \<Longrightarrow> c \<in> clients s \<longleftrightarrow> joined rm c \<noteq> None"
proof -
  assume "room_sim rm s"
  then have "stream (messageSender s) (wire s) c = map_option (\<lambda>j. concat (map frame (due rm j))) (joined rm c)"
    by (simp add: room_sim_def)
  then have "map_of (messageSender s) c = None \<longleftrightarrow> joined rm c = None"
    by (metis option.map_disc_iff stream_def)
  then show ?thesis by (auto simp: map_of_eq_None_iff clients_def)
qed

lemma hear_sel [simp]: "joined (hear c buf rm) = joined rm"
  "heard (hear c buf rm) d = (if d = c then heard rm c @ buf else heard rm d)"
  "said (hear c buf rm) = said rm @ map (Pair c) (news rm c buf)"
  by (simp_all add: hear_def)

lemma decode_hear: "decode (heard rm c @ buf)
    = (fst (decode (heard rm c)) @ news rm c buf, snd (decode (snd (decode (heard rm c)) @ buf)))"
  using decode_append [of "heard rm c" buf] by (simp add: news_def)

lemma said_by_hear: "said_by d (hear c buf rm) = said_by d rm @ (if d = c then news rm c buf else [])"
  by (simp add: said_by_def filter_map comp_def)

lemma due_hear: "j \<le> length (said rm) \<Longrightarrow> due (hear c buf rm) j = due rm j @ news rm c buf"
  by (simp add: due_def comp_def)

lemma hear_sim:
  assumes sim: "room_sim rm s" and ok: "piece_ok buf s c rm"
    and run: "readClient g ((Received buf, e) # rs) s c = Some (Inr s')"
  obtains s1 where "readClient g [(Received buf, e)] s c = Some (Inr s1)" "readClient g rs s1 c = Some (Inr s')"
    "room_sim (hear c buf rm) s1" "masterSocket s1 = masterSocket s"
proof -
  let ?bs = "snd (decode (heard rm c))"
  have S: "queues_ok (messageSender s)" "sorted_wrt (<) (map fst (messageSender s))"
    "\<forall>d. slot_holds (messangerReceiver s) d (snd (decode (heard rm d)))"
    "\<forall>d. stream (messageSender s) (wire s) d = map_option (\<lambda>j. concat (map frame (due rm j))) (joined rm d)"
    "\<forall>d. joined rm d = None \<longrightarrow> wire s d = []" "cout s = map snd (said rm)"
    "\<forall>d. said_by d rm = fst (decode (heard rm d))"
    "\<forall>d j. joined rm d = Some j \<longrightarrow> j \<le> length (said rm)" "text_words (map snd (said rm))"
    using sim by (simp_all add: room_sim_def)
  have P: "length buf \<le> 1024" "clean (?bs @ buf)" "[] \<notin> set (fst (decode (?bs @ buf)))"
    "all_off_boundary (messageSender s) (fst (decode (?bs @ buf)))"
    using ok by (simp_all add: piece_ok_def news_def)
  obtain s1 where s1: "readClient g [(Received buf, e)] s c = Some (Inr s1)" "readClient g rs s1 c = Some (Inr s')"
    using run unfolding readClient_Cons [of g buf e rs s c] bind_Inr by blast
  from read_piece [OF S(1) spec [OF S(3), of c] P(1,2,4), of g e "[]"] s1(1)
  have R: "queues_ok (messageSender s1)" "map fst (messageSender s1) = map fst (messageSender s)"
    "slot_holds (messangerReceiver s1) c (snd (decode (?bs @ buf)))" "cout s1 = cout s @ news rm c buf"
    "\<forall>d. stream (messageSender s1) (wire s1) d
        = map_option (\<lambda>t. t @ concat (map frame (news rm c buf))) (stream (messageSender s) (wire s) d)"
    "masterSocket s1 = masterSocket s" "\<forall>d. d \<noteq> c \<longrightarrow> messangerReceiver s1 d = messangerReceiver s d"
    "\<forall>d. d \<notin> clients s \<longrightarrow> wire s1 d = wire s d"
    by (auto simp: news_def simp del: readClient.simps(4) split: option.splits)
  have "slot_holds (messangerReceiver s1) d (snd (decode (heard (hear c buf rm) d)))" for d
    using S(3) R(3,7) by (cases "d = c") (simp_all add: decode_hear slot_holds_def)
  moreover have "stream (messageSender s1) (wire s1) d
      = map_option (\<lambda>j. concat (map frame (due (hear c buf rm) j))) (joined rm d)" for d
    using R(5) S(4,8) by (cases "joined rm d") (simp_all add: due_hear)
  moreover have "joined rm d = None \<longrightarrow> wire s1 d = []" for d
    using S(5) R(8) room_sim_clients [OF sim, of d] by auto
  moreover have "said_by d (hear c buf rm) = fst (decode (heard (hear c buf rm) d))" for d
    using S(7) by (simp add: said_by_hear decode_hear)
  moreover have "text_words (news rm c buf)"
    using decoded_text [OF P(2,3)] by (simp add: news_def)
  ultimately have "room_sim (hear c buf rm) s1"
    using R(1,2,4) S(2,6,8,9) by (fastforce simp: room_sim_def comp_def)
  then show thesis using s1 R(6) by (intro that)
qed

lemma deleteClient_watch:
  assumes "deleteClient e s c = Some (Inr s')"
  obtains w where "s' = s\<lparr>watch := w\<rparr>"
proof -
  have "sender_deleteSockFd (messageSender s) c = messageSender s"
    by (auto simp: sender_deleteSockFd_def map_of_eq_None_iff filter_id_conv)
  then have "s' = s\<lparr>watch := (watch s)(c := None)\<rparr>"
    using assms by (simp add: deleteClient_def deleteSockFd_id exit_code_def split: if_splits)
  then show thesis by (rule that)
qed

lemma deleteClient_sim:
  assumes "room_sim rm s" "deleteClient e s c = Some (Inr s')"
  shows "room_sim rm s' \<and> masterSocket s' = masterSocket s"
  using deleteClient_watch [OF assms(2)] room_sim_watch [OF assms(1)] by (metis Server.select_convs(1) Server.surjective Server.update_convs(4))

lemma reads_sim:
  assumes "room_sim rm s" "reads_ok g rs s c rm" "readClient g rs s c = Some (Inr s')"
  shows "room_sim (room_reads rs c rm) s' \<and> masterSocket s' = masterSocket s"
  using assms
proof (induction rs arbitrary: s rm)
  case Nil
  then show ?case by simp
next
  case (Cons r rs)
  obtain a e where r: "r = (a, e)" by force
  show ?case
  proof (cases a)
    case (Received buf)
    have ok: "piece_ok buf s c rm" using Cons.prems(2) by (simp add: r Received)
    have run: "readClient g ((Received buf, e) # rs) s c = Some (Inr s')"
      using Cons.prems(3) by (simp only: r Received)
    obtain s1 where s1: "readClient g [(Received buf, e)] s c = Some (Inr s1)" "readClient g rs s1 c = Some (Inr s')"
      "room_sim (hear c buf rm) s1" "masterSocket s1 = masterSocket s"
      using hear_sim [OF Cons.prems(1) ok run] by blast
    have "reads_ok g rs s1 c (hear c buf rm)"
      using Cons.prems(2) s1(1) by (simp add: r Received del: readClient.simps)
    from Cons.IH [OF s1(3) this s1(2)] show ?thesis using s1(4) by (simp add: r Received)
  next
    case Eof
    then show ?thesis using Cons.prems deleteClient_sim by (simp add: r)
  next
    case (RecvError n)
    then show ?thesis using Cons.prems by (simp add: r exit_code_def split: if_splits)
  qed
qed

lemma accept_sim:
  assumes sim: "room_sim rm s" and new: "joined rm (ev_accept ev) = None"
    and run: "processMasterEvent ev s = Some (Inr s')"
  shows "room_sim (rm\<lparr>joined := (joined rm)(ev_accept ev \<mapsto> length (said rm))\<rparr>) s' \<and> masterSocket s' = masterSocket s"
proof -
  let ?fd = "ev_accept ev" and ?rm = "rm\<lparr>joined := (joined rm)(ev_accept ev \<mapsto> length (said rm))\<rparr>"
  have S: "queues_ok (messageSender s)" "sorted_wrt (<) (map fst (messageSender s))"
    using sim by (simp_all add: room_sim_def)
  have none: "?fd \<notin> clients s" "wire s ?fd = []" using sim new room_sim_clients [OF sim, of ?fd] by (simp_all add: room_sim_def)
  then have m: "map_of (messageSender s) ?fd = None" by (simp add: map_of_eq_None_iff clients_def)
  have G: "and (ev_events ev) EPOLLERR = 0" "?fd \<noteq> -1" "ev_fcntl_ok ev" "ctl_ok (ev_env ev) ?fd"
    using run by (auto simp: processMasterEvent_def exit_code_def Let_def split: if_splits)
  from accept_ok [OF S m G] run have A: "queues_ok (messageSender s')" "sorted_wrt (<) (map fst (messageSender s'))"
    "stream (messageSender s') (wire s') = (stream (messageSender s) (wire s))(?fd \<mapsto> wire s ?fd @ frame welcome_bytes)"
    "messangerReceiver s' = messangerReceiver s" "cout s' = cout s" "masterSocket s' = masterSocket s"
    "\<forall>fd. fd \<notin> insert ?fd (clients s) \<longrightarrow> wire s' fd = wire s fd"
    by auto
  have d: "due ?rm j = due rm j" "due rm (length (said rm)) = [welcome_bytes]" for j by (simp_all add: due_def)
  have "stream (messageSender s') (wire s') c
      = map_option (\<lambda>j. concat (map frame (due ?rm j))) (joined ?rm c)" for c
    using sim A(3) none(2) d by (simp add: room_sim_def)
  moreover have "joined ?rm c = None \<longrightarrow> wire s' c = []" for c
    using sim A(7) room_sim_clients [OF sim, of c] by (simp add: room_sim_def)
  ultimately show ?thesis using sim A by (simp add: room_sim_def said_by_def)
qed

lemma event_sim:
  assumes "room_sim rm s" "event_ok g ev s rm" "handle_events g [ev] s = Some (Inr s')"
  shows "room_sim (room_event (masterSocket s) ev rm) s' \<and> masterSocket s' = masterSocket s"
proof -
  have run: "(if ev_fd ev = masterSocket s then processMasterEvent ev s else processClientEvent g ev s) = Some (Inr s')"
    using assms(3) unfolding handle_events.simps bind_Inr by simp
  show ?thesis
  proof (cases "ev_fd ev = masterSocket s")
    case True
    then have "joined rm (ev_accept ev) = None" "processMasterEvent ev s = Some (Inr s')"
      using assms(2) run by (simp_all add: event_ok_def)
    from accept_sim [OF assms(1) this] show ?thesis using True by (simp add: room_event_def)
  next
    case False
    then have run: "processClientEvent g ev s = Some (Inr s')" using run by simp
    consider "and (ev_events ev) EPOLLHUP \<noteq> 0"
      | "and (ev_events ev) EPOLLHUP = 0" "and (ev_events ev) EPOLLIN \<noteq> 0"
      | "and (ev_events ev) EPOLLHUP = 0" "and (ev_events ev) EPOLLIN = 0" by blast
    then show ?thesis
    proof cases
      case 1
      then have "deleteClient (ev_env ev) s (ev_fd ev) = Some (Inr s')"
        using run by (simp add: processClientEvent_def exit_code_def split: if_splits)
      from deleteClient_sim [OF assms(1) this] show ?thesis using 1 False by (simp add: room_event_def)
    next
      case 2
      then have "readClient g (ev_recvs ev) s (ev_fd ev) = Some (Inr s')" "reads_ok g (ev_recvs ev) s (ev_fd ev) rm"
        using run False assms(2) by (simp_all add: processClientEvent_def event_ok_def exit_code_def split: if_splits)
      from reads_sim [OF assms(1) this(2,1)] show ?thesis using 2 False by (simp add: room_event_def)
    next
      case 3
      then have "s' = s" using run by (simp add: processClientEvent_def exit_code_def split: if_splits)
      then show ?thesis using 3 False assms(1) by (simp add: room_event_def)
    qed
  qed
qed

lemma handle_events_Cons:
  "handle_events g (ev # evs) s = do {
     r \<leftarrow> handle_events g [ev] s;
     case r of Inl c \<Rightarrow> Some (Inl c) | Inr s \<Rightarrow> handle_events g evs s
   }"
  by (auto split: sum.splits bind_splits)

lemma run_sim:
  assumes "room_sim rm s" "run_ok g evs s rm" "handle_events g evs s = Some (Inr s')"
  shows "room_sim (fold (room_event (masterSocket s)) evs rm) s'"
  using assms
proof (induction evs arbitrary: s rm)
  case Nil
  then show ?case by simp
next
  case (Cons ev evs)
  obtain s1 where s1: "handle_events g [ev] s = Some (Inr s1)" "handle_events g evs s1 = Some (Inr s')"
    using Cons.prems(3) unfolding handle_events_Cons [of g ev evs s] bind_Inr by blast
  have ok: "event_ok g ev s rm" "run_ok g evs s1 (room_event (masterSocket s) ev rm)"
    using Cons.prems(2) s1(1) by (simp_all del: handle_events.simps)
  from event_sim [OF Cons.prems(1) ok(1) s1(1)] show ?case
    using Cons.IH [OF _ ok(2) s1(2)] by simp
qed

text \<open>The events of a run of \<open>start\<close>, whatever the calls of \<open>epoll_wait\<close> they came in.\<close>

definition wait_events :: "event list option list \<Rightarrow> event list" where
  "wait_events waits = concat (map (\<lambda>w. case w of None \<Rightarrow> [] | Some evs \<Rightarrow> evs) waits)"

lemma handle_events_append:
  "handle_events g (xs @ ys) s = do {
     r \<leftarrow> handle_events g xs s;
     case r of Inl c \<Rightarrow> Some (Inl c) | Inr s \<Rightarrow> handle_events g ys s
   }"
proof (induction xs arbitrary: s)
  case (Cons ev xs)
  show ?case unfolding append_Cons handle_events_Cons [of g ev "xs @ ys"] handle_events_Cons [of g ev xs] Cons.IH
    by (auto simp del: handle_events.simps split: sum.splits bind_splits)
qed simp

lemma start_events:
  "start g waits s = Some (Inr s') \<Longrightarrow> handle_events g (wait_events waits) s = Some (Inr s')"
proof (induction g waits s rule: start.induct)
  case (3 g evs waits s)
  then show ?case by (auto simp: wait_events_def handle_events_append bind_Inr)
qed (simp_all add: wait_events_def exit_code_def)

lemma new_Server_sim:
  assumes "new_Server st = Some (Inr s)"
  shows "room_sim new_room s" "masterSocket s = st_socket st"
proof -
  have "s = \<lparr>masterSocket = st_socket st, messangerReceiver = Map.empty, messageSender = [],
      watch = [st_socket st \<mapsto> or EPOLLIN EPOLLET], wire = (\<lambda>_. []), cout = []\<rparr>"
    using assms by (simp add: new_Server_def exit_code_def split: if_splits)
  then show "room_sim new_room s" "masterSocket s = st_socket st"
    by (simp_all add: room_sim_def new_room_def queues_ok_def slot_holds_def decode_incomplete complete_def
        stream_def said_by_def text_words_def)
qed

text \<open>A whole run of the server follows the room.\<close>

definition server_run_ok :: "startup \<Rightarrow> Message \<Rightarrow> event list option list \<Rightarrow> bool" where
  "server_run_ok st g waits =
     (case new_Server st of Some (Inr s) \<Rightarrow> run_ok g (wait_events waits) s new_room | _ \<Rightarrow> True)"

lemma server_main_sim:
  assumes "server_main st g waits = Some (Inr s')" "server_run_ok st g waits"
  shows "room_sim (room_run (st_socket st) (wait_events waits)) s'"
proof -
  obtain s where s: "new_Server st = Some (Inr s)" "start g waits s = Some (Inr s')"
    using assms(1) unfolding server_main_def bind_Inr by blast
  have "run_ok g (wait_events waits) s new_room" using assms(2) s(1) by (simp add: server_run_ok_def)
  from run_sim [OF new_Server_sim(1) [OF s(1)] this start_events [OF s(2)]] show ?thesis
    unfolding new_Server_sim(2) [OF s(1)] room_run_def .
qed

end
