(* ===== verification/Chat_System.thy ===== *)
theory Chat_System
  imports Chat_Client Chat_Room
begin

text \<open>
  The chat from one client to another. Two clients and the server run from their start: the first
  client through the turns \<open>ios\<close>, the server through the events of \<open>waits\<close>, the second client through
  the turns \<open>jos\<close>. What connects them is that a socket delivers a prefix of what was written into it:
  the server hears from the socket \<open>a\<close> a part of what the first client put on its wire, and the second
  client receives a part of what the server sent to the socket \<open>b\<close>.
\<close>

definition words :: "select_io list \<Rightarrow> byte list list" where
  "words ios = concat (map typed ios)"

lemma client_main_ok:
  assumes "client_main st g ios = Some (Inr s)" "turns_ok g ios (new_Client (cs_socket st)) []"
  shows "c_wire s @ queue (messageForSend s) = concat (map frame (words ios))"
    "c_cout s = fst (decode (concat (map piece ios)))"
  using client_run_ok [OF new_Client_ok assms(2) client_main_start [OF assms(1)]]
  by (simp_all add: client_ok_def words_def new_Client_def)

text \<open>Property C2.
  Whatever a client types is delivered to the other clients. The server says, on its console and to its
  clients, the messages of the room; those of a client are a prefix of the words typed there; and a
  client prints a prefix of the welcome and the messages said since it was accepted, in order and
  unchanged, however the sockets cut the streams. Once all bytes have come through, all words are
  said, and everything that is due is printed.
\<close>

theorem chat_end_to_end:
  assumes "client_main sta ga ios = Some (Inr sa)" "turns_ok ga ios (new_Client (cs_socket sta)) []" "text_words (words ios)"
    and "server_main st gs waits = Some (Inr s')" "server_run_ok st gs waits"
    and "rm = room_run (st_socket st) (wait_events waits)"
    and "prefix (heard rm a) (c_wire sa)"
    and "client_main stb gb jos = Some (Inr sb)" "turns_ok gb jos (new_Client (cs_socket stb)) []"
    and "joined rm b = Some j" "prefix (concat (map piece jos)) (wire s' b)"
  shows "cout s' = map snd (said rm) \<and> prefix (said_by a rm) (words ios)
    \<and> prefix (c_cout sb) (welcome_bytes # map snd (drop j (said rm)))
    \<and> (queue (messageForSend sa) = [] \<and> heard rm a = c_wire sa \<longrightarrow> said_by a rm = words ios)
    \<and> (map_option queue (map_of (messageSender s') b) = Some [] \<and> concat (map piece jos) = wire s' b
        \<longrightarrow> c_cout sb = welcome_bytes # map snd (drop j (said rm)))"
proof -
  have sim: "room_sim rm s'" using server_main_sim [OF assms(4,5)] by (simp add: assms(6))
  then have cout: "cout s' = map snd (said rm)" and hd: "said_by a rm = fst (decode (heard rm a))"
    and tw: "text_words (map snd (said rm))"
    and str: "stream (messageSender s') (wire s') b = Some (concat (map frame (due rm j)))"
    using assms(10) by (simp_all add: room_sim_def)
  note A = client_main_ok(1) [OF assms(1,2)] and B = client_main_ok(2) [OF assms(8,9)]
  have "prefix (heard rm a) (concat (map frame (words ios)))" using A assms(7) by (metis prefix_prefix)
  then have one: "prefix (said_by a rm) (words ios)" using decode_prefix(1) assms(3) by (simp add: hd)
  have due: "text_words (due rm j)"
    using tw text_words_drop [OF tw, of j] by (simp add: due_def drop_map text_words_def welcome_bytes_def)
  obtain q where q: "map_of (messageSender s') b = Some q" "wire s' b @ queue q = concat (map frame (due rm j))"
    using str by (auto simp: stream_def)
  have "prefix (concat (map piece jos)) (concat (map frame (due rm j)))" using q(2) assms(11) by (metis prefix_prefix)
  then have two: "prefix (c_cout sb) (due rm j)" using decode_prefix(1) due by (simp add: B)
  have "said_by a rm = words ios" if "queue (messageForSend sa) = []" "heard rm a = c_wire sa"
    using A that decode_text [OF assms(3)] by (simp add: hd)
  moreover have "c_cout sb = due rm j" if "queue q = []" "concat (map piece jos) = wire s' b"
    using q(2) that decode_text [OF due] by (simp add: B)
  ultimately show ?thesis using cout one two q(1) by (simp add: due_def)
qed

section \<open>A run\<close>

text \<open>Environments in which no call fails: a word is typed, the socket accepts one byte per call,
  a piece arrives.\<close>

definition types_io :: "byte list \<Rightarrow> select_io" where
  "types_io w = \<lparr>sel_failed = False, stdin_ready = True, sock_readable = False, sock_writable = False,
     cin_word = w, sock_recv = Eof, sock_send = []\<rparr>"

definition sends_io :: "nat \<Rightarrow> select_io" where
  "sends_io n = \<lparr>sel_failed = False, stdin_ready = False, sock_readable = False, sock_writable = True,
     cin_word = [], sock_recv = Eof, sock_send = replicate n (Accepts 0)\<rparr>"

definition gets_io :: "byte list \<Rightarrow> select_io" where
  "gets_io buf = \<lparr>sel_failed = False, stdin_ready = False, sock_readable = True, sock_writable = False,
     cin_word = [], sock_recv = Received buf, sock_send = []\<rparr>"

lemmas io_defs = types_io_def sends_io_def gets_io_def io_ok_def typed_def piece_def
lemmas turn_defs = client_turn_def readFds_def readServer_def writeFds_def

lemma send_word:
  assumes "off_boundary new_MessageForSend w" "length w + 4 < SZ"
  shows "\<exists>sa. client_start g [types_io w, sends_io (length w + 4)] (new_Client a) = Some (Inr sa)
    \<and> turns_ok g [types_io w, sends_io (length w + 4)] (new_Client a) []
    \<and> c_wire sa = frame w \<and> queue (messageForSend sa) = []"
proof -
  obtain q where q: "add_message new_MessageForSend w = Some q" "send_ok q" "queue q = frame w"
    using add_message_ok [OF new_MessageForSend_ok(1) assms(1)] assms(2) new_MessageForSend_ok(2)
    by (auto simp: new_MessageForSend_def)
  have "count q = length w + 4" using length_queue [OF q(2)] q(3) by (simp add: frame_def)
  then obtain q' where f: "flush True (replicate (length w + 4) (Accepts 0)) q = Some (Drained, frame w, q')" "queue q' = []"
    using flush_drains [OF q(2), of "replicate (length w + 4) (Accepts 0)" True] q(3) by auto
  let ?s1 = "(new_Client a)\<lparr>messageForSend := q, needwrite := True\<rparr>"
  have one: "client_turn g (types_io w) (new_Client a) = Some (Inr ?s1)"
    using q(1) by (simp add: turn_defs io_defs new_Client_def)
  have two: "client_turn g (sends_io (length w + 4)) ?s1
      = Some (Inr (?s1\<lparr>messageForSend := q', c_wire := frame w, needwrite := False\<rparr>))"
    using f(1) by (simp add: turn_defs io_defs new_Client_def)
  have "turns_ok g [types_io w, sends_io (length w + 4)] (new_Client a) []"
    using one two assms by (simp add: io_defs new_Client_def new_MessageForSend_def)
  then show ?thesis using one two f(2) by simp
qed

lemma get_piece:
  assumes "\<not> needwrite s" "slot_holds (c_receiver s) (socketFd s) bs" "length buf \<le> 1024" "clean (bs @ buf)"
  obtains r where "client_turn g (gets_io buf) s
      = Some (Inr (s\<lparr>c_receiver := r, c_cout := c_cout s @ fst (decode (bs @ buf))\<rparr>))"
    "slot_holds r (socketFd s) (snd (decode (bs @ buf)))"
  using process_decodes [OF assms(2-4), of g] assms(1) that by (auto simp: turn_defs io_defs)

lemma get_one_piece:
  assumes "length buf \<le> 1024" "clean buf"
  shows "\<exists>sb. client_start g [gets_io buf] (new_Client b) = Some (Inr sb) \<and> turns_ok g [gets_io buf] (new_Client b) []"
proof -
  have s0: "slot_holds (c_receiver (new_Client b)) (socketFd (new_Client b)) []" "\<not> needwrite (new_Client b)"
    by (simp_all add: new_Client_def slot_holds_def complete_def)
  obtain sb where "client_turn g (gets_io buf) (new_Client b) = Some (Inr sb)"
    using get_piece [OF s0(2,1) assms(1), of g] assms(2) by auto
  then show ?thesis using assms by (simp add: io_defs)
qed

text \<open>A queue in one block from which everything was sent, and a message that passes through it.\<close>

definition idle :: "MessageForSend \<Rightarrow> nat \<Rightarrow> bool" where
  "idle q n \<longleftrightarrow> send_ok q \<and> queue q = [] \<and> \<not> need_write q \<and> length (bitlist q) = 1 \<and> end_offset q = n"

lemma idle_flush: "idle q n \<Longrightarrow> flush False rs q = Some (Drained, [], q)"
  using getbitarray_ok [of q 1024] by (simp add: idle_def flush_def send_loop.simps)

lemma flush_whole:
  assumes "send_ok q" "queue q \<noteq> []" "count q \<le> Suc k" "count q \<le> 1024" "end_offset q < 1024" "length (bitlist q) = 1"
    "\<not> need_write q"
  shows "\<exists>q'. flush False [Accepts k] q = Some (Drained, queue q, q') \<and> idle q' (end_offset q)"
proof -
  have l: "length (queue q) = count q" by (rule length_queue [OF assms(1)])
  have e: "beg_offset q + count q = end_offset q" using assms(1,6) by (cases "bitlist q") (auto simp: send_ok_def)
  let ?q = "q\<lparr>beg_offset := end_offset q, count := 0\<rparr>"
  have er: "erase q (count q) = Some ?q"
    using assms(1,5) e by (simp add: erase_def sz_simps send_ok_def)
  obtain q' where "erase q (count q) = Some q'" "send_ok q'" "queue q' = drop (count q) (queue q)"
    using erase_ok [OF assms(1,4)] by blast
  then have q: "send_ok ?q" "queue ?q = []" using er l by simp_all
  then have "getbitarray ?q 1024 = Some []" using getbitarray_ok [OF q(1), of 1024] by simp
  moreover have "min (Suc k) (length (queue q)) = count q" using l assms(3) by simp
  moreover have "getbitarray q 1024 = Some (queue q)" using getbitarray_ok [OF assms(1), of 1024] assms(4) l by simp
  ultimately have "flush False [Accepts k] q = Some (Drained, queue q, ?q)"
    using assms(2) er l by (simp add: flush_def send_loop.simps Let_def)
  moreover have "idle ?q (end_offset q)" using q assms(6,7) by (simp add: idle_def)
  ultimately show ?thesis by blast
qed

lemma pass_through:
  assumes q: "q = new_MessageForSend \<and> n = 0 \<or> idle q n" and m: "n + length m + 4 \<le> 100"
  obtains q1 q2 where "off_boundary q m" "count q = 0" "add_message q m = Some q1"
    "flush False [Accepts 100] q1 = Some (Drained, frame m, q2)" "idle q2 (n + length m + 4)" "\<not> need_write q2"
proof -
  have s: "send_ok q" "queue q = []" "\<not> need_write q" using q new_MessageForSend_ok by (auto simp: idle_def new_MessageForSend_def)
  have c: "count q = 0" using length_queue [OF s(1)] s(2) by simp
  have b: "off_boundary q m" using q m by (auto simp: off_boundary_def room_in_last_def new_MessageForSend_def idle_def)
  obtain q1 where q1: "add_message q m = Some q1" "send_ok q1" "queue q1 = frame m" "need_write q1 = need_write q"
    using add_message_ok [OF s(1) b] c m s(2) by (auto simp: SZ_def)
  have "length (bitlist q1) = 1 \<and> end_offset q1 = n + length m + 4"
    using q
  proof
    assume "q = new_MessageForSend \<and> n = 0"
    then show ?thesis using q1(1) m
      by (auto simp: add_message_def new_MessageForSend_def push_blocks.simps Let_def split: if_splits)
  next
    assume i: "idle q n"
    then obtain blk where "bitlist q = [blk]" by (auto simp: idle_def length_Suc_conv)
    then show ?thesis using q1(1) m i
      by (auto simp: add_message_def idle_def push_blocks.simps Let_def bind_eq_Some_conv)
  qed
  moreover have "count q1 = length m + 4" using length_queue [OF q1(2)] q1(3) by (simp add: frame_def)
  moreover have "queue q1 \<noteq> []" using q1(3) by (simp add: frame_def put32_def)
  ultimately obtain q2 where "flush False [Accepts 100] q1 = Some (Drained, frame m, q2)" "idle q2 (n + length m + 4)"
    using flush_whole [OF q1(2), of 100] q1(3,4) s(3) m by auto
  then show thesis using b c q1(1) by (intro that) (auto simp: idle_def)
qed

definition connects :: "int \<Rightarrow> client_startup" where
  "connects fd = \<lparr>cs_socket = fd, cs_fcntl = 0, cs_connect = (-1, EINPROGRESS)\<rparr>"

lemma connects_main: "fd \<noteq> -1 \<Longrightarrow> client_main (connects fd) g ios = client_start g ios (new_Client fd)" "cs_socket (connects fd) = fd"
  by (simp_all add: client_main_def open_Client_def connects_def)

text \<open>The server accepts two clients and hears a word from the first.\<close>

definition demo_startup :: startup where
  "demo_startup = \<lparr>st_socket = 3, st_setsockopt = 0, st_bind = 0, st_listen = 0, st_epoll_create = 4, st_epoll_ctl = 0\<rparr>"

definition accept_event :: "int \<Rightarrow> event" where
  "accept_event fd = \<lparr>ev_fd = 3, ev_events = EPOLLIN, ev_accept = fd, ev_fcntl_ok = True, ev_recvs = [], ev_env = demo_env\<rparr>"

definition read_event :: "int \<Rightarrow> byte list \<Rightarrow> event" where
  "read_event fd buf = \<lparr>ev_fd = fd, ev_events = EPOLLIN, ev_accept = 0, ev_fcntl_ok = True,
     ev_recvs = [(Received buf, demo_env)], ev_env = demo_env\<rparr>"

definition demo_waits :: "byte list \<Rightarrow> event list option list" where
  "demo_waits buf = [Some [accept_event 5, accept_event 6], Some [read_event 5 buf]]"

lemmas event_defs = accept_event_def read_event_def processMasterEvent_def processClientEvent_def
  EPOLLIN_def EPOLLERR_def EPOLLHUP_def

lemma demo_flush:
  assumes "flush False [Accepts 100] q = Some (Drained, w, q')" "\<not> need_write q'"
  shows "write_entry demo_env fd q wt wi = Some (Inr (q', wt, wi(fd := wi fd @ w)))"
  using assms by (simp add: write_entry_def demo_env_def)

lemma demo_idle: "idle q n \<Longrightarrow> write_entry demo_env fd q wt wi = Some (Inr (q, wt, wi))"
  using idle_flush [of q n] demo_flush [of q "[]" q] by (simp add: idle_def)

lemma demo_ctl: "ctl_ok demo_env fd"
  by (simp add: demo_env_def)

lemma demo_room:
  assumes "decode f = ([m], [])"
  shows "room_run 3 (wait_events (demo_waits f)) = \<lparr>heard = (\<lambda>_. [])(5 := f), said = [(5, m)], joined = [5 \<mapsto> 0, 6 \<mapsto> 0]\<rparr>"
  using assms by (simp add: room_run_def wait_events_def demo_waits_def room_event_def new_room_def event_defs
      hear_def news_def decode_incomplete complete_def)

lemma demo_run:
  assumes m: "decode f = ([m], [])" "clean f" "f = frame m" "m \<noteq> []" "length m \<le> 80"
  shows "\<exists>s'. server_main demo_startup g (demo_waits f) = Some (Inr s') \<and> server_run_ok demo_startup g (demo_waits f)
    \<and> wire s' 6 = frame welcome_bytes @ f \<and> map_option queue (map_of (messageSender s') 6) = Some []"
proof -
  let ?W = "frame welcome_bytes"
  obtain q1 q2 where W: "add_message new_MessageForSend welcome_bytes = Some q1"
    "flush False [Accepts 100] q1 = Some (Drained, ?W, q2)" "idle q2 11" "\<not> need_write q2"
    by (rule pass_through [of new_MessageForSend 0 welcome_bytes]) (simp_all add: welcome_bytes_def)
  obtain q3 q4 where M: "off_boundary q2 m" "count q2 = 0" "add_message q2 m = Some q3"
    "flush False [Accepts 100] q3 = Some (Drained, f, q4)" "idle q4 (11 + length m + 4)" "\<not> need_write q4"
    using pass_through [of q2 11 m] W(3) m(3,5) by auto
  obtain s0 where s0: "new_Server demo_startup = Some (Inr s0)" "masterSocket s0 = 3" "messangerReceiver s0 = Map.empty"
    "messageSender s0 = []" "wire s0 = (\<lambda>_. [])"
    by (simp add: new_Server_def demo_startup_def)
  obtain s1 where s1: "handle_events g [accept_event 5] s0 = Some (Inr s1)" "masterSocket s1 = 3" "messangerReceiver s1 = Map.empty"
    "messageSender s1 = [(5, q2)]" "wire s1 = (\<lambda>_. [])(5 := ?W)"
    using s0 W(1) demo_flush [OF W(2,4)] by (simp add: event_defs demo_ctl add_client_def writeMessages_def)
  obtain s2 where s2: "handle_events g [accept_event 6] s1 = Some (Inr s2)" "masterSocket s2 = 3" "messangerReceiver s2 = Map.empty"
    "messageSender s2 = [(5, q2), (6, q2)]" "wire s2 = (\<lambda>_. [])(5 := ?W, 6 := ?W)"
    using s1 W(1) demo_flush [OF W(2,4)] demo_idle [OF W(3)] by (simp add: event_defs demo_ctl add_client_def writeMessages_def)
  have "slot_holds (messangerReceiver s2) 5 []" using s2(3) by (simp add: slot_holds_def complete_def)
  then obtain r where r: "process g Map.empty 5 f = Some ([m], r)"
    using process_decodes [of "messangerReceiver s2" 5 "[]" f g] m(1,2,3,5) s2(3) by (auto simp: frame_def)
  have read: "readClient g [(Received f, demo_env)] s2 5 = Some (Inr (s2\<lparr>messangerReceiver := r,
      messageSender := [(5, q4), (6, q4)], cout := cout s2 @ [m], wire := (wire s2)(5 := ?W @ f, 6 := ?W @ f)\<rparr>))"
    using s2 r M(3) demo_flush [OF M(4,6)] by (simp add: writeMessages_def)
  then obtain s3 where s3: "readClient g [(Received f, demo_env)] s2 5 = Some (Inr s3)"
    "messageSender s3 = [(5, q4), (6, q4)]" "wire s3 6 = ?W @ f" by simp
  have three: "handle_events g [read_event 5 f] s2 = Some (Inr s3)"
    using s3(1) s2(2) by (simp add: event_defs del: readClient.simps)
  let ?rm = "\<lparr>heard = (\<lambda>_. []), said = [], joined = [5 \<mapsto> 0, 6 \<mapsto> 0]\<rparr>"
  have main: "server_main demo_startup g (demo_waits f) = Some (Inr s3)"
    using s0(1) s1(1) s2(1) three
    by (simp add: server_main_def demo_waits_def handle_events_Cons [of g _ "_ # _"] del: handle_events.simps(2))
  have "piece_ok f s2 5 ?rm"
    using m M(1,2,3) s2(4) by (simp add: piece_ok_def news_def decode_incomplete complete_def frame_def SZ_def)
  then have "server_run_ok demo_startup g (demo_waits f)"
    using s0 s1(1,2) s2(1,2) s3(1) three
    by (simp add: server_run_ok_def wait_events_def demo_waits_def event_ok_def room_event_def new_room_def event_defs
        del: handle_events.simps readClient.simps)
  then show ?thesis using main s3(2,3) M(5) by (intro exI [of _ s3]) (simp add: idle_def)
qed

theorem chat_end_to_end_witness:
  "\<exists>sa s' sb. client_main (connects 3) blank_Message [types_io [104, 105], sends_io 6] = Some (Inr sa)
    \<and> server_main demo_startup blank_Message (demo_waits (c_wire sa)) = Some (Inr s')
    \<and> client_main (connects 4) blank_Message [gets_io (wire s' 6)] = Some (Inr sb)
    \<and> cout s' = [[104, 105]] \<and> c_cout sb = [welcome_bytes, [104, 105]]"
proof -
  let ?g = blank_Message and ?m = "[104, 105 :: byte]" and ?ios = "[types_io [104, 105], sends_io 6]"
  have off: "off_boundary new_MessageForSend ?m" by (simp add: off_boundary_def room_in_last_def new_MessageForSend_def)
  obtain sa where A: "client_main (connects 3) ?g ?ios = Some (Inr sa)"
    "turns_ok ?g ?ios (new_Client (cs_socket (connects 3))) []" "c_wire sa = frame ?m" "queue (messageForSend sa) = []"
    using send_word [OF off, of ?g 3] by (auto simp: SZ_def connects_main)
  have ws: "words ?ios = [?m]" by (simp add: words_def io_defs)
  have tw: "text_words [?m]" "text_words [welcome_bytes, ?m]" by (simp_all add: text_words_def welcome_bytes_def)
  have d: "decode (frame ?m) = ([?m], [])" using decode_text [OF tw(1)] by simp
  have c: "clean (frame ?m)" "clean (frame welcome_bytes @ frame ?m)"
    using decode_prefix(2) [OF _ tw(1), of "frame ?m"] decode_prefix(2) [OF _ tw(2), of "frame welcome_bytes @ frame ?m"] by simp_all
  obtain s' where S: "server_main demo_startup ?g (demo_waits (frame ?m)) = Some (Inr s')"
    "server_run_ok demo_startup ?g (demo_waits (frame ?m))" "wire s' 6 = frame welcome_bytes @ frame ?m"
    "map_option queue (map_of (messageSender s') 6) = Some []"
    using demo_run [OF d c(1), of ?g] by auto
  let ?rm = "room_run (st_socket demo_startup) (wait_events (demo_waits (frame ?m)))"
  have rm: "?rm = \<lparr>heard = (\<lambda>_. [])(5 := frame ?m), said = [(5, ?m)], joined = [5 \<mapsto> 0, 6 \<mapsto> 0]\<rparr>"
    using demo_room [OF d] by (simp add: demo_startup_def)
  have "length (wire s' 6) \<le> 1024" by (simp add: S(3) frame_def welcome_bytes_def)
  then obtain sb where B: "client_main (connects 4) ?g [gets_io (wire s' 6)] = Some (Inr sb)"
    "turns_ok ?g [gets_io (wire s' 6)] (new_Client (cs_socket (connects 4))) []"
    using get_one_piece [of "wire s' 6" ?g 4] c(2) S(3) by (auto simp: connects_main)
  have p: "concat (map piece [gets_io (wire s' 6)]) = wire s' 6" "piece (gets_io (wire s' 6)) = wire s' 6" by (simp_all add: io_defs)
  have "cout s' = map snd (said ?rm) \<and> prefix (said_by 5 ?rm) (words ?ios)
    \<and> prefix (c_cout sb) (welcome_bytes # map snd (drop 0 (said ?rm)))
    \<and> (queue (messageForSend sa) = [] \<and> heard ?rm 5 = c_wire sa \<longrightarrow> said_by 5 ?rm = words ?ios)
    \<and> (map_option queue (map_of (messageSender s') 6) = Some [] \<and> concat (map piece [gets_io (wire s' 6)]) = wire s' 6
        \<longrightarrow> c_cout sb = welcome_bytes # map snd (drop 0 (said ?rm)))"
    by (rule chat_end_to_end [OF A(1,2) _ S(1,2) refl _ B]) (simp_all add: ws tw rm A(3) p)
  then have "cout s' = [?m]" "c_cout sb = [welcome_bytes, ?m]" using S(4) p by (simp_all add: rm)
  moreover have "server_main demo_startup ?g (demo_waits (c_wire sa)) = Some (Inr s')" using S(1) A(3) by simp
  ultimately show ?thesis using A(1) B(1) by blast
qed

end
