(* ===== verification/Shell_Parser.thy ===== *)
theory Shell_Parser
  imports Prelude "HOL-Library.Sublist"
begin

text \<open>
  Model of the shell's parser, \<^verbatim>\<open>src/p5/parser.cpp\<close> and \<^verbatim>\<open>src/p5/comand.cpp\<close>. Strings are
  character lists, a \<open>Comand\<close> keeps its words (\<open>params\<close>, the first being \<open>cmd\<close>) and its two
  redirections. Undefined behaviour is \<^const>\<open>None\<close>: the file name missing after a
  redirection, a command without words, and a pipe without a command on its right.
\<close>

section \<open>Entities\<close>

record Comand =
  params :: "string list"
  infile :: string
  outfile :: string

datatype Entity = Cmd Comand | Delim string

text \<open>The constructor reads \<open>parts[0]\<close>.\<close>

definition new_Comand :: "string list \<Rightarrow> string \<Rightarrow> string \<Rightarrow> Comand option" where
  "new_Comand parts ifile ofile =
     (if parts = [] then None else Some \<lparr>params = parts, infile = ifile, outfile = ofile\<rparr>)"

definition who_is :: "Entity \<Rightarrow> string" where
  "who_is e = (case e of Cmd _ \<Rightarrow> ''cmd'' | Delim _ \<Rightarrow> ''del'')"

section \<open>String searches\<close>

text \<open>\<open>str.find(fromstr, pos)\<close> and \<open>str.find_first_of(set, pos)\<close>, \<^const>\<open>None\<close> for \<open>npos\<close>.\<close>

function find_str :: "string \<Rightarrow> string \<Rightarrow> nat \<Rightarrow> nat option" where
  "find_str fromstr str pos =
     (if length str < pos then None
      else if prefix fromstr (drop pos str) then Some pos
      else find_str fromstr str (Suc pos))"
  by pat_completeness auto
termination by (relation "measure (\<lambda>(f, str, pos). Suc (length str) - pos)") auto

declare find_str.simps [simp del]

definition find_first_of :: "string \<Rightarrow> string \<Rightarrow> nat \<Rightarrow> nat option" where
  "find_first_of cs str pos =
     (let found = pos + length (takeWhile (\<lambda>c. c \<notin> set cs) (drop pos str))
      in if found < length str then Some found else None)"

definition substr :: "string \<Rightarrow> nat \<Rightarrow> nat \<Rightarrow> string" where
  "substr str pos n = take n (drop pos str)"

lemma find_str_Some:
  "find_str f str pos = Some q \<Longrightarrow> pos \<le> q \<and> prefix f (drop q str) \<and> q \<le> length str"
proof (induction f str pos rule: find_str.induct)
  case (1 f str pos)
  then show ?case by (subst (asm) find_str.simps) (auto split: if_splits)
qed

lemma find_first_of_Some:
  "find_first_of cs str pos = Some q \<Longrightarrow> pos \<le> q \<and> q < length str"
  by (auto simp: find_first_of_def Let_def split: if_splits)

section \<open>The parser\<close>

text \<open>\<open>replace\<close>; the code calls it with a non-empty \<open>fromstr\<close> only.\<close>

function replace_loop :: "string \<Rightarrow> string \<Rightarrow> string \<Rightarrow> nat \<Rightarrow> string" where
  "replace_loop str fromstr tostr pos =
     (if pos < length str \<and> fromstr \<noteq> [] then
        (case find_str fromstr str pos of
           Some found \<Rightarrow>
             replace_loop (take found str @ tostr @ drop (found + length fromstr) str) fromstr tostr
               (found + length tostr)
         | None \<Rightarrow> str)
      else str)"
  by pat_completeness auto
termination
proof (relation "measure (\<lambda>(str, f, t, pos). length str - pos)", goal_cases)
  case (2 str f t pos found)
  then have "pos \<le> found" "prefix f (drop found str)" "found \<le> length str"
    using find_str_Some by auto
  then have "length f \<le> length str - found" by (metis length_drop prefix_length_le)
  then show ?case using 2 \<open>pos \<le> found\<close> by (cases f) auto
qed simp

declare replace_loop.simps [simp del]

definition replace :: "string \<Rightarrow> string \<Rightarrow> string \<Rightarrow> string" where
  "replace str fromstr tostr = replace_loop str fromstr tostr 0"

definition wsdelim :: string where
  "wsdelim = [CHR 0x09, CHR 0x0B, CHR 0x0D, CHR 0x0A, CHR 0x0C, CHR ''<'', CHR ''>'', CHR '' '']"

text \<open>The first loop of \<open>add_comand\<close>: the words and the redirection signs.\<close>

function split_words :: "string \<Rightarrow> nat \<Rightarrow> string list \<Rightarrow> string list" where
  "split_words str pos parts =
     (case find_first_of wsdelim str pos of
        None \<Rightarrow>
          if length str \<noteq> pos then parts @ [substr str pos (length str - pos)] else parts
      | Some found \<Rightarrow>
          let parts = (if found \<noteq> pos then parts @ [substr str pos (found - pos)] else parts);
              parts = (if str ! found = CHR ''<'' \<or> str ! found = CHR ''>''
                       then parts @ [substr str found 1] else parts)
          in split_words str (Suc found) parts)"
  by pat_completeness auto
termination
  by (relation "measure (\<lambda>(str, pos, parts). length str - pos)") (auto dest: find_first_of_Some)

declare split_words.simps [simp del]

text \<open>
  The second loop takes the redirections out. The code steps back one element and forward
  again after the two \<open>erase\<close>s, so that the scan goes on at the same position; before the first
  element there is nothing to step back to.
\<close>

function redirect_loop :: "string list \<Rightarrow> nat \<Rightarrow> string \<Rightarrow> string \<Rightarrow> (string list \<times> string \<times> string) option" where
  "redirect_loop parts it ifile ofile =
     (if it < length parts then
        if parts ! it = ''<'' \<or> parts ! it = ''>'' then
          if Suc it < length parts then
            (let ifile' = (if parts ! it = ''<'' then parts ! Suc it else ifile);
                 ofile' = (if parts ! it = ''<'' then ofile else parts ! Suc it)
             in case iter_prev it of
                  None \<Rightarrow> None
                | Some prev_iter \<Rightarrow>
                    redirect_loop (erase_at (Suc prev_iter) (erase_at it parts)) (Suc prev_iter) ifile' ofile')
          else None
        else redirect_loop parts (Suc it) ifile ofile
      else Some (parts, ifile, ofile))"
  by pat_completeness auto
termination
  by (relation "measure (\<lambda>(parts, it, i, out). length parts - it)") (auto simp: erase_at_def iter_prev_def split: if_splits)

declare redirect_loop.simps [simp del]

definition add_comand :: "Entity list \<Rightarrow> string \<Rightarrow> Entity list option" where
  "add_comand cmds str = do {
     (parts, ifile, ofile) \<leftarrow> redirect_loop (split_words str 0 []) 0 [] [];
     c \<leftarrow> new_Comand parts ifile ofile;
     Some (cmds @ [Cmd c])
   }"

definition add_delim :: "Entity list \<Rightarrow> string \<Rightarrow> Entity list" where
  "add_delim cmds str =
     cmds @ [Delim (if str = ''@'' then ''||'' else if str = ''$'' then ''&&'' else str)]"

definition symcmds :: string where
  "symcmds = ''|@$&;''"

function parse_loop :: "string \<Rightarrow> nat \<Rightarrow> Entity list \<Rightarrow> Entity list option" where
  "parse_loop instructs pos cmds =
     (if pos < length instructs then
        (case find_first_of symcmds instructs pos of
           Some found \<Rightarrow> do {
             cmds \<leftarrow> add_comand cmds (substr instructs pos (found - pos));
             parse_loop instructs (Suc found) (add_delim cmds (substr instructs found 1))
           }
         | None \<Rightarrow> add_comand cmds (substr instructs pos (length instructs - pos)))
      else Some cmds)"
  by pat_completeness auto
termination
  by (relation "measure (\<lambda>(instructs, pos, cmds). length instructs - pos)") (auto dest: find_first_of_Some)

declare parse_loop.simps [simp del]

text \<open>The redirections of \<open>|\<close>: \<open>dynamic_cast\<close> to the wrong class gives a null pointer.\<close>

definition set_outfile :: "Entity list \<Rightarrow> nat \<Rightarrow> Entity list option" where
  "set_outfile cmds i = (case iter_get cmds i of
      Some (Cmd c) \<Rightarrow> Some (cmds[i := Cmd (c\<lparr>outfile := ''pipe''\<rparr>)]) | _ \<Rightarrow> None)"

definition set_infile :: "Entity list \<Rightarrow> nat \<Rightarrow> Entity list option" where
  "set_infile cmds i = (case iter_get cmds i of
      Some (Cmd c) \<Rightarrow> Some (cmds[i := Cmd (c\<lparr>infile := ''pipe''\<rparr>)]) | _ \<Rightarrow> None)"

fun pipe_loop :: "nat list \<Rightarrow> Entity list \<Rightarrow> Entity list option" where
  "pipe_loop [] cmds = Some cmds"
| "pipe_loop (it # its) cmds =
     (if cmds ! it = Delim ''|'' then do {
        p \<leftarrow> iter_prev it;
        cmds \<leftarrow> set_outfile cmds p;
        cmds \<leftarrow> set_infile cmds (Suc it);
        pipe_loop its cmds
      } else pipe_loop its cmds)"

text \<open>\<open>parse\<close> returns the entities and the background flag.\<close>

definition parse :: "string \<Rightarrow> (Entity list \<times> bool) option" where
  "parse instructs = do {
     let instructs = replace instructs ''||'' ''@'';
     let instructs = replace instructs ''&&'' ''$'';
     cmds \<leftarrow> parse_loop instructs 0 [];
     cmds \<leftarrow> pipe_loop [0..<length cmds] cmds;
     if cmds \<noteq> [] \<and> last cmds = Delim ''&'' then Some (butlast cmds, True)
     else Some (cmds, False)
   }"

section \<open>Replacing is a left-to-right scan\<close>

fun scan :: "char \<Rightarrow> char \<Rightarrow> char \<Rightarrow> string \<Rightarrow> string" where
  "scan a b e [] = []"
| "scan a b e [x] = [x]"
| "scan a b e (x # y # r) = (if x = a \<and> y = b then e # scan a b e r else x # scan a b e (y # r))"

lemma find_str_skip:
  assumes "\<not> prefix f (drop pos str)" "pos \<le> length str"
  shows "find_str f str pos = find_str f str (Suc pos)"
  using assms by (subst find_str.simps) simp

lemma replace_loop_end:
  assumes "f \<noteq> []" "length str \<le> pos"
  shows "replace_loop str f t pos = str"
  using assms by (subst replace_loop.simps) simp

lemma replace_loop_skip:
  assumes "\<not> prefix f (drop pos str)" "pos < length str" "f \<noteq> []"
  shows "replace_loop str f t pos = replace_loop str f t (Suc pos)"
proof (cases "Suc pos < length str")
  case True
  then show ?thesis using assms find_str_skip [OF assms(1)]
    by (subst (1 2) replace_loop.simps) simp
next
  case False
  have e: "find_str f str (Suc pos) = None"
  proof (cases "find_str f str (Suc pos)")
    case (Some q)
    then have "Suc pos \<le> q" "prefix f (drop q str)" using find_str_Some by blast+
    then show ?thesis using False assms(3) by auto
  qed simp
  have "replace_loop str f t pos = str"
    using assms find_str_skip [OF assms(1)] e by (subst replace_loop.simps) simp
  then show ?thesis using replace_loop_end [OF assms(3), of str "Suc pos" t] False by simp
qed

lemma replace_loop_scan: "replace_loop (p @ s) [a, b] [e] (length p) = p @ scan a b e s"
proof (induction a b e s arbitrary: p rule: scan.induct)
  case (1 a b e)
  then show ?case using replace_loop_end [of "[a, b]" p "length p"] by simp
next
  case (2 a b e x)
  have "replace_loop (p @ [x]) [a, b] [e] (length p) = replace_loop (p @ [x]) [a, b] [e] (Suc (length p))"
    by (rule replace_loop_skip) auto
  then show ?case using replace_loop_end [of "[a, b]" "p @ [x]" "Suc (length p)"] by simp
next
  case (3 a b e x y r)
  show ?case
  proof (cases "x = a \<and> y = b")
    case True
    have "find_str [a, b] (p @ x # y # r) (length p) = Some (length p)"
      using True by (subst find_str.simps) simp
    then have "replace_loop (p @ x # y # r) [a, b] [e] (length p)
        = replace_loop ((p @ [e]) @ r) [a, b] [e] (length (p @ [e]))"
      by (subst replace_loop.simps) simp
    then show ?thesis using 3(1) [OF True, of "p @ [e]"] True by simp
  next
    case False
    then have "replace_loop (p @ x # y # r) [a, b] [e] (length p)
        = replace_loop ((p @ [x]) @ y # r) [a, b] [e] (length (p @ [x]))"
      using replace_loop_skip [of "[a, b]" "length p" "p @ x # y # r" "[e]"] by auto
    moreover have "scan a b e (x # y # r) = x # scan a b e (y # r)" using False by auto
    ultimately show ?thesis using 3(2) [OF False, of "p @ [x]"] by (simp only:) simp
  qed
qed

lemma replace_scan: "replace s [a, b] [e] = scan a b e s"
  using replace_loop_scan [of "[]"] by (simp add: replace_def)

lemma scan_skip: "a \<notin> set u \<Longrightarrow> scan a b e (u @ v) = u @ scan a b e v"
proof (induction u)
  case (Cons x u)
  then show ?case by (cases "u @ v") auto
qed simp

lemma scan_hd:
  "e \<noteq> a \<Longrightarrow> scan a b e (y # r) \<noteq> [] \<and> (hd (scan a b e (y # r)) = y \<or> hd (scan a b e (y # r)) = e)"
  by (cases r) auto

lemma scan_scan:
  assumes "e \<noteq> a" "e \<noteq> b"
  shows "scan a b e (scan a b e s) = scan a b e s"
  using assms
proof (induction a b e s rule: scan.induct)
  case (3 a b e x y r)
  show ?case
  proof (cases "x = a \<and> y = b")
    case True
    then show ?thesis using 3 by (cases "scan a b e r") auto
  next
    case False
    obtain z t where z: "scan a b e (y # r) = z # t" "z = y \<or> z = e"
      using scan_hd [OF 3(3), of b y r] by (cases "scan a b e (y # r)") auto
    then have "scan a b e (x # z # t) = x # scan a b e (z # t)" using False 3(3,4) by auto
    moreover have "scan a b e (x # y # r) = x # scan a b e (y # r)" using False by auto
    ultimately show ?thesis using 3(2) [OF False 3(3,4)] by (simp only: z)
  qed
qed auto

section \<open>Shape of the result\<close>

definition delims :: "string set" where
  "delims = {''|'', ''||'', ''&&'', ''&'', '';''}"

text \<open>Commands with at least one word at the even places, delimiters at the odd ones.\<close>

definition shape :: "Entity list \<Rightarrow> bool" where
  "shape es \<longleftrightarrow> (\<forall>i < length es. if even i then (\<exists>c. es ! i = Cmd c \<and> params c \<noteq> [])
     else (\<exists>d \<in> delims. es ! i = Delim d))"

definition piped :: "nat \<Rightarrow> Entity list \<Rightarrow> bool" where
  "piped n es \<longleftrightarrow> (\<forall>i < n. es ! i = Delim ''|'' \<longrightarrow> 0 < i \<and> Suc i < length es
     \<and> (\<exists>c. es ! (i - 1) = Cmd c \<and> outfile c = ''pipe'') \<and> (\<exists>c. es ! Suc i = Cmd c \<and> infile c = ''pipe''))"

lemma add_comand_shape:
  assumes "add_comand cmds str = Some es" "shape cmds" "even (length cmds)"
  shows "shape es" "length es = Suc (length cmds)"
  using assms by (auto simp: add_comand_def new_Comand_def bind_eq_Some_conv shape_def nth_append
      less_Suc_eq split: if_splits)

lemma substr_symbol:
  assumes "find_first_of symcmds s pos = Some q"
  shows "\<exists>c \<in> set symcmds. substr s q 1 = [c]"
proof -
  have q: "q < length s" "q = pos + length (takeWhile (\<lambda>c. c \<notin> set symcmds) (drop pos s))"
    using assms by (auto simp: find_first_of_def Let_def split: if_splits)
  then have "length (takeWhile (\<lambda>c. c \<notin> set symcmds) (drop pos s)) < length (drop pos s)" by simp
  from nth_length_takeWhile [OF this] have "s ! q \<in> set symcmds" using q by simp
  moreover have "substr s q 1 = [s ! q]" using q(1) by (simp add: substr_def take_Suc hd_drop_conv_nth)
  ultimately show ?thesis by auto
qed

lemma add_delim_shape:
  assumes "shape cmds" "odd (length cmds)" "c \<in> set symcmds"
  shows "shape (add_delim cmds [c])" "even (length (add_delim cmds [c]))"
proof -
  have "(if [c] = ''@'' then ''||'' else if [c] = ''$'' then ''&&'' else [c]) \<in> delims"
    using assms(3) by (auto simp: symcmds_def delims_def)
  then show "shape (add_delim cmds [c])" using assms(1,2)
    by (auto simp: add_delim_def shape_def nth_append less_Suc_eq)
  show "even (length (add_delim cmds [c]))" using assms(2) by (simp add: add_delim_def)
qed

lemma parse_loop_shape:
  "parse_loop s pos cmds = Some es \<Longrightarrow> shape cmds \<Longrightarrow> even (length cmds) \<Longrightarrow> shape es"
proof (induction s pos cmds rule: parse_loop.induct)
  case (1 s pos cmds)
  show ?case
  proof (cases "pos < length s")
    case False
    then show ?thesis using 1(2,3) by (subst (asm) parse_loop.simps) simp
  next
    case True
    show ?thesis
    proof (cases "find_first_of symcmds s pos")
      case None
      then have "add_comand cmds (substr s pos (length s - pos)) = Some es"
        using True 1(2) by (subst (asm) parse_loop.simps) simp
      then show ?thesis using add_comand_shape(1) 1(3,4) by blast
    next
      case (Some q)
      then obtain cs where cs: "add_comand cmds (substr s pos (q - pos)) = Some cs"
        "parse_loop s (Suc q) (add_delim cs (substr s q 1)) = Some es"
        using True 1(2) by (subst (asm) parse_loop.simps) (auto simp: bind_eq_Some_conv)
      obtain c where c: "c \<in> set symcmds" "substr s q 1 = [c]" using substr_symbol [OF Some] by blast
      note A = add_comand_shape [OF cs(1) 1(3,4)]
      have "odd (length cs)" using A(2) 1(4) by simp
      from add_delim_shape [OF A(1) this c(1)] show ?thesis
        using 1(1) [OF True Some, of cs] cs c(2) by simp
    qed
  qed
qed

lemma set_file_Some:
  "set_outfile es i = Some fs \<Longrightarrow> i < length es \<and> (\<exists>c. es ! i = Cmd c \<and> fs = es[i := Cmd (c\<lparr>outfile := ''pipe''\<rparr>)])"
  "set_infile es i = Some fs \<Longrightarrow> i < length es \<and> (\<exists>c. es ! i = Cmd c \<and> fs = es[i := Cmd (c\<lparr>infile := ''pipe''\<rparr>)])"
  by (auto simp: set_outfile_def set_infile_def iter_get_def split: if_splits Entity.splits)

lemma shape_upd:
  "shape es \<Longrightarrow> es ! i = Cmd c \<Longrightarrow> params c' = params c \<Longrightarrow> shape (es[i := Cmd c'])"
  unfolding shape_def
proof (intro allI impI)
  fix j assume s: "\<forall>i < length es. if even i then (\<exists>c. es ! i = Cmd c \<and> params c \<noteq> [])
      else (\<exists>d \<in> delims. es ! i = Delim d)"
    and c: "es ! i = Cmd c" "params c' = params c" and j: "j < length (es[i := Cmd c'])"
  show "if even j then (\<exists>c. es[i := Cmd c'] ! j = Cmd c \<and> params c \<noteq> [])
      else (\<exists>d \<in> delims. es[i := Cmd c'] ! j = Delim d)"
    using spec [OF s, of j] c j by (cases "j = i") (auto split: if_splits)
qed

lemma pipe_loop_ok:
  assumes "pipe_loop [k..<length es] es = Some fs" "shape es" "piped k es" "k \<le> length es"
  shows "shape fs \<and> piped (length fs) fs \<and> length fs = length es"
  using assms
proof (induction "length es - k" arbitrary: k es)
  case 0
  then show ?case by simp
next
  case (Suc n)
  then have k: "k < length es" by simp
  have u: "[k..<length es] = k # [Suc k..<length es]" using k by (rule upt_conv_Cons)
  show ?case
  proof (cases "es ! k = Delim ''|''")
    case False
    then have "pipe_loop [Suc k..<length es] es = Some fs" using Suc.prems(1) u by simp
    moreover have "piped (Suc k) es" using Suc.prems(3) False by (auto simp: piped_def less_Suc_eq)
    moreover have "n = length es - Suc k" "Suc k \<le> length es" using Suc.hyps(2) k by simp_all
    ultimately show ?thesis using Suc.hyps(1) [of es "Suc k"] Suc.prems(2) by blast
  next
    case True
    then obtain p e1 e2 where p: "iter_prev k = Some p" "set_outfile es p = Some e1" "set_infile e1 (Suc k) = Some e2"
      "pipe_loop [Suc k..<length es] e2 = Some fs"
      using Suc.prems(1) u by (auto simp: bind_eq_Some_conv)
    have pk: "0 < k" "p = k - 1" using p(1) by (auto simp: iter_prev_def split: if_splits)
    obtain c where c: "p < length es" "es ! p = Cmd c" "e1 = es[p := Cmd (c\<lparr>outfile := ''pipe''\<rparr>)]"
      using set_file_Some(1) [OF p(2)] by blast
    obtain d where d: "Suc k < length e1" "e1 ! Suc k = Cmd d" "e2 = e1[Suc k := Cmd (d\<lparr>infile := ''pipe''\<rparr>)]"
      using set_file_Some(2) [OF p(3)] by blast
    have s: "shape e1" "shape e2"
      using shape_upd [OF Suc.prems(2) c(2), of "c\<lparr>outfile := ''pipe''\<rparr>"] c(3)
        shape_upd [of e1 "Suc k" d "d\<lparr>infile := ''pipe''\<rparr>"] d by auto
    have l: "length e2 = length es" using c(3) d(3) by simp
    have "piped (Suc k) e2"
      unfolding piped_def
    proof (intro allI impI)
      fix i assume i: "i < Suc k" "e2 ! i = Delim ''|''"
      have ei: "es ! i = Delim ''|''" using i c d l pk by (auto simp: nth_list_update split: if_splits)
      show "0 < i \<and> Suc i < length e2 \<and> (\<exists>c. e2 ! (i - 1) = Cmd c \<and> outfile c = ''pipe'')
          \<and> (\<exists>c. e2 ! Suc i = Cmd c \<and> infile c = ''pipe'')"
      proof (cases "i = k")
        case True
        then show ?thesis using c d l pk by (auto simp: nth_list_update)
      next
        case False
        then have "i < k" using i(1) by simp
        then obtain x y where xy: "0 < i" "Suc i < length es" "es ! (i - 1) = Cmd x" "outfile x = ''pipe''"
          "es ! Suc i = Cmd y" "infile y = ''pipe''" using Suc.prems(3) ei by (auto simp: piped_def)
        then show ?thesis using c d l pk \<open>i < k\<close> by (auto simp: nth_list_update)
      qed
    qed
    moreover have "n = length e2 - Suc k" "Suc k \<le> length e2" using Suc.hyps(2) k l by simp_all
    ultimately show ?thesis using Suc.hyps(1) [of e2 "Suc k"] s(2) p(4) unfolding l by blast
  qed
qed
section \<open>Words of a command\<close>

text \<open>The words of \<open>split_words\<close> by structural recursion, with the current word.\<close>

fun toks :: "string \<Rightarrow> string \<Rightarrow> string list" where
  "toks cur [] = (if cur = [] then [] else [cur])"
| "toks cur (c # s) =
     (if c \<in> set wsdelim then
        (if cur = [] then [] else [cur]) @ (if c = CHR ''<'' \<or> c = CHR ''>'' then [[c]] else []) @ toks [] s
      else toks (cur @ [c]) s)"

lemma toks_skip: "set u \<inter> set wsdelim = {} \<Longrightarrow> toks cur (u @ v) = toks (cur @ u) v"
  by (induction u arbitrary: cur) auto

lemma find_first_of_parts:
  assumes "find_first_of cs str pos = Some q"
  shows "drop pos str = substr str pos (q - pos) @ str ! q # drop (Suc q) str"
    "set (substr str pos (q - pos)) \<inter> set cs = {}" "str ! q \<in> set cs"
proof -
  let ?t = "takeWhile (\<lambda>c. c \<notin> set cs) (drop pos str)"
  have q: "q < length str" "q = pos + length ?t"
    using assms by (auto simp: find_first_of_def Let_def split: if_splits)
  then have lt: "length ?t < length (drop pos str)" by simp
  have "q - pos = length ?t" using q(2) by simp
  then have t: "substr str pos (q - pos) = ?t"
    unfolding substr_def by (simp only: takeWhile_eq_take [symmetric])
  show "str ! q \<in> set cs" using nth_length_takeWhile [OF lt] q by simp
  show "set (substr str pos (q - pos)) \<inter> set cs = {}" unfolding t using set_takeWhileD by fastforce
  have "drop pos str = take (q - pos) (drop pos str) @ drop (q - pos) (drop pos str)"
    by (rule append_take_drop_id [symmetric])
  also have "drop (q - pos) (drop pos str) = str ! q # drop (Suc q) str"
    using q by (simp add: Cons_nth_drop_Suc add.commute)
  finally show "drop pos str = substr str pos (q - pos) @ str ! q # drop (Suc q) str"
    by (simp add: substr_def)
qed

lemma find_first_of_None:
  assumes "find_first_of cs str pos = None"
  shows "set (drop pos str) \<inter> set cs = {}"
proof -
  let ?t = "takeWhile (\<lambda>c. c \<notin> set cs) (drop pos str)"
  have "length str \<le> pos + length ?t" using assms by (auto simp: find_first_of_def Let_def split: if_splits)
  then have l: "length (drop pos str) \<le> length ?t" by simp
  have "?t = take (length ?t) (drop pos str)" by (rule takeWhile_eq_take)
  also have "\<dots> = drop pos str" using l by (rule take_all)
  finally have "?t = drop pos str" .
  then show ?thesis by (metis (mono_tags, lifting) disjoint_iff set_takeWhileD)
qed

lemma split_words_toks: "pos \<le> length str \<Longrightarrow> split_words str pos parts = parts @ toks [] (drop pos str)"
proof (induction str pos parts rule: split_words.induct)
  case (1 str pos parts)
  show ?case
  proof (cases "find_first_of wsdelim str pos")
    case None
    from find_first_of_None [OF this]
    have "toks [] (drop pos str @ []) = toks ([] @ drop pos str) []" by (rule toks_skip)
    then show ?thesis using None 1(2) by (subst split_words.simps) (auto simp: substr_def)
  next
    case (Some q)
    note F = find_first_of_parts [OF Some]
    have q: "pos \<le> q" "q < length str" using find_first_of_Some [OF Some] by auto
    let ?u = "substr str pos (q - pos)"
    have u: "?u = [] \<longleftrightarrow> q = pos" using q by (auto simp: substr_def)
    have s: "substr str q 1 = [str ! q]" using q by (simp add: substr_def take_Suc hd_drop_conv_nth)
    have "toks [] (drop pos str) = toks ?u (str ! q # drop (Suc q) str)"
      unfolding F(1) using toks_skip [OF F(2)] by simp
    then show ?thesis using 1(1) [OF Some refl refl] F(3) q u s Some
      by (subst split_words.simps) (simp add: Let_def)
  qed
qed

definition spaced :: "string list \<Rightarrow> string" where
  "spaced ws = concat (map ((#) CHR '' '') ws)"

definition safe :: "string \<Rightarrow> bool" where
  "safe w \<longleftrightarrow> w \<noteq> [] \<and> set w \<inter> (set wsdelim \<union> set symcmds) = {}"

lemma spaced_simps [simp]:
  "spaced [] = []" "spaced (w # ws) = CHR '' '' # w @ spaced ws" "spaced (us @ vs) = spaced us @ spaced vs"
  by (simp_all add: spaced_def)

lemma toks_spaced:
  "\<forall>w \<in> set ws. safe w \<or> w = ''<'' \<or> w = ''>'' \<Longrightarrow> toks cur (spaced ws) = (if cur = [] then [] else [cur]) @ ws"
proof (induction ws arbitrary: cur)
  case (Cons w ws)
  have IH: "toks cur (spaced ws) = (if cur = [] then [] else [cur]) @ ws" for cur
    using Cons by simp
  have sp: "CHR '' '' \<in> set wsdelim" by (simp add: wsdelim_def)
  consider "safe w" | "w = ''<'' \<or> w = ''>''" using Cons(2) by auto
  then have "toks [] (w @ spaced ws) = w # ws"
  proof cases
    case 1
    then have "set w \<inter> set wsdelim = {}" "w \<noteq> []" by (auto simp: safe_def)
    then show ?thesis using toks_skip [of w "[]" "spaced ws"] IH [of w] by simp
  next
    case 2
    then show ?thesis using IH [of "[]"] by (auto simp: wsdelim_def)
  qed
  then show ?case using sp by simp
qed simp
text \<open>The words of a command line: its parameters, then its redirections.\<close>

definition words_of :: "Comand \<Rightarrow> string list" where
  "words_of c = params c @ (if infile c = [] then [] else [''<'', infile c])
     @ (if outfile c = [] then [] else [''>'', outfile c])"

definition comand_ok :: "Comand \<Rightarrow> bool" where
  "comand_ok c \<longleftrightarrow> params c \<noteq> [] \<and> (\<forall>w \<in> set (params c). safe w)
     \<and> (infile c = [] \<or> safe (infile c)) \<and> (outfile c = [] \<or> safe (outfile c))"

lemma redirect_skip:
  "\<forall>w \<in> set ws. w \<noteq> ''<'' \<and> w \<noteq> ''>'' \<Longrightarrow>
   redirect_loop (p @ ws @ r) (length p) i u = redirect_loop ((p @ ws) @ r) (length (p @ ws)) i u"
proof (induction ws arbitrary: p)
  case (Cons w ws)
  have "redirect_loop (p @ (w # ws) @ r) (length p) i u = redirect_loop ((p @ [w]) @ ws @ r) (length (p @ [w])) i u"
    using Cons(2) by (subst redirect_loop.simps) auto
  then show ?case using Cons(1) [of "p @ [w]"] Cons(2) by simp
qed simp

lemma redirect_end: "redirect_loop p (length p) i u = Some (p, i, u)"
  by (subst redirect_loop.simps) simp

lemma redirect_in: "p \<noteq> [] \<Longrightarrow> redirect_loop (p @ ''<'' # f # r) (length p) i u = redirect_loop (p @ r) (length p) f u"
  by (subst redirect_loop.simps) (simp add: erase_at_def iter_prev_def Let_def nth_append)

lemma redirect_out: "p \<noteq> [] \<Longrightarrow> redirect_loop (p @ ''>'' # f # r) (length p) i u = redirect_loop (p @ r) (length p) i f"
  by (subst redirect_loop.simps) (simp add: erase_at_def iter_prev_def Let_def nth_append)

lemma safe_no_redirect: "safe w \<Longrightarrow> w \<noteq> ''<'' \<and> w \<noteq> ''>''"
  by (auto simp: safe_def wsdelim_def)

lemma redirect_words:
  assumes "comand_ok c"
  shows "redirect_loop (words_of c) 0 [] [] = Some (params c, infile c, outfile c)"
proof -
  have ne: "params c \<noteq> []" using assms by (simp add: comand_ok_def)
  have "redirect_loop (words_of c) 0 [] [] = redirect_loop (params c
      @ (if infile c = [] then [] else [''<'', infile c]) @ (if outfile c = [] then [] else [''>'', outfile c]))
      (length (params c)) [] []"
    unfolding words_of_def using redirect_skip [of "params c" "[]"] assms safe_no_redirect
    by (simp add: comand_ok_def)
  then show ?thesis
    using redirect_in [OF ne, of "infile c"] redirect_out [OF ne, of "outfile c" "[]"]
      redirect_end [of "params c"] by (cases "infile c = []"; cases "outfile c = []") simp_all
qed

lemma add_comand_words:
  assumes "comand_ok c"
  shows "add_comand cmds (spaced (words_of c)) = Some (cmds @ [Cmd c])"
proof -
  have "\<forall>w \<in> set (words_of c). safe w \<or> w = ''<'' \<or> w = ''>''"
    using assms by (auto simp: words_of_def comand_ok_def)
  from toks_spaced [OF this, of "[]"] have "split_words (spaced (words_of c)) 0 [] = words_of c"
    using split_words_toks [of 0 "spaced (words_of c)" "[]"] by simp
  then show ?thesis using redirect_words [OF assms] assms
    by (simp add: add_comand_def new_Comand_def comand_ok_def)
qed

lemma words_of_no_symbol:
  assumes "comand_ok c"
  shows "set (spaced (words_of c)) \<inter> set symcmds = {}" "spaced (words_of c) \<noteq> []"
proof -
  have w: "\<forall>w \<in> set (words_of c). set w \<inter> set symcmds = {}"
    using assms by (auto simp: words_of_def comand_ok_def safe_def symcmds_def)
  then have "set (spaced ws) \<inter> set symcmds = {}" if "set ws \<subseteq> set (words_of c)" for ws
    using that by (induction ws) (auto simp: symcmds_def)
  then show "set (spaced (words_of c)) \<inter> set symcmds = {}" by blast
  show "spaced (words_of c) \<noteq> []"
    using assms by (cases "params c") (auto simp: words_of_def comand_ok_def)
qed

section \<open>Rendering a command line\<close>

text \<open>A delimiter in the text, and after the two replacements of \<open>parse\<close>.\<close>

definition short :: "string \<Rightarrow> string" where
  "short d = (if d = ''||'' then ''@'' else if d = ''&&'' then ''$'' else d)"

fun render :: "(string \<Rightarrow> string) \<Rightarrow> Entity list \<Rightarrow> string" where
  "render f [] = []"
| "render f (Cmd c # es) = spaced (words_of c) @ render f es"
| "render f (Delim d # es) = f d @ render f es"

fun written :: "Entity list \<Rightarrow> string" where
  "written [] = []"
| "written (Cmd c # es) = spaced (words_of c) @ written es"
| "written (Delim d # es) = d @ written es"

text \<open>Commands and delimiters alternate, a command comes first.\<close>

fun alternates :: "Entity list \<Rightarrow> bool" where
  "alternates [] \<longleftrightarrow> True"
| "alternates [Cmd c] \<longleftrightarrow> comand_ok c"
| "alternates (Cmd c # Delim d # es) \<longleftrightarrow> comand_ok c \<and> d \<in> delims \<and> alternates es"
| "alternates _ \<longleftrightarrow> False"

lemma parse_loop_step:
  assumes "set u \<inter> set symcmds = {}" "c \<in> set symcmds"
  shows "parse_loop (p @ u @ c # v) (length p) cmds = (do {
    cmds \<leftarrow> add_comand cmds u;
    parse_loop ((p @ u @ [c]) @ v) (length (p @ u @ [c])) (add_delim cmds [c]) })"
proof -
  have "takeWhile (\<lambda>x. x \<notin> set symcmds) (u @ c # v) = u"
    using assms by (subst takeWhile_append2) auto
  then have "find_first_of symcmds (p @ u @ c # v) (length p) = Some (length p + length u)"
    by (simp add: find_first_of_def)
  then show ?thesis by (subst parse_loop.simps) (simp add: substr_def)
qed

lemma parse_loop_last:
  assumes "set u \<inter> set symcmds = {}" "u \<noteq> []"
  shows "parse_loop (p @ u) (length p) cmds = add_comand cmds u"
proof -
  have "takeWhile (\<lambda>x. x \<notin> set symcmds) u = u" using assms by (subst takeWhile_eq_all_conv) auto
  then have "find_first_of symcmds (p @ u) (length p) = None"
    unfolding find_first_of_def append_eq_conv_conj by (simp del: takeWhile_eq_all_conv)
  then show ?thesis using assms(2) by (subst parse_loop.simps) (simp add: substr_def)
qed

lemma add_delim_short:
  assumes "d \<in> delims"
  shows "\<exists>c \<in> set symcmds. short d = [c] \<and> add_delim cmds [c] = cmds @ [Delim d]"
  using assms by (auto simp: delims_def short_def add_delim_def symcmds_def)

lemma parse_loop_render:
  "alternates es \<Longrightarrow> parse_loop (p @ render short es) (length p) cmds = Some (cmds @ es)"
proof (induction es arbitrary: p cmds rule: alternates.induct)
  case 1
  then show ?case by (subst parse_loop.simps) simp
next
  case (2 c)
  then show ?case
    using parse_loop_last [OF words_of_no_symbol] add_comand_words by simp
next
  case (3 c d es)
  then have c: "comand_ok c" "d \<in> delims" "alternates es" by auto
  obtain x where x: "x \<in> set symcmds" "short d = [x]"
      "add_delim (cmds @ [Cmd c]) [x] = (cmds @ [Cmd c]) @ [Delim d]"
    using add_delim_short [OF c(2)] by blast
  have "render short (Cmd c # Delim d # es) = spaced (words_of c) @ x # render short es" using x(2) by simp
  then have "parse_loop (p @ render short (Cmd c # Delim d # es)) (length p) cmds
      = parse_loop ((p @ spaced (words_of c) @ [x]) @ render short es) (length (p @ spaced (words_of c) @ [x]))
          ((cmds @ [Cmd c]) @ [Delim d])"
    using parse_loop_step [OF words_of_no_symbol(1) [OF c(1)] x(1), of p "render short es" cmds]
      add_comand_words [OF c(1), of cmds] x(3) by simp
  also have "\<dots> = Some (((cmds @ [Cmd c]) @ [Delim d]) @ es)" by (rule 3(1) [OF c(3)])
  finally show ?case by simp
qed auto

text \<open>The two replacements on a rendered line.\<close>

definition mid :: "string \<Rightarrow> string" where
  "mid d = (if d = ''||'' then ''@'' else d)"

lemma words_no_bar:
  assumes "comand_ok c"
  shows "CHR ''|'' \<notin> set (spaced (words_of c))" "CHR ''&'' \<notin> set (spaced (words_of c))"
  using words_of_no_symbol(1) [OF assms] by (auto simp: symcmds_def)

lemma render_starts:
  "alternates es \<Longrightarrow> render f es = [] \<or> (\<exists>r. render f es = CHR '' '' # r)"
  "alternates es \<Longrightarrow> written es = [] \<or> (\<exists>r. written es = CHR '' '' # r)"
  by (cases es rule: alternates.cases; auto simp: comand_ok_def words_of_def neq_Nil_conv)+

lemma scan_last: "v = [] \<or> hd v \<noteq> b \<Longrightarrow> scan a b e (a # v) = a # scan a b e v"
  by (cases v) auto

lemma scan_delim:
  assumes "d \<in> delims"
  shows "v = [] \<or> hd v \<noteq> CHR ''|'' \<Longrightarrow> scan CHR ''|'' CHR ''|'' CHR ''@'' (d @ v) = mid d @ scan CHR ''|'' CHR ''|'' CHR ''@'' v"
    "v = [] \<or> hd v \<noteq> CHR ''&'' \<Longrightarrow> scan CHR ''&'' CHR ''&'' CHR ''$'' (mid d @ v) = short d @ scan CHR ''&'' CHR ''&'' CHR ''$'' v"
  using assms scan_skip [of "CHR ''|''" d] scan_skip [of "CHR ''&''" "mid d"]
  by (auto simp: delims_def mid_def short_def scan_last)

lemma scan_bar:
  "alternates es \<Longrightarrow> scan CHR ''|'' CHR ''|'' CHR ''@'' (written es) = render mid es"
proof (induction es rule: alternates.induct)
  case (2 c)
  then show ?case using scan_skip [OF words_no_bar(1), of c _ _ "[]"] by simp
next
  case (3 c d es)
  then have c: "comand_ok c" "d \<in> delims" "alternates es" by auto
  have r: "written es = [] \<or> hd (written es) \<noteq> CHR ''|''" using render_starts(2) [OF c(3)] by auto
  have "scan CHR ''|'' CHR ''|'' CHR ''@'' (d @ written es) = mid d @ render mid es"
    by (simp only: 3(1) [OF c(3)] scan_delim(1) [OF c(2) r])
  then show ?case using scan_skip [OF words_no_bar(1) [OF c(1)]] by simp
qed auto

lemma scan_amp:
  "alternates es \<Longrightarrow> scan CHR ''&'' CHR ''&'' CHR ''$'' (render mid es) = render short es"
proof (induction es rule: alternates.induct)
  case (2 c)
  then show ?case using scan_skip [OF words_no_bar(2), of c _ _ "[]"] by simp
next
  case (3 c d es)
  then have c: "comand_ok c" "d \<in> delims" "alternates es" by auto
  have r: "render mid es = [] \<or> hd (render mid es) \<noteq> CHR ''&''" using render_starts(1) [OF c(3), of mid] by auto
  have "scan CHR ''&'' CHR ''&'' CHR ''$'' (mid d @ render mid es) = short d @ render short es"
    using 3(1) [OF c(3)] scan_delim(2) [OF c(2) r] by simp
  then show ?case using scan_skip [OF words_no_bar(2) [OF c(1)]] by simp
qed auto

section \<open>Pipes\<close>

definition piped_in :: "Entity list \<Rightarrow> nat \<Rightarrow> bool" where
  "piped_in es i \<longleftrightarrow> 0 < i \<and> es ! (i - 1) = Delim ''|''"

definition piped_out :: "Entity list \<Rightarrow> nat \<Rightarrow> bool" where
  "piped_out es i \<longleftrightarrow> Suc i < length es \<and> es ! Suc i = Delim ''|''"

text \<open>The ends of every pipe replace the redirections that the user gave.\<close>

definition piped_entity :: "Entity list \<Rightarrow> nat \<Rightarrow> Entity" where
  "piped_entity es i = (case es ! i of
     Cmd c \<Rightarrow> Cmd (c\<lparr>infile := if piped_in es i then ''pipe'' else infile c,
                     outfile := if piped_out es i then ''pipe'' else outfile c\<rparr>)
   | Delim d \<Rightarrow> Delim d)"

definition connect :: "Entity list \<Rightarrow> Entity list" where
  "connect es = map (piped_entity es) [0..<length es]"

text \<open>The array after the pipes before place \<open>k\<close> were handled.\<close>

definition part_entity :: "nat \<Rightarrow> Entity list \<Rightarrow> nat \<Rightarrow> Entity" where
  "part_entity k es i = (case es ! i of
     Cmd c \<Rightarrow> Cmd (c\<lparr>infile := if piped_in es i \<and> i \<le> k then ''pipe'' else infile c,
                     outfile := if piped_out es i \<and> Suc i < k then ''pipe'' else outfile c\<rparr>)
   | Delim d \<Rightarrow> Delim d)"

definition part :: "nat \<Rightarrow> Entity list \<Rightarrow> Entity list" where
  "part k es = map (part_entity k es) [0..<length es]"

lemma part_simps [simp]: "length (part k es) = length es" "i < length es \<Longrightarrow> part k es ! i = part_entity k es i"
  by (simp_all add: part_def)

lemma pipe_loop_part:
  assumes "shape es" "es = [] \<or> last es \<noteq> Delim ''|''" "k \<le> length es"
  shows "pipe_loop [k..<length es] (part k es) = Some (connect es)"
  using assms(3)
proof (induction "length es - k" arbitrary: k)
  case 0
  then have k: "k = length es" by simp
  have "part k es = connect es"
    unfolding part_def connect_def k
    by (rule map_cong) (auto simp: part_entity_def piped_entity_def piped_out_def split: Entity.splits)
  then show ?case using k by simp
next
  case (Suc n)
  then have k: "k < length es" by simp
  have u: "[k..<length es] = k # [Suc k..<length es]" using k by (rule upt_conv_Cons)
  have IH: "pipe_loop [Suc k..<length es] (part (Suc k) es) = Some (connect es)"
    using Suc by simp
  have el: "part k es ! k = Delim d \<longleftrightarrow> es ! k = Delim d" for d
    using k by (auto simp: part_entity_def split: Entity.splits)
  show ?case
  proof (cases "es ! k = Delim ''|''")
    case False
    have "part (Suc k) es = part k es"
      unfolding part_def using False
      by (intro map_cong) (auto simp: part_entity_def piped_in_def piped_out_def less_Suc_eq le_Suc_eq split: Entity.splits)
    then show ?thesis using u False el IH by simp
  next
    case True
    have od: "odd k" using assms(1) k True unfolding shape_def by (metis Entity.distinct(1))
    have lt: "Suc k < length es"
    proof (rule ccontr)
      assume "\<not> Suc k < length es"
      then have "k = length es - 1" using k by simp
      moreover have "es \<noteq> []" using k by auto
      ultimately show False using assms(2) True last_conv_nth [of es] by simp
    qed
    have e1: "even (k - 1)" "even (Suc k)" using od by auto
    obtain c where c: "es ! (k - 1) = Cmd c" using assms(1) e1(1) k unfolding shape_def by (metis less_imp_diff_less)
    obtain d where d: "es ! Suc k = Cmd d" using assms(1) e1(2) lt unfolding shape_def by metis
    obtain c' where c': "part k es ! (k - 1) = Cmd c'" using c k by (simp add: part_entity_def)
    obtain d' where d': "part k es ! Suc k = Cmd d'" using d lt by (simp add: part_entity_def)
    have p: "part (Suc k) es = (part k es)[k - 1 := Cmd (c'\<lparr>outfile := ''pipe''\<rparr>), Suc k := Cmd (d'\<lparr>infile := ''pipe''\<rparr>)]"
    proof (rule nth_equalityI)
      fix i assume "i < length (part (Suc k) es)"
      then have i: "i < length es" by simp
      have k0: "0 < k" using od by (cases k) auto
      consider "i = k - 1" | "i = Suc k" | "i \<noteq> k - 1" "i \<noteq> Suc k" by blast
      then show "part (Suc k) es ! i = (part k es)[k - 1 := Cmd (c'\<lparr>outfile := ''pipe''\<rparr>), Suc k := Cmd (d'\<lparr>infile := ''pipe''\<rparr>)] ! i"
      proof cases
        case 1
        then show ?thesis using c c' k k0 lt True by (auto simp: part_entity_def piped_in_def piped_out_def nth_list_update)
      next
        case 2
        then show ?thesis using d d' k k0 lt True by (auto simp: part_entity_def piped_in_def piped_out_def nth_list_update)
      next
        case 3
        then show ?thesis using i k k0 lt
          by (auto simp: part_entity_def piped_in_def piped_out_def nth_list_update le_Suc_eq less_Suc_eq split: Entity.splits)
      qed
    qed simp
    have "iter_prev k = Some (k - 1)" using od by (cases k) (auto simp: iter_prev_def)
    moreover have "set_outfile (part k es) (k - 1) = Some ((part k es)[k - 1 := Cmd (c'\<lparr>outfile := ''pipe''\<rparr>)])"
      using c' k by (simp add: set_outfile_def iter_get_def)
    moreover have "set_infile ((part k es)[k - 1 := Cmd (c'\<lparr>outfile := ''pipe''\<rparr>)]) (Suc k) = Some (part (Suc k) es)"
      unfolding p using d' lt by (simp add: set_infile_def iter_get_def)
    ultimately show ?thesis using u True el IH by simp
  qed
qed

lemma alternates_shape: "alternates es \<Longrightarrow> shape es"
proof (induction es rule: alternates.induct)
  case (2 c)
  then show ?case by (auto simp: shape_def comand_ok_def)
next
  case (3 c d es)
  then have "shape es" "comand_ok c" "d \<in> delims" by auto
  then show ?case unfolding shape_def
    by (auto simp: nth_Cons comand_ok_def split: nat.split)
qed (auto simp: shape_def)

lemma piped_0: "piped 0 es"
  by (simp add: piped_def)

lemma part_0: "part 0 es = es"
proof (rule nth_equalityI)
  fix i assume "i < length (part 0 es)"
  then show "part 0 es ! i = es ! i" by (auto simp: part_entity_def piped_in_def split: Entity.splits)
qed simp

lemma replace_line:
  assumes "alternates es"
  shows "replace (replace (written es) ''||'' ''@'') ''&&'' ''$'' = render short es"
  unfolding replace_scan by (simp only: scan_bar [OF assms] scan_amp [OF assms])

lemma pipe_loop_trailing:
  assumes "pipe_loop [0..<length es] es = Some fs" "shape es" "es \<noteq> []"
  shows "last es \<noteq> Delim ''|''"
proof
  assume l: "last es = Delim ''|''"
  have ok: "shape fs \<and> piped (length fs) fs \<and> length fs = length es"
    using pipe_loop_ok [OF assms(1,2) piped_0] by auto
  have keep: "pipe_loop its xs = Some ys \<Longrightarrow> xs ! n = Delim d \<Longrightarrow> ys ! n = Delim d" for its xs ys n d
  proof (induction its arbitrary: xs)
    case (Cons i its)
    show ?case
    proof (cases "xs ! i = Delim ''|''")
      case True
      then obtain p x1 x2 where x: "set_outfile xs p = Some x1" "set_infile x1 (Suc i) = Some x2"
          "pipe_loop its x2 = Some ys" using Cons(2) by (auto simp: bind_eq_Some_conv)
      have "x1 ! n = Delim d" using set_file_Some(1) [OF x(1)] Cons(3) by (cases "n = p") auto
      then have "x2 ! n = Delim d" using set_file_Some(2) [OF x(2)] by (cases "n = Suc i") auto
      then show ?thesis using Cons(1) x(3) by blast
    next
      case False
      then show ?thesis using Cons by simp
    qed
  qed simp
  have "es ! (length es - 1) = Delim ''|''" using l assms(3) by (simp add: last_conv_nth)
  from keep [OF assms(1) this] have "fs ! (length fs - 1) = Delim ''|''" using ok by simp
  moreover have n: "length fs - 1 < length fs" using ok assms(3) by auto
  ultimately have "Suc (length fs - 1) < length fs" using ok unfolding piped_def by blast
  then show False by simp
qed

section \<open>What the parser promises\<close>

lemma parse_written:
  assumes "alternates es" "es = [] \<or> last es \<noteq> Delim ''|''"
  shows "parse (written es) = Some (if es \<noteq> [] \<and> last es = Delim ''&'' then (butlast (connect es), True)
     else (connect es, False))"
proof -
  have "parse_loop (render short es) 0 [] = Some es" using parse_loop_render [OF assms(1), of "[]" "[]"] by simp
  moreover have "pipe_loop [0..<length es] es = Some (connect es)"
    using pipe_loop_part [OF alternates_shape [OF assms(1)] assms(2), of 0] part_0 by simp
  moreover have "connect es \<noteq> [] \<and> last (connect es) = Delim ''&'' \<longleftrightarrow> es \<noteq> [] \<and> last es = Delim ''&''"
    by (auto simp: connect_def last_map piped_entity_def last_conv_nth split: Entity.splits)
  ultimately show ?thesis unfolding parse_def Let_def replace_line [OF assms(1)] by simp
qed

text \<open>Property C11.
  Parsing a written command line gives back its commands and delimiters: for every sequence of
  commands (words and file names free of white space and of the shell's signs) with a delimiter
  between neighbours, the text of the line parses to exactly these entities, where the two ends
  of every \<open>|\<close> became \<open>pipe\<close>; a final \<open>&\<close> is removed and sets the background flag.
\<close>

theorem parse_line:
  assumes "alternates es" "es = [] \<or> last es \<noteq> Delim ''|''"
  shows "parse (written es) = Some (if es \<noteq> [] \<and> last es = Delim ''&'' then (butlast (connect es), True)
     else (connect es, False))"
  by (rule parse_written [OF assms])

theorem parse_line_witness:
  "parse '' cat -n < in|| grep x| wc > out&'' = Some (
     [Cmd \<lparr>params = [''cat'', ''-n''], infile = ''in'', outfile = []\<rparr>, Delim ''||'',
      Cmd \<lparr>params = [''grep'', ''x''], infile = [], outfile = ''pipe''\<rparr>, Delim ''|'',
      Cmd \<lparr>params = [''wc''], infile = ''pipe'', outfile = ''out''\<rparr>], True)"
proof -
  let ?es = "[Cmd \<lparr>params = [''cat'', ''-n''], infile = ''in'', outfile = []\<rparr>, Delim ''||'',
      Cmd \<lparr>params = [''grep'', ''x''], infile = [], outfile = []\<rparr>, Delim ''|'',
      Cmd \<lparr>params = [''wc''], infile = [], outfile = ''out''\<rparr>, Delim ''&'']"
  have "alternates ?es"
    by (simp add: comand_ok_def safe_def wsdelim_def symcmds_def delims_def)
  moreover have "last ?es \<noteq> Delim ''|''" by simp
  ultimately have "parse (written ?es) = Some (butlast (connect ?es), True)"
    using parse_line [of ?es] by simp
  moreover have "written ?es = '' cat -n < in|| grep x| wc > out&''" by (simp add: words_of_def)
  moreover have "butlast (connect ?es) = [Cmd \<lparr>params = [''cat'', ''-n''], infile = ''in'', outfile = []\<rparr>, Delim ''||'',
      Cmd \<lparr>params = [''grep'', ''x''], infile = [], outfile = ''pipe''\<rparr>, Delim ''|'',
      Cmd \<lparr>params = [''wc''], infile = ''pipe'', outfile = ''out''\<rparr>]"
    by (simp add: connect_def piped_entity_def piped_in_def piped_out_def upt_rec)
  ultimately show ?thesis by (simp only:)
qed

text \<open>Property C30.
  Whatever the line is, a result of the parser is well formed: commands with at least one word at
  the even places, one of \<open>| || && & ;\<close> at the odd ones; both neighbours of every \<open>|\<close> are commands
  that are connected to it.
\<close>

theorem parse_shape:
  assumes "parse s = Some (es, bg)"
  shows "shape es \<and> piped (length es) es \<and> (es = [] \<or> bg \<or> last es \<noteq> Delim ''&'')"
proof -
  let ?r = "replace (replace s ''||'' ''@'') ''&&'' ''$''"
  obtain cs fs where cs: "parse_loop ?r 0 [] = Some cs" "pipe_loop [0..<length cs] cs = Some fs"
    "(es, bg) = (if fs \<noteq> [] \<and> last fs = Delim ''&'' then (butlast fs, True) else (fs, False))"
    using assms unfolding parse_def Let_def by (auto simp: bind_eq_Some_conv split: if_splits)
  have "shape cs" using parse_loop_shape [OF cs(1)] by (simp add: shape_def)
  from pipe_loop_ok [OF cs(2) this piped_0] have f: "shape fs" "piped (length fs) fs" by auto
  show ?thesis
  proof (cases "fs \<noteq> [] \<and> last fs = Delim ''&''")
    case False
    then show ?thesis using f cs(3) by auto
  next
    case True
    then have e: "es = butlast fs" "bg" using cs(3) by auto
    have l: "fs ! (length fs - 1) = Delim ''&''" using True last_conv_nth [of fs] by metis
    have "piped (length es) es" unfolding piped_def
    proof (intro allI impI)
      fix i assume i: "i < length es" "es ! i = Delim ''|''"
      then have fi: "i < length fs" "fs ! i = Delim ''|''" using e by (simp_all add: nth_butlast)
      then obtain c d where c: "0 < i" "Suc i < length fs" "fs ! (i - 1) = Cmd c" "outfile c = ''pipe''"
          "fs ! Suc i = Cmd d" "infile d = ''pipe''" using f(2) unfolding piped_def by blast
      then have "Suc i \<noteq> length fs - 1" using l by auto
      then have "Suc i < length es" using c(2) e by simp
      then show "0 < i \<and> Suc i < length es \<and> (\<exists>c. es ! (i - 1) = Cmd c \<and> outfile c = ''pipe'')
          \<and> (\<exists>c. es ! Suc i = Cmd c \<and> infile c = ''pipe'')" using c e by (simp add: nth_butlast)
    qed
    moreover have "shape es" using f(1) e by (simp add: shape_def nth_butlast)
    ultimately show ?thesis using e by simp
  qed
qed

theorem parse_shape_witness:
  "\<exists>es bg. parse '' a|b &'' = Some (es, bg) \<and> shape es \<and> piped (length es) es \<and> (es = [] \<or> bg \<or> last es \<noteq> Delim ''&'')"
proof -
  have "parse '' a|b &'' \<noteq> None" by code_simp
  then show ?thesis using parse_shape by (metis not_None_eq surj_pair)
qed

text \<open>
  The placeholder \<open>@\<close> that stands for \<open>||\<close> inside the parser is not reserved: a line and the line
  with every \<open>||\<close> written as \<open>@\<close> parse alike, so that \<open>@\<close> in a user's word separates commands.
\<close>

lemma at_sign_is_or: "parse (replace s ''||'' ''@'') = parse s"
  unfolding parse_def replace_scan by (simp add: scan_scan)

text \<open>Property C40.
  A line that ends with \<open>|\<close> has undefined behaviour: the parser dereferences \<open>cmds.end()\<close>.
\<close>

theorem trailing_pipe_undefined:
  assumes "alternates es" "es \<noteq> []" "last es = Delim ''|''"
  shows "parse (written es) = None"
proof -
  have p: "parse_loop (render short es) 0 [] = Some es" using parse_loop_render [OF assms(1), of "[]" "[]"] by simp
  have "pipe_loop [0..<length es] es = None"
    using pipe_loop_trailing [OF _ alternates_shape [OF assms(1)] assms(2)] assms(3)
    by (cases "pipe_loop [0..<length es] es") auto
  then show ?thesis using p unfolding parse_def Let_def replace_line [OF assms(1)] by simp
qed

theorem trailing_pipe_undefined_witness: "parse '' ls|'' = None"
  using trailing_pipe_undefined [of "[Cmd \<lparr>params = [''ls''], infile = [], outfile = []\<rparr>, Delim ''|'']"]
  by (simp add: comand_ok_def safe_def wsdelim_def symcmds_def delims_def words_of_def)

end
