(* ===== verification/Shell_Run.thy ===== *)
theory Shell_Run
  imports Shell_Parser
begin

text \<open>
  Model of \<^verbatim>\<open>src/p5/main.cpp\<close>: the redirections, \<open>run\<close> with its lazy \<open>||\<close> and \<open>&&\<close>, and the
  main loop. The kernel is the record \<open>kernel\<close>: which files can be opened, how the n-th started
  process ends, which of its running children \<open>wait\<close> reports next, and at which points a
  \<open>SIGINT\<close> arrives, on which \<open>handler\<close> runs. \<open>fork\<close> is taken to succeed.
\<close>

section \<open>State\<close>

type_synonym pid = nat

text \<open>How a child ended; without \<open>WUNTRACED\<close> the kernel reports no stopped children.\<close>

datatype wstatus = Exited nat | Signaled nat

datatype channel = Terminal | File string | PipeR nat | PipeW nat | Closed

text \<open>The read end \<open>fdpipe[0]\<close>: not written yet, open, or closed again.\<close>

datatype pipe_fd = Uninit | Open nat | Shut

datatype event = Start pid "string list" channel channel | Log pid nat | Spawned pid "Entity list" | Kill pid

text \<open>
  Where a signal can arrive: while a line is read, before an entity of a line, in a \<open>wait\<close>, and in a
  new background process. Lines and waits are counted from the start.
\<close>

datatype point = Reading nat | Looping nat nat | Waiting nat | Forked nat

record kernel =
  opens :: "string \<Rightarrow> bool"
  outcome :: "pid \<Rightarrow> wstatus"
  pick :: "nat \<Rightarrow> nat"
  sigint :: "point \<Rightarrow> bool"

text \<open>
  \<open>is_main\<close> and \<open>is_shell\<close> say whether \<open>getpid()\<close> is \<open>main_pid\<close> and \<open>shell_pid\<close>; \<open>exit_code\<close> is set
  once the process called \<open>exit\<close>, and nothing runs after that.
\<close>

record Shell =
  fd_in :: channel
  fd_out :: channel
  fdpipe :: pipe_fd
  pids :: "pid set"
  children :: "pid list"
  forks :: nat
  pipes :: nat
  waits :: nat
  events :: "event list"
  active_process :: bool
  is_main :: bool
  is_shell :: bool
  exit_code :: "nat option"
  lines_read :: nat

definition WIFEXITED :: "wstatus \<Rightarrow> bool" where
  "WIFEXITED st = (case st of Exited _ \<Rightarrow> True | Signaled _ \<Rightarrow> False)"

definition WEXITSTATUS :: "wstatus \<Rightarrow> nat" where
  "WEXITSTATUS st = (case st of Exited n \<Rightarrow> n mod 256 | Signaled _ \<Rightarrow> 0)"

definition log_code :: "wstatus \<Rightarrow> nat" where
  "log_code st = (if WIFEXITED st then WEXITSTATUS st else of_bool (WIFEXITED st))"

definition log :: "pid \<Rightarrow> wstatus \<Rightarrow> Shell \<Rightarrow> Shell" where
  "log p st s = s\<lparr>events := events s @ [Log p (log_code st)]\<rparr>"

section \<open>Signals\<close>

definition handler :: "Shell \<Rightarrow> Shell" where
  "handler s =
     (let s = (if is_main s
               then s\<lparr>events := events s @ map Kill (sorted_list_of_set (pids s)), active_process := False\<rparr>
               else s)
      in if \<not> is_shell s then s\<lparr>exit_code := Some 1\<rparr> else s)"

definition deliver :: "kernel \<Rightarrow> point \<Rightarrow> Shell \<Rightarrow> Shell" where
  "deliver k p s = (if sigint k p \<and> exit_code s = None then handler s else s)"

text \<open>The line ends here: the flag is cleared or the process is gone.\<close>

definition stopped :: "Shell \<Rightarrow> bool" where
  "stopped s \<longleftrightarrow> \<not> active_process s \<or> exit_code s \<noteq> None"

section \<open>Redirections\<close>

text \<open>
  Both run after \<open>dup2\<close> of the saved terminal streams onto 0 and 1; when \<open>open\<close> fails, the
  \<open>dup2\<close> of \<open>-1\<close> fails too and the terminal stays.
\<close>

definition forward_input :: "kernel \<Rightarrow> Comand \<Rightarrow> Shell \<Rightarrow> Shell option" where
  "forward_input k cmd s =
     (if infile cmd = ''pipe'' then
        (case fdpipe s of
           Uninit \<Rightarrow> None
         | Open n \<Rightarrow> Some (s\<lparr>fd_in := PipeR n, fdpipe := Shut\<rparr>)
         | Shut \<Rightarrow> Some s)
      else if infile cmd \<noteq> [] then
        Some (if opens k (infile cmd) then s\<lparr>fd_in := File (infile cmd)\<rparr> else s)
      else Some (s\<lparr>fd_in := Terminal\<rparr>))"

definition forward_output :: "kernel \<Rightarrow> Comand \<Rightarrow> Shell \<Rightarrow> Shell" where
  "forward_output k cmd s =
     (if outfile cmd = ''pipe'' then
        s\<lparr>fdpipe := Open (pipes s), pipes := Suc (pipes s), fd_out := PipeW (pipes s)\<rparr>
      else if outfile cmd \<noteq> [] then
        (if opens k (outfile cmd) then s\<lparr>fd_out := File (outfile cmd)\<rparr> else s)
      else s\<lparr>fd_out := Terminal\<rparr>)"

section \<open>Processes\<close>

text \<open>\<open>fork\<close> and \<open>execvp\<close>: the n-th process started has number n; the parent closes 0 and 1.\<close>

definition start_process :: "Comand \<Rightarrow> Shell \<Rightarrow> Shell" where
  "start_process cmd s = s\<lparr>
     events := events s @ [Start (forks s) (params cmd) (fd_in s) (fd_out s)],
     children := children s @ [forks s],
     pids := insert (forks s) (pids s),
     forks := Suc (forks s),
     fd_in := Closed, fd_out := Closed\<rparr>"

text \<open>\<open>wait\<close> takes any child that has ended; without children its status is garbage.\<close>

definition wait_child :: "kernel \<Rightarrow> Shell \<Rightarrow> (pid \<times> wstatus \<times> Shell) option" where
  "wait_child k s =
     (if children s = [] then None
      else let p = children s ! (pick k (waits s) mod length (children s))
           in Some (p, outcome k p, s\<lparr>children := remove1 p (children s), waits := Suc (waits s)\<rparr>))"

fun wait_loop :: "kernel \<Rightarrow> nat \<Rightarrow> pid \<Rightarrow> wstatus option \<Rightarrow> Shell \<Rightarrow> (wstatus option \<times> Shell) option" where
  "wait_loop k 0 cur_pid cur_status s = Some (cur_status, s)"
| "wait_loop k (Suc cnt) cur_pid cur_status s =
     (let s = deliver k (Waiting (waits s)) s
      in if exit_code s \<noteq> None then Some (cur_status, s)
      else do {
        (p, st, s) \<leftarrow> wait_child k s;
        let s = log p st s;
        let s = s\<lparr>pids := pids s - {p}\<rparr>;
        wait_loop k cnt cur_pid (if p = cur_pid then Some st else cur_status) s
      })"

declare wait_loop.simps(2) [simp del]

section \<open>The run loop\<close>

definition as_comand :: "Entity \<Rightarrow> Comand option" where
  "as_comand e = (case e of Cmd c \<Rightarrow> Some c | Delim _ \<Rightarrow> None)"

definition as_delim :: "Entity \<Rightarrow> string option" where
  "as_delim e = (case e of Cmd _ \<Rightarrow> None | Delim d \<Rightarrow> Some d)"

text \<open>The lazy operators; \<^const>\<open>None\<close> reads \<open>cur_status\<close> before it is written.\<close>

definition skips :: "string \<Rightarrow> wstatus option \<Rightarrow> bool option" where
  "skips prev_op cur_status =
     (if prev_op = ''||'' then do {
        st \<leftarrow> cur_status;
        Some (WIFEXITED st \<and> WEXITSTATUS st = 0)
      } else if prev_op = ''&&'' then do {
        st \<leftarrow> cur_status;
        Some (\<not> WIFEXITED st \<or> WEXITSTATUS st \<noteq> 0)
      } else Some False)"

definition ends_group :: "string \<Rightarrow> bool" where
  "ends_group d \<longleftrightarrow> d = ''||'' \<or> d = ''&&'' \<or> d = '';''"

function run_loop :: "kernel \<Rightarrow> Entity list \<Rightarrow> nat \<Rightarrow> string \<Rightarrow> wstatus option \<Rightarrow> nat \<Rightarrow> Shell \<Rightarrow> Shell option" where
  "run_loop k cmds it prev_op cur_status cnt_proc s =
     (if it < length cmds then
        let s = deliver k (Looping (lines_read s) it) s
        in if stopped s then Some s
        else do {
          lazy \<leftarrow> skips prev_op cur_status;
          if lazy then
            (if Suc it < length cmds then do {
               d \<leftarrow> as_delim (cmds ! Suc it);
               run_loop k cmds (Suc (Suc it)) d cur_status cnt_proc s
             } else Some s)
          else do {
            cmd \<leftarrow> as_comand (cmds ! it);
            s \<leftarrow> forward_input k cmd (s\<lparr>fd_in := Terminal, fd_out := Terminal\<rparr>);
            let s = forward_output k cmd s;
            let cur_pid = forks s;
            let s = start_process cmd s;
            let cnt_proc = Suc cnt_proc;
            if Suc it < length cmds then do {
              d \<leftarrow> as_delim (cmds ! Suc it);
              if ends_group d then do {
                (cur_status, s) \<leftarrow> wait_loop k cnt_proc cur_pid cur_status s;
                run_loop k cmds (Suc (Suc it)) d cur_status 0 s
              } else run_loop k cmds (Suc (Suc it)) d cur_status cnt_proc s
            } else do {
              (cur_status, s) \<leftarrow> wait_loop k cnt_proc cur_pid cur_status s;
              Some s
            }
          }
        }
      else Some s)"
  by pat_completeness auto
termination by (relation "measure (\<lambda>(k, cmds, it, _). length cmds - it)") auto

declare run_loop.simps [simp del]

definition run :: "kernel \<Rightarrow> Entity list \<Rightarrow> Shell \<Rightarrow> Shell option" where
  "run k cmds s = run_loop k cmds 0 [] None 0 (s\<lparr>fdpipe := Uninit\<rparr>)"

section \<open>The main loop\<close>

text \<open>
  One line: the children that ended in the background (\<open>done_pids\<close>, as \<open>waitpid\<close> with
  \<open>WNOHANG\<close> reports them) are logged, then the line is parsed and run, in a child when it ends with \<open>&\<close>.
\<close>

definition reap :: "kernel \<Rightarrow> pid \<Rightarrow> Shell \<Rightarrow> Shell" where
  "reap k p s =
     (let s = log p (outcome k p) s
      in s\<lparr>pids := pids s - {p}, children := remove1 p (children s)\<rparr>)"

text \<open>
  What the process of a line with \<open>&\<close> does, and its exit status: it has no children of its own yet,
  and it is the main process only after it has set \<open>main_pid\<close>.
\<close>

definition background :: "kernel \<Rightarrow> Entity list \<Rightarrow> Shell \<Rightarrow> (nat \<times> Shell) option" where
  "background k cmds s =
     (let s = s\<lparr>children := [], is_main := False, is_shell := False\<rparr>;
          s = deliver k (Forked (forks s)) s
      in case exit_code s of
           Some c \<Rightarrow> Some (c, s)
         | None \<Rightarrow> do {
             s \<leftarrow> run k cmds (s\<lparr>is_main := True\<rparr>);
             Some (case exit_code s of Some c \<Rightarrow> c | None \<Rightarrow> 0, s)
           })"

definition main_turn :: "kernel \<Rightarrow> pid list \<Rightarrow> string \<Rightarrow> Shell \<Rightarrow> Shell option" where
  "main_turn k done_pids line s = do {
     let s = fold (reap k) done_pids s;
     let s = s\<lparr>fd_in := Terminal, active_process := True, pids := {}\<rparr>;
     let s = deliver k (Reading (lines_read s)) s;
     let s = s\<lparr>lines_read := Suc (lines_read s)\<rparr>;
     (cmds, bkgr_mode) \<leftarrow> parse line;
     if \<not> active_process s then Some s
     else if bkgr_mode then
       Some (s\<lparr>events := events s @ [Spawned (forks s) cmds],
               children := children s @ [forks s],
               pids := insert (forks s) (pids s),
               forks := Suc (forks s)\<rparr>)
     else run k cmds s
   }"

text \<open>
  \<open>cin\<close> is read by lines; what follows the last newline is a line as well. At the end of the
  input every remaining child is waited for.
\<close>

fun read_lines :: "string \<Rightarrow> string \<Rightarrow> string list" where
  "read_lines line [] = [line]"
| "read_lines line (ch # cs) = (if ch = CHR 0x0A then line # read_lines [] cs else read_lines (line @ [ch]) cs)"

fun turns :: "kernel \<Rightarrow> (nat \<Rightarrow> pid list) \<Rightarrow> nat \<Rightarrow> string list \<Rightarrow> Shell \<Rightarrow> Shell option" where
  "turns k ended n [] s = Some s"
| "turns k ended n (line # ls) s = do {
     s \<leftarrow> main_turn k (ended n) line s;
     turns k ended (Suc n) ls s
   }"

definition main_loop :: "kernel \<Rightarrow> (nat \<Rightarrow> pid list) \<Rightarrow> string \<Rightarrow> Shell \<Rightarrow> Shell option" where
  "main_loop k ended input s = do {
     let s = s\<lparr>is_main := True, is_shell := True, exit_code := None\<rparr>;
     s \<leftarrow> turns k ended 0 (read_lines [] input) s;
     (_, s) \<leftarrow> wait_loop k (length (children s)) 0 None s;
     Some s
   }"
section \<open>Waiting for a group\<close>

text \<open>The words of the processes that were started, in order.\<close>

fun start_words :: "event \<Rightarrow> string list list" where
  "start_words (Start p ws i u) = [ws]"
| "start_words _ = []"

definition started :: "Shell \<Rightarrow> string list list" where
  "started s = concat (map start_words (events s))"

lemma wait_child_step:
  assumes "children s \<noteq> []"
  obtains p where "p \<in> set (children s)" "wait_child k s = Some (p, outcome k p,
    s\<lparr>children := remove1 p (children s), waits := Suc (waits s)\<rparr>)"
  using assms by (force simp: wait_child_def Let_def)

definition log_of :: "kernel \<Rightarrow> pid \<Rightarrow> event" where
  "log_of k p = Log p (log_code (outcome k p))"

lemma start_words_log [simp]: "concat (map (start_words \<circ> log_of k) ps) = []"
  by (simp add: log_of_def)

lemma stopped_update [simp]:
  "stopped (s\<lparr>fd_in := i\<rparr>) = stopped s" "stopped (s\<lparr>fd_out := u\<rparr>) = stopped s"
  "stopped (s\<lparr>fdpipe := f\<rparr>) = stopped s" "stopped (s\<lparr>pids := ps\<rparr>) = stopped s"
  "stopped (s\<lparr>children := cs\<rparr>) = stopped s" "stopped (s\<lparr>waits := w\<rparr>) = stopped s"
  "stopped (s\<lparr>forks := n\<rparr>) = stopped s" "stopped (s\<lparr>pipes := n\<rparr>) = stopped s"
  "stopped (s\<lparr>events := es\<rparr>) = stopped s" "stopped (s\<lparr>lines_read := n\<rparr>) = stopped s"
  by (simp_all add: stopped_def)

text \<open>Without signals nothing is delivered.\<close>

definition calm :: "kernel \<Rightarrow> bool" where
  "calm k \<longleftrightarrow> (\<forall>p. \<not> sigint k p)"

lemma deliver_calm [simp]: "calm k \<Longrightarrow> deliver k p s = s"
  by (simp add: calm_def deliver_def)

lemma log_simps [simp]:
  "children (log p st s) = children s" "pids (log p st s) = pids s" "forks (log p st s) = forks s"
  "pipes (log p st s) = pipes s" "fdpipe (log p st s) = fdpipe s" "stopped (log p st s) = stopped s"
  "active_process (log p st s) = active_process s" "exit_code (log p st s) = exit_code s"
  "is_shell (log p st s) = is_shell s" "is_main (log p st s) = is_main s"
  "waits (log p st s) = waits s" "events (log p st s) = events s @ [Log p (log_code st)]"
  by (simp_all add: log_def)

text \<open>Waiting for as many children as there are returns, whatever order the kernel chooses.\<close>

lemma wait_loop_all:
  assumes "calm k"
  shows "cnt = length (children s) \<Longrightarrow> distinct (children s) \<Longrightarrow> \<not> stopped s \<Longrightarrow> \<exists>s' ps. wait_loop k cnt p cur s
     = Some (if p \<in> set (children s) then Some (outcome k p) else cur, s')
   \<and> children s' = [] \<and> pids s' = pids s - set (children s) \<and> mset ps = mset (children s)
   \<and> events s' = events s @ map (log_of k) ps
   \<and> forks s' = forks s \<and> pipes s' = pipes s \<and> fdpipe s' = fdpipe s \<and> \<not> stopped s'"
proof (induction cnt arbitrary: s cur)
  case 0
  then show ?case by simp
next
  case (Suc cnt)
  then have ne: "children s \<noteq> []" by auto
  obtain q where q: "q \<in> set (children s)" "wait_child k s = Some (q, outcome k q,
      s\<lparr>children := remove1 q (children s), waits := Suc (waits s)\<rparr>)"
    using wait_child_step [OF ne] by blast
  let ?s = "log q (outcome k q) (s\<lparr>children := remove1 q (children s), waits := Suc (waits s)\<rparr>)"
  let ?t = "?s\<lparr>pids := pids ?s - {q}\<rparr>" and ?cur = "if q = p then Some (outcome k q) else cur"
  have t: "children ?t = remove1 q (children s)" "pids ?t = pids s - {q}" "events ?t = events s @ [log_of k q]"
      "forks ?t = forks s" "pipes ?t = pipes s" "fdpipe ?t = fdpipe s" "stopped ?t = stopped s"
    by (simp_all add: log_of_def)
  have "cnt = length (children ?t)" "distinct (children ?t)" "\<not> stopped ?t"
    using Suc.prems q(1) t by (simp_all add: length_remove1)
  from Suc.IH [OF this, of ?cur] obtain s' ps where
    s': "wait_loop k cnt p ?cur ?t = Some (if p \<in> set (children ?t) then Some (outcome k p) else ?cur, s')"
    "children s' = []" "pids s' = pids ?t - set (children ?t)" "mset ps = mset (children ?t)"
    "events s' = events ?t @ map (log_of k) ps"
    "forks s' = forks ?t" "pipes s' = pipes ?t" "fdpipe s' = fdpipe ?t" "\<not> stopped s'" by blast
  have st: "set (children ?t) = set (children s) - {q}" using t(1) Suc.prems(2) by simp
  have e: "exit_code s = None" using Suc.prems(3) by (simp add: stopped_def)
  have "wait_loop k (Suc cnt) p cur s = wait_loop k cnt p ?cur ?t"
    using q(2) e assms by (simp add: wait_loop.simps(2) Let_def)
  also have "\<dots> = Some (if p \<in> set (children s) then Some (outcome k p) else cur, s')"
    using s'(1) st q(1) by auto
  finally have w: "wait_loop k (Suc cnt) p cur s
      = Some (if p \<in> set (children s) then Some (outcome k p) else cur, s')" .
  have "pids s' = pids s - set (children s)" using s'(3) st t(2) q(1) by auto
  moreover have "mset (q # ps) = mset (children s)" using s'(4) t(1) q(1) by simp
  moreover have "events s' = events s @ map (log_of k) (q # ps)" using s'(5) t(3) by simp
  ultimately show ?case using w s'(2,6-9) t(4-6) by metis
qed

section \<open>The meaning of a command line\<close>

fun pairs :: "Entity list \<Rightarrow> (Comand \<times> string) list" where
  "pairs [] = []"
| "pairs [Cmd c] = [(c, [])]"
| "pairs (Cmd c # Delim d # es) = (c, d) # pairs es"
| "pairs _ = []"

text \<open>
  The commands to start. A group of commands ends at \<open>||\<close>, \<open>&&\<close> or \<open>;\<close> and is started as a
  whole or skipped as a whole; its status is that of its last command, and the n-th process
  ends with \<open>st n\<close>.
\<close>

definition succeeded :: "wstatus \<Rightarrow> bool" where
  "succeeded st = (case st of Exited n \<Rightarrow> n mod 256 = 0 | Signaled _ \<Rightarrow> False)"

definition lazy_skip :: "string \<Rightarrow> wstatus option \<Rightarrow> bool" where
  "lazy_skip d cur = (case cur of None \<Rightarrow> False
     | Some st \<Rightarrow> if d = ''||'' then succeeded st else d = ''&&'' \<and> \<not> succeeded st)"

definition joins :: "string \<Rightarrow> bool" where
  "joins d \<longleftrightarrow> d = ''|'' \<or> d = ''&''"

fun script :: "(pid \<Rightarrow> wstatus) \<Rightarrow> bool \<Rightarrow> pid \<Rightarrow> wstatus option \<Rightarrow> (Comand \<times> string) list \<Rightarrow> string list list" where
  "script st skip n cur [] = []"
| "script st skip n cur ((c, d) # ps) =
     (let n' = (if skip then n else Suc n);
          cur' = (if skip then cur else Some (st n))
      in (if skip then [] else [params c])
         @ (if joins d then script st skip n' cur ps else script st (lazy_skip d cur') n' cur' ps))"

text \<open>
  What the loop relies on: pipes are connected on both ends, the line does not end inside a
  group, and the group after a lazy operator is a single command.
\<close>

fun runnable :: "string \<Rightarrow> Entity list \<Rightarrow> bool" where
  "runnable op [] \<longleftrightarrow> op \<noteq> ''|'' \<and> op \<noteq> ''&''"
| "runnable op [Cmd c] \<longleftrightarrow> infile c = ''pipe'' \<longrightarrow> op = ''|''"
| "runnable op (Cmd c # Delim d # es) \<longleftrightarrow> (infile c = ''pipe'' \<longrightarrow> op = ''|'') \<and> d \<in> delims
     \<and> (d = ''|'' \<longrightarrow> outfile c = ''pipe'') \<and> (op = ''||'' \<or> op = ''&&'' \<longrightarrow> \<not> joins d) \<and> runnable d es"
| "runnable op _ \<longleftrightarrow> False"

lemma forward_ok:
  assumes "infile c = ''pipe'' \<longrightarrow> fdpipe s \<noteq> Uninit"
  shows "\<exists>t. forward_input k c s = Some t \<and> children t = children s \<and> pids t = pids s
     \<and> forks t = forks s \<and> started t = started s \<and> stopped t = stopped s"
proof (cases "infile c = ''pipe''")
  case True
  with assms show ?thesis by (cases "fdpipe s") (auto simp: forward_input_def started_def)
next
  case False
  then show ?thesis by (auto simp: forward_input_def started_def)
qed

lemma forward_output_simps [simp]:
  "children (forward_output k c s) = children s" "pids (forward_output k c s) = pids s"
  "forks (forward_output k c s) = forks s" "events (forward_output k c s) = events s"
  "waits (forward_output k c s) = waits s" "stopped (forward_output k c s) = stopped s" "started (forward_output k c s) = started s"
  "outfile c = ''pipe'' \<Longrightarrow> fdpipe (forward_output k c s) = Open (pipes s)"
  by (auto simp: forward_output_def started_def)

lemma start_process_simps [simp]:
  "children (start_process c s) = children s @ [forks s]" "forks (start_process c s) = Suc (forks s)"
  "pids (start_process c s) = insert (forks s) (pids s)" "stopped (start_process c s) = stopped s"
  "started (start_process c s) = started s @ [params c]" "fdpipe (start_process c s) = fdpipe s"
  by (simp_all add: start_process_def started_def stopped_def)

lemma skips_Some:
  "(d = ''||'' \<or> d = ''&&'' \<longrightarrow> cur \<noteq> None) \<Longrightarrow> skips d cur = Some (lazy_skip d cur)"
  "lazy_skip d cur \<Longrightarrow> d = ''||'' \<or> d = ''&&''"
  by (auto simp: skips_def lazy_skip_def succeeded_def WIFEXITED_def WEXITSTATUS_def
      split: if_splits option.splits wstatus.splits)

text \<open>The step of the loop that starts a command.\<close>

lemma start_step:
  assumes "infile c = ''pipe'' \<longrightarrow> fdpipe s \<noteq> Uninit" "d = ''|'' \<longrightarrow> outfile c = ''pipe''"
  obtains r t where "forward_input k c (s\<lparr>fd_in := Terminal, fd_out := Terminal\<rparr>) = Some r"
    "start_process c (forward_output k c r) = t" "forks r = forks s"
    "children t = children s @ [forks s]" "forks t = Suc (forks s)" "pids t = insert (forks s) (pids s)"
    "started t = started s @ [params c]" "d = ''|'' \<longrightarrow> fdpipe t \<noteq> Uninit" "stopped t = stopped s"
proof -
  let ?s = "s\<lparr>fd_in := Terminal, fd_out := Terminal\<rparr>"
  have "infile c = ''pipe'' \<longrightarrow> fdpipe ?s \<noteq> Uninit" using assms(1) by simp
  from forward_ok [OF this] obtain r where r: "forward_input k c ?s = Some r"
      "children r = children ?s" "pids r = pids ?s" "forks r = forks ?s" "started r = started ?s"
      "stopped r = stopped ?s" by blast
  have "started ?s = started s" by (simp add: started_def)
  then show ?thesis using that [OF r(1) refl] r assms(2) by simp
qed

text \<open>Between two entities: no child is left at the start of a group.\<close>

definition between :: "string \<Rightarrow> wstatus option \<Rightarrow> nat \<Rightarrow> Shell \<Rightarrow> bool" where
  "between op cur cnt s \<longleftrightarrow> \<not> stopped s \<and> cnt = length (children s) \<and> distinct (children s)
     \<and> set (children s) \<subseteq> {..<forks s}
     \<and> (op = ''|'' \<longrightarrow> fdpipe s \<noteq> Uninit)
     \<and> (op = ''||'' \<or> op = ''&&'' \<longrightarrow> cur \<noteq> None)
     \<and> (op \<noteq> ''|'' \<and> op \<noteq> ''&'' \<longrightarrow> children s = [])"

lemma end_group:
  assumes "calm k" "\<not> stopped t" "set (children s) \<subseteq> {..<forks s}" "distinct (children s)"
    "children t = children s @ [forks s]" "forks t = Suc (forks s)"
  obtains u ps where "wait_loop k (Suc (length (children s))) (forks s) cur t = Some (Some (outcome k (forks s)), u)"
    "children u = []" "forks u = Suc (forks s)" "started u = started t" "pids u = pids t - set (children t)"
    "mset ps = mset (children t)" "events u = events t @ map (log_of k) ps" "\<not> stopped u"
proof -
  have "distinct (children t)" "Suc (length (children s)) = length (children t)" "forks s \<in> set (children t)"
    using assms by auto
  then show ?thesis using wait_loop_all [of k "Suc (length (children s))" t "forks s" cur] assms(1,2,6) that
    by (auto simp: started_def)
qed

lemma run_loop_script:
  assumes "calm k" "runnable op es" "between op cur cnt s"
  shows "\<exists>s'. run_loop k (pre @ es) (length pre) op cur cnt s = Some s' \<and> children s' = [] \<and> \<not> stopped s'
    \<and> started s' = started s @ script (outcome k) (lazy_skip op cur) (forks s) cur (pairs es)"
  using assms(2,3)
proof (induction es arbitrary: op cur cnt s pre rule: pairs.induct)
  case 1
  then show ?case by (subst run_loop.simps) (simp add: between_def)
next
  case (2 c)
  note B = 2(2) [unfolded between_def]
  have "op = ''||'' \<or> op = ''&&'' \<longrightarrow> cur \<noteq> None" using B by simp
  then have sk: "skips op cur = Some (lazy_skip op cur)" by (rule skips_Some(1))
  show ?case
  proof (cases "lazy_skip op cur")
    case True
    then have "children s = []" using skips_Some(2) B by auto
    then show ?thesis using True sk assms(1) B by (subst run_loop.simps) (simp add: Let_def)
  next
    case False
    have "infile c = ''pipe'' \<longrightarrow> fdpipe s \<noteq> Uninit" using B 2(1) by auto
    then obtain v t where t: "forward_input k c (s\<lparr>fd_in := Terminal, fd_out := Terminal\<rparr>) = Some v"
      "start_process c (forward_output k c v) = t" "forks v = forks s"
      "children t = children s @ [forks s]" "forks t = Suc (forks s)" "started t = started s @ [params c]"
      "stopped t = stopped s" by (rule start_step [where d = "[]" and k = k]) auto
    have d: "\<not> stopped t" "set (children s) \<subseteq> {..<forks s}" "distinct (children s)" and ns: "\<not> stopped s"
      using B t(7) by simp_all
    obtain u where u: "wait_loop k (Suc (length (children s))) (forks s) cur t = Some (Some (outcome k (forks s)), u)"
      "children u = []" "started u = started s @ [params c]" "\<not> stopped u"
      using end_group [OF assms(1) d t(4,5), of cur] unfolding t(6) by metis
    have "run_loop k (pre @ [Cmd c]) (length pre) op cur cnt s
        = (do { (c, s) \<leftarrow> wait_loop k (Suc cnt) (forks s) cur t; Some s })"
      using False sk assms(1) t(1-3) ns by (subst run_loop.simps) (simp add: as_comand_def Let_def)
    also have "\<dots> = Some u" using u(1) B by simp
    finally show ?thesis using u False by (simp add: Let_def)
  qed
next
  case (3 c d es)
  note B = 3(3) [unfolded between_def]
  have r: "runnable d es" "d \<in> delims" "d = ''|'' \<longrightarrow> outfile c = ''pipe''"
    "infile c = ''pipe'' \<longrightarrow> op = ''|''" "op = ''||'' \<or> op = ''&&'' \<longrightarrow> \<not> joins d"
    using 3(2) by auto
  have "op = ''||'' \<or> op = ''&&'' \<longrightarrow> cur \<noteq> None" using B by simp
  then have sk: "skips op cur = Some (lazy_skip op cur)" by (rule skips_Some(1))
  have eg: "ends_group d \<longleftrightarrow> d \<noteq> ''|'' \<and> d \<noteq> ''&''" using r(2) by (auto simp: delims_def ends_group_def)
  have jn: "joins d \<longleftrightarrow> \<not> ends_group d" using eg by (auto simp: joins_def)
  let ?p = "pre @ Cmd c # Delim d # es" and ?q = "pre @ [Cmd c, Delim d]"
  have nth: "?p ! length pre = Cmd c" "?p ! Suc (length pre) = Delim d" "length pre < length ?p" "Suc (length pre) < length ?p"
    by (simp_all add: nth_append)
  have q: "?p = ?q @ es" "Suc (Suc (length pre)) = length ?q" by simp_all
  show ?case
  proof (cases "lazy_skip op cur")
    case True
    then have o: "op = ''||'' \<or> op = ''&&''" "ends_group d" "children s = []" using skips_Some(2) B r(5) jn by auto
    then have "cur \<noteq> None" using B by blast
    then have "between d cur cnt s" using B o eg by (auto simp: between_def)
    from 3(1) [OF r(1) this, of ?q] obtain s' where s':
      "run_loop k ?p (Suc (Suc (length pre))) d cur cnt s = Some s'" "children s' = []" "\<not> stopped s'"
      "started s' = started s @ script (outcome k) (lazy_skip d cur) (forks s) cur (pairs es)"
      unfolding q by auto
    have "run_loop k ?p (length pre) op cur cnt s = run_loop k ?p (Suc (Suc (length pre))) d cur cnt s"
      using True sk assms(1) nth B by (subst run_loop.simps) (simp add: as_delim_def)
    then show ?thesis using s' True o jn by (simp add: Let_def)
  next
    case False
    have "infile c = ''pipe'' \<longrightarrow> fdpipe s \<noteq> Uninit" using B r(4) by auto
    from start_step [OF this r(3), of k] obtain v t where
      t: "forward_input k c (s\<lparr>fd_in := Terminal, fd_out := Terminal\<rparr>) = Some v"
      "start_process c (forward_output k c v) = t" "forks v = forks s"
      "children t = children s @ [forks s]" "forks t = Suc (forks s)" "pids t = insert (forks s) (pids s)"
      "started t = started s @ [params c]" "d = ''|'' \<longrightarrow> fdpipe t \<noteq> Uninit" "stopped t = stopped s" by blast
    have ns: "\<not> stopped s" "\<not> stopped t" using B t(9) by simp_all
    let ?f = "\<lambda>p s. if ends_group d then do {
        (cur, s) \<leftarrow> wait_loop k (Suc cnt) p cur s; run_loop k ?p (Suc (Suc (length pre))) d cur 0 s
      } else run_loop k ?p (Suc (Suc (length pre))) d cur (Suc cnt) s"
    have step: "run_loop k ?p (length pre) op cur cnt s = ?f (forks s) t"
      using False sk assms(1) nth t(1-3) ns(1)
      by (subst run_loop.simps) (simp add: as_comand_def as_delim_def Let_def)
    show ?thesis
    proof (cases "ends_group d")
      case True
      have d: "set (children s) \<subseteq> {..<forks s}" "distinct (children s)" "cnt = length (children s)"
        using B by simp_all
      obtain u where u: "wait_loop k (Suc cnt) (forks s) cur t = Some (Some (outcome k (forks s)), u)"
        "children u = []" "started u = started t" "forks u = Suc (forks s)" "\<not> stopped u"
        using end_group [OF assms(1) ns(2) d(1,2) t(4,5), of cur] unfolding d(3) by metis
      have nd: "d \<noteq> ''|'' \<and> d \<noteq> ''&''" using eg True by blast
      have "between d (Some (outcome k (forks s))) 0 u" using u(2,5) nd by (simp add: between_def)
      from 3(1) [OF r(1) this, of ?q] obtain s' where s':
        "run_loop k ?p (Suc (Suc (length pre))) d (Some (outcome k (forks s))) 0 u = Some s'" "children s' = []" "\<not> stopped s'"
        "started s' = started u @ script (outcome k) (lazy_skip d (Some (outcome k (forks s)))) (forks u)
           (Some (outcome k (forks s))) (pairs es)"
        unfolding q by auto
      have "?f (forks s) t = Some s'" using True u(1) s'(1) by simp
      then show ?thesis using step s'(2-4) True False u(3,4) t(7) jn by (simp add: Let_def)
    next
      case no: False
      have d: "set (children s) \<subseteq> {..<forks s}" "distinct (children s)" "cnt = length (children s)"
        using B by simp_all
      have m: "d = ''|'' \<or> d = ''&''" using no eg by blast
      have ct: "set (children t) \<subseteq> {..<forks t}" "distinct (children t)" "Suc cnt = length (children t)"
        using d unfolding t(4,5) by auto
      have "between d cur (Suc cnt) t" unfolding between_def using ct m t(8) ns(2) by auto
      from 3(1) [OF r(1) this, of ?q] obtain s' where s':
        "run_loop k ?p (Suc (Suc (length pre))) d cur (Suc cnt) t = Some s'" "children s' = []" "\<not> stopped s'"
        "started s' = started t @ script (outcome k) (lazy_skip d cur) (forks t) cur (pairs es)"
        unfolding q by auto
      have l: "\<not> lazy_skip d cur" using skips_Some(2) no by (auto simp: ends_group_def)
      then show ?thesis using step s' no False t jn by (simp add: Let_def)
    qed
  qed
qed auto

section \<open>What the shell promises\<close>

lemma run_script:
  assumes "calm k" "\<not> stopped s" "runnable [] cmds" "children s = []"
  shows "\<exists>s'. run k cmds s = Some s' \<and> children s' = [] \<and> \<not> stopped s'
    \<and> started s' = started s @ script (outcome k) False (forks s) None (pairs cmds)"
proof -
  have b: "between [] None 0 (s\<lparr>fdpipe := Uninit\<rparr>)" using assms(2,4) by (simp add: between_def)
  have l: "\<not> lazy_skip [] None" by (simp add: lazy_skip_def)
  show ?thesis using run_loop_script [OF assms(1,3) b, of "[]"] l by (simp add: run_def started_def)
qed

text \<open>Property C4.
  Running a line starts exactly the processes that its meaning gives: groups joined by \<open>|\<close> and
  \<open>&\<close> are run as a whole, \<open>||\<close> and \<open>&&\<close> skip the next command by the status of the last
  command that ran, \<open>;\<close> runs on. The run returns for every order in which the kernel reports
  the children and leaves none of them unwaited.
\<close>

theorem run_follows_script:
  assumes "calm k" "\<not> stopped s" "runnable [] cmds" "children s = []"
  shows "\<exists>s'. run k cmds s = Some s' \<and> children s' = []
    \<and> started s' = started s @ script (outcome k) False (forks s) None (pairs cmds)"
  using run_script [OF assms] by blast

definition cmd0 :: "string \<Rightarrow> Comand" where
  "cmd0 w = \<lparr>params = [w], infile = [], outfile = []\<rparr>"

definition shell0 :: Shell where
  "shell0 = \<lparr>fd_in = Terminal, fd_out = Terminal, fdpipe = Uninit, pids = {}, children = [],
     forks = 0, pipes = 0, waits = 0, events = [],
     active_process = True, is_main = True, is_shell = True, exit_code = None, lines_read = 0\<rparr>"

definition kernel0 :: kernel where
  "kernel0 = \<lparr>opens = (\<lambda>_. True), outcome = (\<lambda>p. Exited (if p = 0 then 1 else 0)), pick = (\<lambda>n. n), sigint = (\<lambda>_. False)\<rparr>"

theorem run_follows_script_witness:
  "\<exists>s'. run kernel0 [Cmd (cmd0 ''a''), Delim ''&&'', Cmd (cmd0 ''b''), Delim ''||'', Cmd (cmd0 ''c''), Delim '';'', Cmd (cmd0 ''d'')]
     shell0 = Some s' \<and> children s' = [] \<and> started s' = [[''a''], [''c''], [''d'']]"
  using run_follows_script [of kernel0 shell0 "[Cmd (cmd0 ''a''), Delim ''&&'', Cmd (cmd0 ''b''), Delim ''||'', Cmd (cmd0 ''c''), Delim '';'', Cmd (cmd0 ''d'')]"]
  by (simp add: calm_def stopped_def kernel0_def shell0_def cmd0_def delims_def joins_def lazy_skip_def succeeded_def
      Let_def started_def)

text \<open>Property C35.
  When a pipeline that follows \<open>&&\<close> has to be skipped, the code skips its first command only and
  goes on with the second, whose input is a pipe that was never made: \<open>fdpipe\<close> is read uninitialised.
\<close>

theorem skipped_pipeline_undefined:
  assumes "calm k" "\<not> stopped s" "children s = []" "infile a \<noteq> ''pipe''"
    "\<not> WIFEXITED (outcome k (forks s)) \<or> WEXITSTATUS (outcome k (forks s)) \<noteq> 0" "outfile a \<noteq> ''pipe''"
  shows "run k (connect [Cmd a, Delim ''&&'', Cmd b, Delim ''|'', Cmd c]) s = None"
proof -
  let ?b = "b\<lparr>outfile := ''pipe''\<rparr>" and ?c = "c\<lparr>infile := ''pipe''\<rparr>"
  let ?es = "[Cmd a, Delim ''&&'', Cmd ?b, Delim ''|'', Cmd ?c]"
  have w: "connect [Cmd a, Delim ''&&'', Cmd b, Delim ''|'', Cmd c] = ?es"
    by (simp add: connect_def upt_rec piped_entity_def piped_in_def piped_out_def)
  let ?s = "s\<lparr>fdpipe := Uninit\<rparr>"
  obtain v t where t: "forward_input k a (?s\<lparr>fd_in := Terminal, fd_out := Terminal\<rparr>) = Some v"
    "start_process a (forward_output k a v) = t" "forks v = forks s" "children t = [forks s]" "forks t = Suc (forks s)" "\<not> stopped t"
    using assms(2,3) by (rule_tac start_step [of a ?s "[]" k]) (simp_all add: assms(4))
  have f: "fdpipe t = Uninit" using t(1,2) assms(4,6)
    by (auto simp: forward_input_def forward_output_def split: if_splits)
  obtain u ps where u: "wait_loop k (Suc 0) (forks s) None t = Some (Some (outcome k (forks s)), u)" "fdpipe u = Uninit" "\<not> stopped u"
    using wait_loop_all [OF assms(1), of "Suc 0" t "forks s" None] t(4,6) f by auto
  have "run_loop k ?es (Suc (Suc (Suc (Suc 0)))) ''|'' (Some (outcome k (forks s))) 0 u = None"
    using assms(1) u(2,3) by (subst run_loop.simps) (simp add: skips_def as_comand_def forward_input_def)
  then have "run_loop k ?es (Suc (Suc 0)) ''&&'' (Some (outcome k (forks s))) 0 u = None"
    using assms(1,5) u(3) by (subst run_loop.simps) (auto simp: skips_def as_delim_def)
  then show ?thesis unfolding run_def w using assms(1,2) t(1-3) u(1)
    by (subst run_loop.simps) (simp add: skips_def as_comand_def as_delim_def Let_def ends_group_def)
qed

theorem skipped_pipeline_undefined_witness:
  "run kernel0 (connect [Cmd (cmd0 ''false''), Delim ''&&'', Cmd (cmd0 ''b''), Delim ''|'', Cmd (cmd0 ''c'')]) shell0 = None"
  using skipped_pipeline_undefined [of kernel0 shell0 "cmd0 ''false''"]
  by (simp add: calm_def stopped_def kernel0_def shell0_def cmd0_def WIFEXITED_def WEXITSTATUS_def)

text \<open>Without signals a background line runs as a foreground line does, and its exit status is always 0.\<close>

lemma background_runs:
  assumes "calm k" "\<not> stopped s" "runnable [] cmds"
  shows "\<exists>s'. background k cmds s = Some (0, s') \<and> children s' = []
    \<and> started s' = started s @ script (outcome k) False (forks s) None (pairs cmds)"
proof -
  let ?s = "s\<lparr>children := [], is_shell := False, is_main := True\<rparr>"
  have ns: "\<not> stopped ?s" "exit_code s = None" using assms(2) by (simp_all add: stopped_def)
  then obtain s' where s': "run k cmds ?s = Some s'" "children s' = []" "\<not> stopped s'"
    "started s' = started s @ script (outcome k) False (forks s) None (pairs cmds)"
    using run_script [OF assms(1) ns(1) assms(3)] by (auto simp: started_def)
  then show ?thesis using ns(2) assms(1) by (simp add: background_def Let_def stopped_def)
qed

section \<open>From the text to the processes\<close>

text \<open>\<open>connect\<close> by structural recursion, with the delimiter before the list.\<close>

definition before_bar :: "Entity list \<Rightarrow> bool" where
  "before_bar es = (case es of Delim d # _ \<Rightarrow> d = ''|'' | _ \<Rightarrow> False)"

fun wire :: "string \<Rightarrow> Entity list \<Rightarrow> Entity list" where
  "wire op [] = []"
| "wire op (Cmd c # es) = Cmd (c\<lparr>infile := if op = ''|'' then ''pipe'' else infile c,
     outfile := if before_bar es then ''pipe'' else outfile c\<rparr>) # wire op es"
| "wire op (Delim d # es) = Delim d # wire d es"

fun linear :: "Entity list \<Rightarrow> bool" where
  "linear [] \<longleftrightarrow> True"
| "linear [Cmd c] \<longleftrightarrow> True"
| "linear (Cmd c # Delim d # es) \<longleftrightarrow> linear es"
| "linear _ \<longleftrightarrow> False"

definition wired_at :: "string \<Rightarrow> Entity list \<Rightarrow> nat \<Rightarrow> Entity" where
  "wired_at op es i = (case es ! i of
     Cmd c \<Rightarrow> Cmd (c\<lparr>infile := if (if i = 0 then op = ''|'' else es ! (i - 1) = Delim ''|'') then ''pipe'' else infile c,
                     outfile := if piped_out es i then ''pipe'' else outfile c\<rparr>)
   | Delim d \<Rightarrow> Delim d)"

lemma wired_at_later: "wired_at op (Cmd c # Delim d # es) (Suc (Suc i)) = wired_at d es i"
  by (cases i) (auto simp: wired_at_def piped_out_def split: Entity.splits)

lemma map_upt_two: "map f [0..<Suc (Suc n)] = f 0 # f (Suc 0) # map (\<lambda>i. f (Suc (Suc i))) [0..<n]"
proof (rule nth_equalityI)
  fix i assume "i < length (map f [0..<Suc (Suc n)])"
  then have "i < Suc (Suc n)" by simp
  then have "[0..<Suc (Suc n)] ! i = i" by (simp del: upt_Suc)
  then show "map f [0..<Suc (Suc n)] ! i = (f 0 # f (Suc 0) # map (\<lambda>i. f (Suc (Suc i))) [0..<n]) ! i"
    using \<open>i < Suc (Suc n)\<close> by (simp add: nth_Cons del: upt_Suc split: nat.split)
qed simp

lemma wire_map: "linear es \<Longrightarrow> wire op es = map (wired_at op es) [0..<length es]"
proof (induction es arbitrary: op rule: linear.induct)
  case (2 c)
  then show ?case by (simp add: wired_at_def before_bar_def piped_out_def)
next
  case (3 c d es)
  have "wire op (Cmd c # Delim d # es)
      = wired_at op (Cmd c # Delim d # es) 0 # wired_at op (Cmd c # Delim d # es) (Suc 0) # wire d es"
    by (simp add: wired_at_def before_bar_def piped_out_def)
  also have "wire d es = map (\<lambda>i. wired_at op (Cmd c # Delim d # es) (Suc (Suc i))) [0..<length es]"
    using 3 by (simp add: wired_at_later)
  finally show ?case by (simp only: map_upt_two list.size add_0_right add_Suc_right)
qed auto

lemma connect_wire:
  assumes "linear es" shows "connect es = wire [] es"
  unfolding wire_map [OF assms] connect_def
  by (rule map_cong) (auto simp: wired_at_def piped_entity_def piped_in_def split: Entity.splits)

text \<open>
  Conditions on a written line under which it is run as it reads: no redirection to a file named
  \<open>pipe\<close>, no \<open>|\<close> or \<open>&\<close> at the end, and single commands after \<open>||\<close> and \<open>&&\<close>.
\<close>

fun plain :: "string \<Rightarrow> Entity list \<Rightarrow> bool" where
  "plain op [] \<longleftrightarrow> op \<noteq> ''|'' \<and> op \<noteq> ''&''"
| "plain op [Cmd c] \<longleftrightarrow> infile c \<noteq> ''pipe''"
| "plain op (Cmd c # Delim d # es) \<longleftrightarrow> infile c \<noteq> ''pipe'' \<and> (op = ''||'' \<or> op = ''&&'' \<longrightarrow> \<not> joins d) \<and> plain d es"
| "plain op _ \<longleftrightarrow> False"

lemma alternates_linear: "alternates es \<Longrightarrow> linear es"
  by (induction es rule: alternates.induct) auto

lemma wire_runnable: "alternates es \<Longrightarrow> plain op es \<Longrightarrow> runnable op (wire op es)"
  by (induction es arbitrary: op rule: alternates.induct) (auto simp: before_bar_def)

text \<open>The meaning of a line depends on the words and the delimiters only.\<close>

lemma script_wire: "linear es \<Longrightarrow> script st sk n cur (pairs (wire op es)) = script st sk n cur (pairs es)"
  by (induction es arbitrary: op sk n cur rule: linear.induct) (auto simp: Let_def)

lemma plain_last:
  "linear es \<Longrightarrow> plain op es \<Longrightarrow> es = [] \<or> (last es \<noteq> Delim ''|'' \<and> last es \<noteq> Delim ''&'')"
proof (induction es arbitrary: op rule: linear.induct)
  case (3 c d es)
  then show ?case by (cases es) auto
qed auto

text \<open>Property C12.
  From the text to the processes: a written line without background sign starts exactly the
  processes that its meaning gives, in order, and the shell is back at its prompt with no child left.
\<close>

theorem line_runs:
  assumes "calm k" "exit_code s = None" "alternates es" "plain [] es" "children s = []"
  shows "\<exists>s'. main_turn k [] (written es) s = Some s' \<and> children s' = []
    \<and> started s' = started s @ script (outcome k) False (forks s) None (pairs es)"
proof -
  have l: "linear es" using assms(3) by (rule alternates_linear)
  have e: "es = [] \<or> (last es \<noteq> Delim ''|'' \<and> last es \<noteq> Delim ''&'')" by (rule plain_last [OF l assms(4)])
  then have p: "parse (written es) = Some (connect es, False)" using parse_written [OF assms(3)] by auto
  have r: "runnable [] (connect es)" unfolding connect_wire [OF l] by (rule wire_runnable [OF assms(3,4)])
  let ?s = "s\<lparr>fd_in := Terminal, active_process := True, pids := {}, lines_read := Suc (lines_read s)\<rparr>"
  have "\<not> stopped ?s" "children ?s = []" using assms(2,5) by (simp_all add: stopped_def)
  from run_script [OF assms(1) this(1) r this(2)] obtain s' where s': "run k (connect es) ?s = Some s'"
    "children s' = []" "started s' = started s @ script (outcome k) False (forks s) None (pairs es)"
    by (auto simp: started_def connect_wire [OF l] script_wire [OF l])
  have "main_turn k [] (written es) s = Some s'" using p s'(1) assms(1) by (simp add: main_turn_def)
  then show ?thesis using s'(2,3) by blast
qed

theorem line_runs_witness:
  "\<exists>s'. main_turn kernel0 [] '' make -j|| echo failed; ls| wc'' shell0 = Some s' \<and> children s' = []
    \<and> started s' = [[''make'', ''-j''], [''echo'', ''failed''], [''ls''], [''wc'']]"
  using line_runs [of kernel0 shell0 "[Cmd \<lparr>params = [''make'', ''-j''], infile = [], outfile = []\<rparr>, Delim ''||'',
      Cmd \<lparr>params = [''echo'', ''failed''], infile = [], outfile = []\<rparr>, Delim '';'',
      Cmd (cmd0 ''ls''), Delim ''|'', Cmd (cmd0 ''wc'')]"]
  by (simp add: calm_def stopped_def kernel0_def shell0_def cmd0_def delims_def joins_def lazy_skip_def succeeded_def
      Let_def started_def comand_ok_def safe_def wsdelim_def symcmds_def words_of_def)

section \<open>Pipelines\<close>

fun pipeline :: "Comand list \<Rightarrow> Entity list" where
  "pipeline [] = []"
| "pipeline [c] = [Cmd c]"
| "pipeline (c # c' # cs) = Cmd c # Delim ''|'' # pipeline (c' # cs)"

text \<open>Where a command reads and writes by its own redirections.\<close>

definition source :: "kernel \<Rightarrow> Comand \<Rightarrow> channel" where
  "source k c = (if infile c \<noteq> [] \<and> opens k (infile c) then File (infile c) else Terminal)"

definition target :: "kernel \<Rightarrow> Comand \<Rightarrow> channel" where
  "target k c = (if outfile c \<noteq> [] \<and> opens k (outfile c) then File (outfile c) else Terminal)"

text \<open>
  The processes of a pipeline: number n is the first, it reads from \<open>src\<close>, and pipe p is the
  first new one; each pipe is written by a process and read by the next one.
\<close>

fun connected :: "kernel \<Rightarrow> channel \<Rightarrow> pid \<Rightarrow> nat \<Rightarrow> Comand list \<Rightarrow> event list" where
  "connected k src n p [] = []"
| "connected k src n p [c] = [Start n (params c) src (target k c)]"
| "connected k src n p (c # c' # cs) =
     Start n (params c) src (PipeW p) # connected k (PipeR p) (Suc n) (Suc p) (c' # cs)"

definition reads_from :: "kernel \<Rightarrow> string \<Rightarrow> Shell \<Rightarrow> Comand \<Rightarrow> channel \<Rightarrow> bool" where
  "reads_from k op s c src \<longleftrightarrow>
     (if op = ''|'' then \<exists>q. fdpipe s = Open q \<and> src = PipeR q else infile c \<noteq> ''pipe'' \<and> src = source k c)"

text \<open>What the start of a process leaves alone.\<close>

definition kept :: "Shell \<Rightarrow> Shell \<Rightarrow> bool" where
  "kept s t \<longleftrightarrow> stopped t = stopped s \<and> waits t = waits s \<and> is_shell t = is_shell s \<and> is_main t = is_main s"

lemma pipeline_start:
  assumes "reads_from k op s c src" "fin \<Longrightarrow> outfile c \<noteq> ''pipe''"
  shows "\<exists>r t. forward_input k (c\<lparr>infile := if op = ''|'' then ''pipe'' else infile c,
        outfile := if fin then outfile c else ''pipe''\<rparr>) (s\<lparr>fd_in := Terminal, fd_out := Terminal\<rparr>) = Some r
    \<and> start_process (c\<lparr>infile := if op = ''|'' then ''pipe'' else infile c,
        outfile := if fin then outfile c else ''pipe''\<rparr>)
       (forward_output k (c\<lparr>infile := if op = ''|'' then ''pipe'' else infile c,
        outfile := if fin then outfile c else ''pipe''\<rparr>) r) = t
    \<and> forks r = forks s \<and> children t = children s @ [forks s] \<and> forks t = Suc (forks s)
    \<and> events t = events s @ [Start (forks s) (params c) src (if fin then target k c else PipeW (pipes s))]
    \<and> (\<not> fin \<longrightarrow> fdpipe t = Open (pipes s) \<and> pipes t = Suc (pipes s))
    \<and> pids t = insert (forks s) (pids s) \<and> kept s t"
  using assms
  by (cases "op = ''|''"; cases fin)
    (auto simp: reads_from_def source_def target_def forward_input_def forward_output_def start_process_def
      kept_def stopped_def)

lemma pipeline_length [simp]: "length (pipeline (c # cs)) = Suc (2 * length cs)"
  by (induction cs arbitrary: c) auto

lemma wire_length [simp]: "length (wire op es) = length es"
  by (induction op es rule: wire.induct) auto

text \<open>
  A pipeline at the end of a line, or before a delimiter that ends its group: the loop reaches the
  wait in a state with all its processes running. Signals may arrive in waits, not in the loop.
\<close>

fun goes_on :: "kernel \<Rightarrow> Entity list \<Rightarrow> nat \<Rightarrow> Entity list \<Rightarrow> wstatus option \<Rightarrow> Shell \<Rightarrow> Shell option" where
  "goes_on k cmds it (Delim d # es) cur s = run_loop k cmds it d cur 0 s"
| "goes_on k cmds it es cur s = Some s"

definition group_tail :: "Entity list \<Rightarrow> bool" where
  "group_tail es \<longleftrightarrow> es = [] \<or> (\<exists>d ds. es = Delim d # ds \<and> ends_group d)"

lemma run_loop_pipeline:
  assumes "\<forall>l i. \<not> sigint k (Looping l i)" "group_tail es" "outfile (last (c # cs)) \<noteq> ''pipe''"
    "reads_from k op s c src" "op = [] \<or> op = ''|''" "\<not> stopped s"
  shows "\<exists>t. run_loop k (pre @ wire op (pipeline (c # cs)) @ es) (length pre) op cur cnt s
      = do { (cur, u) \<leftarrow> wait_loop k (cnt + length (c # cs)) (forks s + length cs) cur t;
             goes_on k (pre @ wire op (pipeline (c # cs)) @ es) (length pre + 2 * length (c # cs)) es cur u }
    \<and> children t = children s @ [forks s..<forks s + length (c # cs)] \<and> forks t = forks s + length (c # cs)
    \<and> events t = events s @ connected k src (forks s) (pipes s) (c # cs)
    \<and> pids t = pids s \<union> {forks s..<forks s + length (c # cs)} \<and> kept s t"
  using assms(3-6)
proof (induction cs arbitrary: c op src cnt s pre)
  case Nil
  let ?c = "c\<lparr>infile := if op = ''|'' then ''pipe'' else infile c\<rparr>"
  obtain r t where t: "forward_input k ?c (s\<lparr>fd_in := Terminal, fd_out := Terminal\<rparr>) = Some r"
    "start_process ?c (forward_output k ?c r) = t" "forks r = forks s" "children t = children s @ [forks s]"
    "forks t = Suc (forks s)" "events t = events s @ [Start (forks s) (params c) src (target k c)]"
    "pids t = insert (forks s) (pids s)" "kept s t"
    using pipeline_start [of k op s c src True] Nil(1,2) by auto
  have sk: "skips op cur = Some False" using Nil(3) by (auto simp: skips_def)
  have w: "wire op (pipeline [c]) = [Cmd ?c]" by (simp add: before_bar_def)
  have dl: "deliver k (Looping (lines_read s) (length pre)) s = s" using assms(1) by (simp add: deliver_def)
  have "run_loop k (pre @ [Cmd ?c] @ es) (length pre) op cur cnt s
      = do { (cur, u) \<leftarrow> wait_loop k (Suc cnt) (forks s) cur t;
             goes_on k (pre @ [Cmd ?c] @ es) (Suc (Suc (length pre))) es cur u }"
    using assms(2) Nil(4) sk dl t(1-3)
    by (subst run_loop.simps)
      (auto simp: as_comand_def as_delim_def group_tail_def nth_append Let_def case_prod_unfold)
  then show ?case unfolding w using t(4-8) by (auto simp: atLeastLessThanSuc)
next
  case (Cons c' cs)
  let ?c = "c\<lparr>infile := if op = ''|'' then ''pipe'' else infile c, outfile := ''pipe''\<rparr>"
  obtain r t where t: "forward_input k ?c (s\<lparr>fd_in := Terminal, fd_out := Terminal\<rparr>) = Some r"
    "start_process ?c (forward_output k ?c r) = t" "forks r = forks s" "children t = children s @ [forks s]"
    "forks t = Suc (forks s)" "events t = events s @ [Start (forks s) (params c) src (PipeW (pipes s))]"
    "fdpipe t = Open (pipes s)" "pipes t = Suc (pipes s)" "pids t = insert (forks s) (pids s)" "kept s t"
    using pipeline_start [of k op s c src False] Cons(3) by auto
  have sk: "skips op cur = Some False" using Cons(4) by (auto simp: skips_def)
  have dl: "deliver k (Looping (lines_read s) (length pre)) s = s" using assms(1) by (simp add: deliver_def)
  let ?w = "wire ''|'' (pipeline (c' # cs)) @ es" and ?q = "pre @ [Cmd ?c, Delim ''|'']"
  let ?p = "pre @ Cmd ?c # Delim ''|'' # ?w"
  have w: "pre @ wire op (pipeline (c # c' # cs)) @ es = ?p" by (simp add: before_bar_def)
  have nth: "?p ! length pre = Cmd ?c" "?p ! Suc (length pre) = Delim ''|''" by (simp_all add: nth_append)
  have step: "run_loop k ?p (length pre) op cur cnt s = run_loop k ?p (Suc (Suc (length pre))) ''|'' cur (Suc cnt) t"
    using Cons(5) sk dl t(1-3) nth
    by (subst run_loop.simps) (simp add: as_comand_def as_delim_def ends_group_def Let_def)
  have "reads_from k ''|'' t c' (PipeR (pipes s))" using t(7) by (simp add: reads_from_def)
  moreover have "outfile (last (c' # cs)) \<noteq> ''pipe''" using Cons(2) by simp
  moreover have "\<not> stopped t" using Cons(5) t(10) by (simp add: kept_def)
  ultimately obtain u where u: "run_loop k (?q @ ?w) (length ?q) ''|'' cur (Suc cnt) t
      = do { (cur, u) \<leftarrow> wait_loop k (Suc cnt + length (c' # cs)) (forks t + length cs) cur u;
             goes_on k (?q @ ?w) (length ?q + 2 * length (c' # cs)) es cur u }"
    "children u = children t @ [forks t..<forks t + length (c' # cs)]" "forks u = forks t + length (c' # cs)"
    "events u = events t @ connected k (PipeR (pipes s)) (forks t) (pipes t) (c' # cs)"
    "pids u = pids t \<union> {forks t..<forks t + length (c' # cs)}" "kept t u"
    using Cons(1) [of c' "''|''" t "PipeR (pipes s)" ?q "Suc cnt"] by blast
  have up: "[forks s..<forks s + length (c # c' # cs)] = forks s # [forks t..<forks t + length (c' # cs)]"
    unfolding t(5) by (simp add: upt_conv_Cons del: upt_Suc)
  have "{forks s..<forks s + length (c # c' # cs)} = insert (forks s) {forks t..<forks t + length (c' # cs)}"
    using t(5) by auto
  then have "pids u = pids s \<union> {forks s..<forks s + length (c # c' # cs)}" using u(5) t(9) by auto
  moreover have "kept s u" using t(10) u(6) by (simp add: kept_def)
  moreover have "children u = children s @ [forks s..<forks s + length (c # c' # cs)]"
    using u(2) t(4) unfolding up by simp
  moreover have "events u = events s @ connected k src (forks s) (pipes s) (c # c' # cs)"
    using u(4) t(5,6,8) by simp
  moreover have "run_loop k ?p (length pre) op cur cnt s
      = do { (cur, u) \<leftarrow> wait_loop k (cnt + length (c # c' # cs)) (forks s + length (c' # cs)) cur u;
             goes_on k ?p (length pre + 2 * length (c # c' # cs)) es cur u }"
    using step u(1) t(5) by simp
  ultimately show ?case unfolding w using u(3) t(5) by (intro exI [of _ u]) simp
qed

text \<open>Property C31.
  In a pipeline every process writes into a new pipe that the next one reads, the first and the
  last keep their own redirections (the terminal when a file cannot be opened), and every
  process is logged exactly once with its exit code, in the order in which the children end.
\<close>

theorem pipeline_connected:
  assumes "calm k" "\<not> stopped s" "cs \<noteq> []" "infile (hd cs) \<noteq> ''pipe''" "outfile (last cs) \<noteq> ''pipe''" "children s = []"
  shows "\<exists>s' ps. run k (connect (pipeline cs)) s = Some s' \<and> children s' = []
    \<and> events s' = events s @ connected k (source k (hd cs)) (forks s) (pipes s) cs @ map (log_of k) ps
    \<and> mset ps = mset [forks s..<forks s + length cs]"
proof -
  obtain c ds where c: "cs = c # ds" using assms(3) by (cases cs) auto
  have l: "linear (pipeline xs)" for xs by (induction xs rule: pipeline.induct) auto
  have "reads_from k [] (s\<lparr>fdpipe := Uninit\<rparr>) c (source k c)" using assms(4) c by (simp add: reads_from_def)
  moreover have "\<forall>l i. \<not> sigint k (Looping l i)" using assms(1) by (simp add: calm_def)
  ultimately obtain t where t: "run k (connect (pipeline cs)) s
      = do { (cur, u) \<leftarrow> wait_loop k (length cs) (forks s + length ds) None t; Some u }"
    "children t = [forks s..<forks s + length cs]"
    "events t = events s @ connected k (source k c) (forks s) (pipes s) cs" "\<not> stopped t"
    using run_loop_pipeline [of k "[]" c ds "[]" "s\<lparr>fdpipe := Uninit\<rparr>" "source k c" "[]" None 0] assms(2,5,6)
    unfolding c run_def connect_wire [OF l] kept_def group_tail_def by auto
  have "length cs = length (children t)" "distinct (children t)" using t(2) by simp_all
  from wait_loop_all [OF assms(1) this t(4), of "forks s + length ds" None] show ?thesis
    using t c by auto
qed

theorem pipeline_connected_witness:
  "\<exists>s' ps. run kernel0 (connect (pipeline [cmd0 ''a'', cmd0 ''b''\<lparr>outfile := ''out''\<rparr>])) shell0 = Some s' \<and> children s' = []
    \<and> events s' = [Start 0 [''a''] Terminal (PipeW 0), Start 1 [''b''] (PipeR 0) (File ''out'')] @ map (log_of kernel0) ps
    \<and> mset ps = {#0, 1#}"
  using pipeline_connected [of kernel0 shell0 "[cmd0 ''a'', cmd0 ''b''\<lparr>outfile := ''out''\<rparr>]"]
  by (simp add: calm_def stopped_def kernel0_def shell0_def cmd0_def source_def target_def add_mset_commute)

section \<open>Interrupts\<close>

text \<open>
  Waiting in the shell itself returns whatever signals arrive. A signal in the first wait is sent
  on to every process of the group, and the flag stays cleared.
\<close>

lemma handler_shell [simp]:
  "is_shell s \<Longrightarrow> exit_code (handler s) = exit_code s" "is_shell (handler s) = is_shell s"
  "is_main (handler s) = is_main s" "children (handler s) = children s" "pids (handler s) = pids s"
  "waits (handler s) = waits s" "forks (handler s) = forks s"
  "is_main s \<Longrightarrow> \<not> active_process (handler s)" "\<not> active_process s \<Longrightarrow> \<not> active_process (handler s)"
  by (simp_all add: handler_def Let_def)

lemma events_deliver:
  "\<exists>ps. events (deliver k p s) = events s @ map Kill ps
    \<and> (sigint k p \<and> exit_code s = None \<and> is_main s \<and> finite (pids s) \<longrightarrow> set ps = pids s)"
proof (cases "sigint k p \<and> exit_code s = None \<and> is_main s")
  case True
  then show ?thesis
    by (intro exI [of _ "sorted_list_of_set (pids s)"]) (simp add: deliver_def handler_def Let_def)
next
  case False
  then show ?thesis by (intro exI [of _ "[]"]) (auto simp: deliver_def handler_def Let_def)
qed

lemma deliver_shell [simp]:
  "is_shell s \<Longrightarrow> exit_code (deliver k p s) = exit_code s" "is_shell (deliver k p s) = is_shell s"
  "is_main (deliver k p s) = is_main s" "children (deliver k p s) = children s" "pids (deliver k p s) = pids s"
  "waits (deliver k p s) = waits s" "\<not> active_process s \<Longrightarrow> \<not> active_process (deliver k p s)"
  "sigint k p \<Longrightarrow> exit_code s = None \<Longrightarrow> is_main s \<Longrightarrow> \<not> active_process (deliver k p s)"
  by (simp_all add: deliver_def)

definition only_waits :: "event list \<Rightarrow> bool" where
  "only_waits es \<longleftrightarrow> concat (map start_words es) = []"

lemma only_waits_simps [simp]:
  "only_waits (xs @ ys) \<longleftrightarrow> only_waits xs \<and> only_waits ys" "only_waits (map Kill ps)" "only_waits (Log p c # xs) \<longleftrightarrow> only_waits xs"
  "only_waits []"
  by (induction ps) (auto simp: only_waits_def)

lemma wait_loop_signals:
  "cnt = length (children s) \<Longrightarrow> distinct (children s) \<Longrightarrow> exit_code s = None \<Longrightarrow> is_shell s
    \<Longrightarrow> \<exists>cur' s' xs. wait_loop k cnt p cur s = Some (cur', s') \<and> children s' = []
      \<and> events s' = events s @ xs \<and> only_waits xs
      \<and> (\<not> active_process s \<longrightarrow> \<not> active_process s')
      \<and> (sigint k (Waiting (waits s)) \<and> is_main s \<and> finite (pids s) \<and> cnt \<noteq> 0
          \<longrightarrow> \<not> active_process s' \<and> Kill ` pids s \<subseteq> set xs)"
proof (induction cnt arbitrary: s cur)
  case 0
  then show ?case by auto
next
  case (Suc cnt)
  let ?d = "deliver k (Waiting (waits s)) s"
  obtain ps where ps: "events ?d = events s @ map Kill ps"
    "sigint k (Waiting (waits s)) \<and> is_main s \<and> finite (pids s) \<longrightarrow> set ps = pids s"
    using events_deliver [of k "Waiting (waits s)" s] Suc.prems(3) by blast
  have "children ?d \<noteq> []" using Suc.prems(1) by auto
  then obtain q where q: "q \<in> set (children ?d)" "wait_child k ?d = Some (q, outcome k q,
      ?d\<lparr>children := remove1 q (children ?d), waits := Suc (waits ?d)\<rparr>)"
    using wait_child_step by blast
  let ?l = "log q (outcome k q) (?d\<lparr>children := remove1 q (children ?d), waits := Suc (waits ?d)\<rparr>)"
  let ?t = "?l\<lparr>pids := pids ?l - {q}\<rparr>" and ?cur = "if q = p then Some (outcome k q) else cur"
  have step: "wait_loop k (Suc cnt) p cur s = wait_loop k cnt p ?cur ?t"
    using q(2) Suc.prems(3,4) by (simp add: wait_loop.simps(2) Let_def)
  have "cnt = length (children ?t)" "distinct (children ?t)" "exit_code ?t = None" "is_shell ?t"
    using Suc.prems q(1) by (simp_all add: length_remove1)
  from Suc.IH [OF this, of ?cur] obtain cur' s' xs where s': "wait_loop k cnt p ?cur ?t = Some (cur', s')"
    "children s' = []" "events s' = events ?t @ xs" "only_waits xs"
    "\<not> active_process ?t \<longrightarrow> \<not> active_process s'" by blast
  have a: "active_process ?t = active_process ?d" by simp
  have e: "events s' = events s @ (map Kill ps @ [Log q (log_code (outcome k q))] @ xs)"
    using s'(3) ps(1) by simp
  have o: "only_waits (map Kill ps @ [Log q (log_code (outcome k q))] @ xs)" using s'(4) by simp
  have "sigint k (Waiting (waits s)) \<and> is_main s \<and> finite (pids s)
      \<longrightarrow> \<not> active_process s' \<and> Kill ` pids s \<subseteq> set (map Kill ps @ [Log q (log_code (outcome k q))] @ xs)"
    using ps(2) s'(5) a Suc.prems(3) by auto
  moreover have "\<not> active_process s \<longrightarrow> \<not> active_process s'" using s'(5) a by auto
  moreover have "wait_loop k (Suc cnt) p cur s = Some (cur', s')" using step s'(1) by simp
  ultimately show ?case using s'(2) e o by metis
qed

lemma run_loop_stopped:
  assumes "\<not> active_process s" "\<forall>l i. \<not> sigint k (Looping l i)"
  shows "run_loop k cmds it op cur cnt s = Some s"
  using assms by (subst run_loop.simps) (simp add: stopped_def deliver_def)

lemma goes_on_stopped:
  assumes "\<not> active_process s" "\<forall>l i. \<not> sigint k (Looping l i)"
  shows "goes_on k cmds it es cur s = Some s"
  using run_loop_stopped [OF assms] by (cases "(k, cmds, it, es, cur, s)" rule: goes_on.cases) simp_all

lemma started_connected: "concat (map start_words (connected k src n p cs)) = map params cs"
  by (induction k src n p cs rule: connected.induct) simp_all

lemma wire_append:
  "cs \<noteq> [] \<Longrightarrow> d \<noteq> ''|'' \<Longrightarrow> wire op (pipeline cs @ Delim d # es) = wire op (pipeline cs) @ Delim d # wire d es"
  by (induction cs arbitrary: op rule: pipeline.induct) (simp_all add: before_bar_def)

lemma linear_pipeline: "linear (pipeline cs)"
  by (induction cs rule: pipeline.induct) auto

text \<open>
  A line of several pipelines of which the first is interrupted while the shell waits for it.
\<close>

lemma run_interrupted:
  assumes "sigint k (Waiting (waits s))" "\<forall>l i. \<not> sigint k (Looping l i)" "\<not> stopped s" "is_main s" "is_shell s"
    "children s = []" "pids s = {}" "cs \<noteq> []" "group_tail es" "infile (hd cs) \<noteq> ''pipe''" "outfile (last cs) \<noteq> ''pipe''"
  shows "\<exists>s'. run k (wire [] (pipeline cs) @ es) s = Some s' \<and> children s' = [] \<and> \<not> active_process s'
    \<and> started s' = started s @ map params cs \<and> (\<forall>p\<in>{forks s..<forks s + length cs}. Kill p \<in> set (events s'))"
proof -
  obtain c ds where c: "cs = c # ds" using assms(8) by (cases cs) auto
  have "reads_from k [] (s\<lparr>fdpipe := Uninit\<rparr>) c (source k c)" using assms(10) c by (simp add: reads_from_def)
  then obtain t where t: "run k (wire [] (pipeline cs) @ es) s
      = do { (cur, u) \<leftarrow> wait_loop k (length cs) (forks s + length ds) None t;
             goes_on k (wire [] (pipeline cs) @ es) (2 * length cs) es cur u }"
    "children t = [forks s..<forks s + length cs]"
    "events t = events s @ connected k (source k c) (forks s) (pipes s) cs"
    "pids t = {forks s..<forks s + length cs}" "kept s t"
    using run_loop_pipeline [of k es c ds "[]" "s\<lparr>fdpipe := Uninit\<rparr>" "source k c" "[]" None 0] assms(2,3,6,7,9,11)
    unfolding c run_def kept_def by auto
  have n: "length cs = length (children t)" "distinct (children t)" "exit_code t = None" "is_shell t"
    using t(2,5) assms(3,5) by (auto simp: kept_def stopped_def)
  have "sigint k (Waiting (waits t)) \<and> is_main t \<and> finite (pids t) \<and> length cs \<noteq> 0"
    using t(4,5) assms(1,4,8) by (simp add: kept_def)
  with wait_loop_signals [OF n, of k "forks s + length ds" None] obtain cur u xs where
    u: "wait_loop k (length cs) (forks s + length ds) None t = Some (cur, u)" "children u = []"
    "events u = events t @ xs" "only_waits xs" "\<not> active_process u" "Kill ` pids t \<subseteq> set xs" by blast
  have "run k (wire [] (pipeline cs) @ es) s = Some u"
    using t(1) u(1) goes_on_stopped [OF u(5) assms(2)] by simp
  moreover have "started u = started s @ map params cs"
    using u(3,4) t(3) by (simp add: started_def only_waits_def started_connected)
  ultimately show ?thesis using u(2,3,5,6) t(4) by auto
qed

text \<open>Property C32.
  Ctrl-C: when a signal arrives while the shell waits for the first pipeline of a line, each
  process of that pipeline is sent a \<open>SIGINT\<close>, the shell waits for all of them, and
  nothing else of the line is started; further signals in later waits change nothing of this.
\<close>

theorem interrupt_stops_line:
  assumes "sigint k (Waiting (waits s))" "\<forall>l i. \<not> sigint k (Looping l i)" "\<forall>l. \<not> sigint k (Reading l)"
    "exit_code s = None" "is_main s" "is_shell s" "children s = []"
    "alternates (pipeline cs @ Delim d # es)" "cs \<noteq> []" "ends_group d" "infile (hd cs) \<noteq> ''pipe''"
    "outfile (last cs) \<noteq> ''pipe''" "last (Delim d # es) \<notin> {Delim ''|'', Delim ''&''}"
  shows "\<exists>s'. main_turn k [] (written (pipeline cs @ Delim d # es)) s = Some s' \<and> children s' = []
    \<and> started s' = started s @ map params cs
    \<and> (\<forall>p\<in>{forks s..<forks s + length cs}. Kill p \<in> set (events s'))"
proof -
  let ?es = "pipeline cs @ Delim d # es"
  let ?s = "s\<lparr>fd_in := Terminal, active_process := True, pids := {}, lines_read := Suc (lines_read s)\<rparr>"
  have d: "d \<noteq> ''|''" using assms(10) by (auto simp: ends_group_def)
  have p: "parse (written ?es) = Some (connect ?es, False)" using parse_written [OF assms(8)] assms(13) by auto
  have c: "connect ?es = wire [] (pipeline cs) @ Delim d # wire d es"
    using connect_wire [OF alternates_linear [OF assms(8)]] wire_append [OF assms(9) d] by simp
  have "group_tail (Delim d # wire d es)" using assms(10) by (simp add: group_tail_def)
  from run_interrupted [of k ?s, OF _ assms(2) _ _ _ _ _ assms(9) this assms(11,12)] obtain s' where
    s': "run k (connect ?es) ?s = Some s'" "children s' = []" "started s' = started s @ map params cs"
    "\<forall>p\<in>{forks s..<forks s + length cs}. Kill p \<in> set (events s')"
    using assms(1,4-7) unfolding c by (auto simp: stopped_def started_def)
  have "main_turn k [] (written ?es) s = Some s'"
    using p s'(1) assms(3) by (simp add: main_turn_def deliver_def)
  then show ?thesis using s'(2-4) by blast
qed

definition kernel1 :: kernel where
  "kernel1 = \<lparr>opens = (\<lambda>_. True), outcome = (\<lambda>_. Signaled 2), pick = (\<lambda>n. n), sigint = (\<lambda>p. p = Waiting 0)\<rparr>"

theorem interrupt_stops_line_witness:
  "\<exists>s'. main_turn kernel1 [] '' yes| wc; ls'' shell0 = Some s' \<and> children s' = []
    \<and> started s' = [[''yes''], [''wc'']] \<and> (\<forall>p\<in>{1, 0}. Kill p \<in> set (events s'))"
  using interrupt_stops_line [of kernel1 shell0 "[cmd0 ''yes'', cmd0 ''wc'']" "'';''" "[Cmd (cmd0 ''ls'')]"]
  by (simp add: kernel1_def shell0_def cmd0_def delims_def ends_group_def
      started_def comand_ok_def safe_def wsdelim_def symcmds_def words_of_def numeral_2_eq_2 atLeastLessThanSuc)

end
