(* ===== verification/Index_File.thy ===== *)
theory Index_File
  imports Prelude
begin

text \<open>
  Files of the inverted index, \<^verbatim>\<open>src/p4/main.cpp\<close>: \<open>fread\<close> and \<open>fwrite\<close> of little-endian numbers
  of 4 and 8 bytes, the names of \<open>createName\<close>, and \<open>std::map\<close> and \<open>std::set\<close> as lists that are
  sorted by key. A file is its byte list, an open file for reading is what is left of it. A read
  whose result the code does not test and that finds too few bytes leaves its target
  indeterminate; that is \<^const>\<open>None\<close>.
\<close>

section \<open>Numbers\<close>

type_synonym uint64 = nat
type_synonym uint32 = nat

fun put_le :: "nat \<Rightarrow> nat \<Rightarrow> byte list" where
  "put_le 0 n = []"
| "put_le (Suc k) n = word_of_nat n # put_le k (n div 256)"

fun get_le :: "byte list \<Rightarrow> nat" where
  "get_le [] = 0"
| "get_le (b # bs) = unat b + 256 * get_le bs"

lemma length_put_le [simp]: "length (put_le k n) = k"
  by (induction k arbitrary: n) auto

lemma get_put_le: "get_le (put_le k n) = n mod 256 ^ k"
proof (induction k arbitrary: n)
  case (Suc k)
  have "get_le (put_le (Suc k) n) = n mod 256 + 256 * (n div 256 mod 256 ^ k)"
    by (simp add: Suc unat_byte)
  also have "\<dots> = n mod (256 * 256 ^ k)" by (simp add: mod_mult2_eq)
  finally show ?case by simp
qed simp

lemma get_put_id: "n < 256 ^ k \<Longrightarrow> get_le (put_le k n) = n"
  by (simp add: get_put_le)

lemma get_le_bound: "get_le bs < 256 ^ length bs"
proof (induction bs)
  case (Cons b bs)
  have "unat b < 256" using unsigned_less [of b] by simp
  then show ?case using Cons by simp
qed simp

section \<open>Reading and writing\<close>

definition fwrite64 :: "uint64 \<Rightarrow> byte list" where
  "fwrite64 n = put_le 8 n"

definition fwrite32 :: "uint32 \<Rightarrow> byte list" where
  "fwrite32 n = put_le 4 n"

definition fwrite64s :: "uint64 list \<Rightarrow> byte list" where
  "fwrite64s ns = concat (map fwrite64 ns)"

definition fread64 :: "byte list \<Rightarrow> (uint64 \<times> byte list) option" where
  "fread64 f = (if 8 \<le> length f then Some (get_le (take 8 f), drop 8 f) else None)"

definition fread32 :: "byte list \<Rightarrow> (uint32 \<times> byte list) option" where
  "fread32 f = (if 4 \<le> length f then Some (get_le (take 4 f), drop 4 f) else None)"

fun fread64s :: "nat \<Rightarrow> byte list \<Rightarrow> (uint64 list \<times> byte list) option" where
  "fread64s 0 f = Some ([], f)"
| "fread64s (Suc n) f = do {
     (x, f) \<leftarrow> fread64 f;
     (xs, f) \<leftarrow> fread64s n f;
     Some (x # xs, f)
   }"

text \<open>
  \<open>n\<close> numbers read into a buffer of \<open>cap\<close> bytes. The program asks \<open>malloc\<close> or \<open>realloc\<close> for
  \<open>n * 8\<close> bytes with \<open>n\<close> a \<open>uint32_t\<close>, a product of 32 bits (\<open>mul32\<close>): from \<open>n = 2 ^ 29\<close> on the
  buffer is too small and the read runs over its end.
\<close>

definition fread_array :: "nat \<Rightarrow> uint32 \<Rightarrow> byte list \<Rightarrow> (uint64 list \<times> byte list) option" where
  "fread_array cap n f = do {
     (xs, f) \<leftarrow> fread64s n f;
     if 8 * n \<le> cap then Some (xs, f) else None
   }"

lemma SZ_bytes: "SZ = 256 ^ 8"
  by (simp add: SZ_def)

lemma fwrite_lengths [simp]:
  "length (fwrite64 n) = 8" "length (fwrite32 n) = 4" "length (fwrite64s ns) = 8 * length ns"
  by (simp_all add: fwrite64_def fwrite32_def fwrite64s_def length_concat comp_def sum_list_triv)

lemma fread64_write: "n < SZ \<Longrightarrow> fread64 (fwrite64 n @ f) = Some (n, f)"
  by (simp add: fread64_def fwrite64_def get_put_le SZ_def)

lemma fread32_write: "n < 2 ^ 32 \<Longrightarrow> fread32 (fwrite32 n @ f) = Some (n, f)"
  by (simp add: fread32_def fwrite32_def get_put_le)

lemma fread64s_write: "\<forall>n \<in> set ns. n < SZ \<Longrightarrow> fread64s (length ns) (fwrite64s ns @ f) = Some (ns, f)"
  by (induction ns) (simp_all add: fwrite64s_def fread64_write)

lemma fread64_length: "fread64 f = Some (x, f') \<Longrightarrow> length f = length f' + 8 \<and> x < SZ"
  using get_le_bound [of "take 8 f"] by (auto simp: fread64_def SZ_def split: if_splits)

lemma fread32_length: "fread32 f = Some (x, f') \<Longrightarrow> length f = length f' + 4 \<and> x < 2 ^ 32"
  using get_le_bound [of "take 4 f"] by (auto simp: fread32_def split: if_splits)

lemma fread64s_length:
  "fread64s n f = Some (xs, f') \<Longrightarrow> length f = length f' + 8 * n \<and> length xs = n \<and> (\<forall>x \<in> set xs. x < SZ)"
proof (induction n arbitrary: f xs)
  case (Suc n)
  then obtain x g ys where s: "fread64 f = Some (x, g)" "fread64s n g = Some (ys, f')" "xs = x # ys"
    by (auto simp: bind_eq_Some_conv)
  then show ?case using Suc.IH [OF s(2)] fread64_length [OF s(1)] by auto
qed simp

lemma fread_array_length:
  "fread_array cap n f = Some (xs, f') \<Longrightarrow> length f = length f' + 8 * n \<and> length xs = n \<and> (\<forall>x \<in> set xs. x < SZ)"
  by (auto simp: fread_array_def bind_eq_Some_conv fread64s_length split: if_splits)

lemma mul32_8: "8 * n \<le> mul32 n 8 \<longleftrightarrow> n < 2 ^ 29"
proof
  assume "8 * n \<le> mul32 n 8"
  then have "\<not> mul32 n 8 < n * 8" by simp
  then show "n < 2 ^ 29" using mul32_short [of n 8] by (cases "2 ^ 32 \<le> n * 8") auto
qed (simp add: mul32_exact)

lemma fread_array_write:
  "\<forall>n \<in> set ns. n < SZ \<Longrightarrow> length ns < 2 ^ 29
   \<Longrightarrow> fread_array (mul32 (length ns) 8) (length ns) (fwrite64s ns @ f) = Some (ns, f)"
  using mul32_8 [of "length ns"] by (simp add: fread_array_def fread64s_write)

lemma fread_array_short: "2 ^ 29 \<le> n \<Longrightarrow> fread_array (mul32 n 8) n f = None"
  using mul32_8 [of n] by (cases "fread64s n f") (auto simp: fread_array_def)

section \<open>File names\<close>

text \<open>\<open>ss << name << number\<close>.\<close>

definition createName :: "string \<Rightarrow> nat \<Rightarrow> string" where
  "createName name number = name @ decimal number"

lemma createName_inj: "createName name m = createName name n \<longleftrightarrow> m = n"
  using decimal_inj by (auto simp: createName_def)

lemma createName_not_name: "createName name n \<noteq> name"
  using decimal_not_Nil by (simp add: createName_def)

section \<open>Sorted containers\<close>

abbreviation asc :: "nat list \<Rightarrow> bool" where
  "asc \<equiv> sorted_wrt (<)"

text \<open>\<open>std::set::insert\<close> and \<open>map[k].insert(v)\<close>.\<close>

fun set_insert :: "uint64 \<Rightarrow> uint64 list \<Rightarrow> uint64 list" where
  "set_insert x [] = [x]"
| "set_insert x (y # ys) = (if x < y then x # y # ys else if x = y then y # ys else y # set_insert x ys)"

type_synonym dict = "(uint64 \<times> uint64 list) list"

fun dict_insert :: "uint64 \<Rightarrow> uint64 \<Rightarrow> dict \<Rightarrow> dict" where
  "dict_insert w d [] = [(w, [d])]"
| "dict_insert w d ((k, s) # r) =
     (if w < k then (w, [d]) # (k, s) # r
      else if w = k then (k, set_insert d s) # r
      else (k, s) # dict_insert w d r)"

lemma set_set_insert [simp]: "set (set_insert x xs) = insert x (set xs)"
  by (induction xs) auto

lemma sorted_set_insert: "asc xs \<Longrightarrow> asc (set_insert x xs)"
  by (induction xs) auto

lemma set_insert_not_Nil [simp]: "set_insert x xs \<noteq> []"
  by (cases xs) auto

text \<open>The documents of a word, none when the word is not there.\<close>

fun postings :: "dict \<Rightarrow> uint64 \<Rightarrow> uint64 list" where
  "postings [] w = []"
| "postings ((k, s) # r) w = (if k = w then s else postings r w)"

definition dict_ok :: "dict \<Rightarrow> bool" where
  "dict_ok m \<longleftrightarrow> asc (map fst m) \<and> (\<forall>(w, s) \<in> set m. s \<noteq> [] \<and> asc s)"

lemma keys_dict_insert [simp]: "fst ` set (dict_insert w d m) = insert w (fst ` set m)"
  by (induction w d m rule: dict_insert.induct) (auto simp: insert_commute)

lemma dict_ok_insert: "dict_ok m \<Longrightarrow> dict_ok (dict_insert w d m)"
proof (induction w d m rule: dict_insert.induct)
  case (2 w d k s r)
  have "dict_ok r" using 2(2) by (auto simp: dict_ok_def)
  then have "w \<noteq> k \<Longrightarrow> \<not> w < k \<Longrightarrow> dict_ok (dict_insert w d r)" using 2(1) by blast
  then show ?case using 2(2) sorted_set_insert [of s d] by (auto simp: dict_ok_def)
qed (simp add: dict_ok_def)

lemma postings_absent: "w \<notin> fst ` set m \<Longrightarrow> postings m w = []"
  by (induction m) auto

lemma postings_insert:
  "dict_ok m \<Longrightarrow> set (postings (dict_insert w d m) v) = (if v = w then insert d (set (postings m v)) else set (postings m v))"
proof (induction w d m rule: dict_insert.induct)
  case (2 w d k s r)
  have r: "dict_ok r" "\<forall>x \<in> set r. k < fst x" using 2(2) by (auto simp: dict_ok_def)
  consider "w < k" | "w = k" | "k < w" by linarith
  then show ?case
  proof cases
    case 1
    then have "w \<notin> fst ` set r" using r(2) by force
    then show ?thesis using 1 postings_absent by simp
  next
    case 2
    then show ?thesis by simp
  next
    case 3
    then show ?thesis using 2(1) [OF _ _ r(1)] by (cases "v = w") simp_all
  qed
qed simp

end
