(* ===== verification/Index_Build.thy ===== *)
theory Index_Build
  imports Index_File
begin

text \<open>
  Model of \<open>createIndexsFiles\<close> and \<open>saveIndexFile\<close> of \<^verbatim>\<open>src/p4/main.cpp\<close>: the input, a sequence of
  documents with their word numbers, is cut into batches of 2000 documents, and each batch is
  written as an index file of its own. The file system maps names to contents; opening a file
  for writing is taken to succeed.
\<close>

section \<open>Saving a batch\<close>

type_synonym files = "string \<rightharpoonup> byte list"

fun save_loop :: "dict \<Rightarrow> uint64 list \<Rightarrow> byte list \<times> uint64 list" where
  "save_loop [] set_wordid = ([], set_wordid)"
| "save_loop ((w, set_docids) # r) set_wordid =
     (let (out, set_wordid) = save_loop r (set_insert w set_wordid)
      in (fwrite64 w @ fwrite32 (length set_docids) @ fwrite64s set_docids @ out, set_wordid))"

definition saveIndexFile :: "string \<Rightarrow> dict \<Rightarrow> uint64 list \<Rightarrow> files \<Rightarrow> uint64 list \<times> files" where
  "saveIndexFile name dict_wordid set_wordid fs =
     (let (out, set_wordid) = save_loop dict_wordid set_wordid
      in (set_wordid, fs(name \<mapsto> out)))"

section \<open>Reading the input\<close>

definition COUNT_DOCID :: nat where
  "COUNT_DOCID = 2000"

record Builder =
  dict_wordid :: dict
  set_wordid :: "uint64 list"
  cur_count :: nat
  number_file :: nat
  files :: files

fun insert_words :: "uint64 \<Rightarrow> uint64 list \<Rightarrow> dict \<Rightarrow> dict" where
  "insert_words docid [] m = m"
| "insert_words docid (w # ws) m = insert_words docid ws (dict_insert w docid m)"

definition save_batch :: "string \<Rightarrow> Builder \<Rightarrow> Builder" where
  "save_batch name_output b =
     (let (ws, fs) = saveIndexFile (createName name_output (number_file b)) (dict_wordid b) (set_wordid b) (files b)
      in b\<lparr>set_wordid := ws, files := fs, cur_count := 0, number_file := number_file b + 1\<rparr>)"

function read_loop :: "string \<Rightarrow> byte list \<Rightarrow> Builder \<Rightarrow> Builder option" where
  "read_loop name_output f b =
     (case fread64 f of
        None \<Rightarrow> Some b
      | Some (docid, f1) \<Rightarrow>
          (case fread32 f1 of
             None \<Rightarrow> None
           | Some (n, f2) \<Rightarrow>
               (case fread_array (mul32 n 8) n f2 of
                  None \<Rightarrow> None
                | Some (wordid, f3) \<Rightarrow>
                    let b = b\<lparr>cur_count := cur_count b + 1, dict_wordid := insert_words docid wordid (dict_wordid b)\<rparr>;
                        b = (if cur_count b = COUNT_DOCID then (save_batch name_output b)\<lparr>dict_wordid := []\<rparr> else b)
                    in read_loop name_output f3 b)))"
  by pat_completeness auto
termination
  by (relation "measure (\<lambda>(n, f, b). length f)") (auto dest!: fread64_length fread32_length fread_array_length)

declare read_loop.simps [simp del]

definition createIndexsFiles :: "byte list \<Rightarrow> string \<Rightarrow> files \<Rightarrow> (nat \<times> uint64 list \<times> files) option" where
  "createIndexsFiles input name_output fs = do {
     b \<leftarrow> read_loop name_output input
       \<lparr>dict_wordid = [], set_wordid = [], cur_count = 0, number_file = 0, files = fs\<rparr>;
     let b = (if dict_wordid b \<noteq> [] then save_batch name_output b else b);
     Some (number_file b, set_wordid b, files b)
   }"

section \<open>The batches\<close>

text \<open>A document as the input holds it, and the index files as lists of postings.\<close>

type_synonym doc = "uint64 \<times> uint64 list"

definition doc_ok :: "doc \<Rightarrow> bool" where
  "doc_ok x \<longleftrightarrow> fst x < SZ \<and> length (snd x) < 2 ^ 32 \<and> (\<forall>w \<in> set (snd x). w < SZ)"

text \<open>The words of a document fit into a buffer of 32-bit size.\<close>

definition doc_fits :: "doc \<Rightarrow> bool" where
  "doc_fits x \<longleftrightarrow> length (snd x) < 2 ^ 29"

definition doc_bytes :: "doc \<Rightarrow> byte list" where
  "doc_bytes x = fwrite64 (fst x) @ fwrite32 (length (snd x)) @ fwrite64s (snd x)"

definition input_of :: "doc list \<Rightarrow> byte list" where
  "input_of ds = concat (map doc_bytes ds)"

definition posting_bytes :: "uint64 \<times> uint64 list \<Rightarrow> byte list" where
  "posting_bytes p = fwrite64 (fst p) @ fwrite32 (length (snd p)) @ fwrite64s (snd p)"

definition index_bytes :: "dict \<Rightarrow> byte list" where
  "index_bytes m = concat (map posting_bytes m)"

fun batches :: "dict \<Rightarrow> nat \<Rightarrow> doc list \<Rightarrow> dict list" where
  "batches m c [] = (if m = [] then [] else [m])"
| "batches m c (x # xs) =
     (let m' = insert_words (fst x) (snd x) m
      in if Suc c = COUNT_DOCID then m' # batches [] 0 xs else batches m' (Suc c) xs)"

fun insert_keys :: "dict \<Rightarrow> uint64 list \<Rightarrow> uint64 list" where
  "insert_keys [] ws = ws"
| "insert_keys (p # m) ws = insert_keys m (set_insert (fst p) ws)"

lemma save_loop_eq: "save_loop m ws = (index_bytes m, insert_keys m ws)"
  by (induction m ws rule: save_loop.induct) (simp_all add: index_bytes_def posting_bytes_def)

lemma save_batch_eq:
  "save_batch name b = b\<lparr>set_wordid := insert_keys (dict_wordid b) (set_wordid b), cur_count := 0,
     number_file := Suc (number_file b),
     files := (files b)(createName name (number_file b) \<mapsto> index_bytes (dict_wordid b))\<rparr>"
  by (simp add: save_batch_def saveIndexFile_def save_loop_eq)

text \<open>The files of a list of batches, from number \<open>n\<close> on.\<close>

fun with_files :: "string \<Rightarrow> nat \<Rightarrow> dict list \<Rightarrow> files \<Rightarrow> files" where
  "with_files name n [] fs = fs"
| "with_files name n (m # ms) fs = with_files name (Suc n) ms (fs(createName name n \<mapsto> index_bytes m))"

fun all_keys :: "dict list \<Rightarrow> uint64 list \<Rightarrow> uint64 list" where
  "all_keys [] ws = ws"
| "all_keys (m # ms) ws = all_keys ms (insert_keys m ws)"

definition finished :: "string \<Rightarrow> Builder \<Rightarrow> Builder" where
  "finished name b = (if dict_wordid b \<noteq> [] then save_batch name b else b)"

lemma read_doc:
  assumes "doc_ok x"
  shows "fread64 (doc_bytes x @ f) = Some (fst x, fwrite32 (length (snd x)) @ fwrite64s (snd x) @ f)"
    "fread32 (fwrite32 (length (snd x)) @ fwrite64s (snd x) @ f) = Some (length (snd x), fwrite64s (snd x) @ f)"
    "doc_fits x \<Longrightarrow> fread_array (mul32 (length (snd x)) 8) (length (snd x)) (fwrite64s (snd x) @ f) = Some (snd x, f)"
    "\<not> doc_fits x \<Longrightarrow> fread_array (mul32 (length (snd x)) 8) (length (snd x)) (fwrite64s (snd x) @ f) = None"
  using assms by (simp_all add: doc_bytes_def doc_ok_def doc_fits_def fread64_write fread32_write fread_array_write fread_array_short)

lemma read_loop_doc:
  assumes "doc_ok x" "doc_fits x"
  shows "read_loop name (input_of (x # ds)) b = read_loop name (input_of ds)
    (let b = b\<lparr>cur_count := Suc (cur_count b), dict_wordid := insert_words (fst x) (snd x) (dict_wordid b)\<rparr>
     in if cur_count b = COUNT_DOCID then (save_batch name b)\<lparr>dict_wordid := []\<rparr> else b)"
  using read_doc [OF assms(1), of "input_of ds"] assms(2)
  by (subst read_loop.simps) (simp add: input_of_def Let_def)

text \<open>A document with \<open>2 ^ 29\<close> words or more overflows its buffer, wherever it stands.\<close>

lemma read_loop_overflow:
  assumes "\<forall>x \<in> set ds. doc_ok x" "\<exists>x \<in> set ds. \<not> doc_fits x"
  shows "read_loop name (input_of ds) b = None"
  using assms
proof (induction ds arbitrary: b)
  case (Cons x ds)
  have x: "doc_ok x" using Cons.prems by simp
  show ?case
  proof (cases "doc_fits x")
    case True
    then show ?thesis using Cons read_loop_doc [OF x True] by simp
  next
    case False
    then show ?thesis using read_doc [OF x, of "input_of ds"]
      by (subst read_loop.simps) (simp add: input_of_def)
  qed
qed simp

lemma read_loop_batches:
  assumes "\<forall>x \<in> set ds. doc_ok x \<and> doc_fits x" "cur_count b < COUNT_DOCID"
  shows "\<exists>b'. read_loop name (input_of ds) b = Some b'
    \<and> number_file (finished name b') = number_file b + length (batches (dict_wordid b) (cur_count b) ds)
    \<and> set_wordid (finished name b') = all_keys (batches (dict_wordid b) (cur_count b) ds) (set_wordid b)
    \<and> files (finished name b') = with_files name (number_file b) (batches (dict_wordid b) (cur_count b) ds) (files b)"
  using assms
proof (induction ds arbitrary: b)
  case Nil
  then show ?case
    by (subst read_loop.simps) (simp add: input_of_def fread64_def finished_def save_batch_eq)
next
  case (Cons x ds)
  have x: "doc_ok x" "doc_fits x" and ds: "\<forall>x \<in> set ds. doc_ok x \<and> doc_fits x" using Cons.prems by auto
  let ?m = "insert_words (fst x) (snd x) (dict_wordid b)"
  let ?b = "b\<lparr>cur_count := Suc (cur_count b), dict_wordid := ?m\<rparr>"
  let ?c = "if Suc (cur_count b) = COUNT_DOCID then (save_batch name ?b)\<lparr>dict_wordid := []\<rparr> else ?b"
  have step: "read_loop name (input_of (x # ds)) b = read_loop name (input_of ds) ?c"
    using read_loop_doc [OF x] by (simp add: Let_def)
  have "cur_count ?c < COUNT_DOCID" using Cons.prems(2) by (simp add: save_batch_eq COUNT_DOCID_def)
  from Cons.IH [OF ds this] show ?case unfolding step
    by (cases "Suc (cur_count b) = COUNT_DOCID") (simp_all add: save_batch_eq Let_def del: fun_upd_apply)
qed

lemma createIndexsFiles_overflow:
  "\<forall>x \<in> set ds. doc_ok x \<Longrightarrow> \<exists>x \<in> set ds. \<not> doc_fits x \<Longrightarrow> createIndexsFiles (input_of ds) name fs = None"
  by (simp add: createIndexsFiles_def read_loop_overflow)

lemma createIndexsFiles_eq:
  assumes "\<forall>x \<in> set ds. doc_ok x \<and> doc_fits x"
  shows "createIndexsFiles (input_of ds) name fs
    = Some (length (batches [] 0 ds), all_keys (batches [] 0 ds) [], with_files name 0 (batches [] 0 ds) fs)"
proof -
  let ?b = "\<lparr>dict_wordid = [], set_wordid = [], cur_count = 0, number_file = 0, files = fs\<rparr>"
  have "cur_count ?b < COUNT_DOCID" by (simp add: COUNT_DOCID_def)
  from read_loop_batches [OF assms this, of name] show ?thesis
    by (auto simp: createIndexsFiles_def finished_def Let_def)
qed

section \<open>What the batches hold\<close>

lemma with_files_other:
  "\<forall>i. f \<noteq> createName name i \<Longrightarrow> with_files name n ms fs f = fs f"
  by (induction ms arbitrary: n fs) auto

lemma with_files_earlier: "i < n \<Longrightarrow> with_files name n ms fs (createName name i) = fs (createName name i)"
  by (induction ms arbitrary: n fs) (auto simp: createName_inj)

lemma with_files_nth:
  "i < length ms \<Longrightarrow> with_files name n ms fs (createName name (n + i)) = Some (index_bytes (ms ! i))"
proof (induction ms arbitrary: n i fs)
  case (Cons m ms)
  then show ?case
  proof (cases i)
    case 0
    then show ?thesis by (simp add: with_files_earlier)
  next
    case (Suc j)
    then show ?thesis using Cons.IH [of j "Suc n"] Cons.prems by simp
  qed
qed simp

lemma asc_insert_keys: "asc ws \<Longrightarrow> asc (insert_keys m ws)"
  by (induction m ws rule: insert_keys.induct) (simp_all add: sorted_set_insert)

lemma set_insert_keys [simp]: "set (insert_keys m ws) = fst ` set m \<union> set ws"
  by (induction m ws rule: insert_keys.induct) auto

lemma all_keys_eq: "asc ws \<Longrightarrow> asc (all_keys ms ws) \<and> set (all_keys ms ws) = (\<Union>m \<in> set ms. fst ` set m) \<union> set ws"
  by (induction ms ws rule: all_keys.induct) (auto simp: asc_insert_keys)

lemma insert_words_ok: "dict_ok m \<Longrightarrow> dict_ok (insert_words d ws m)"
  by (induction d ws m rule: insert_words.induct) (simp_all add: dict_ok_insert)

lemma insert_words_keys [simp]: "fst ` set (insert_words d ws m) = set ws \<union> fst ` set m"
  by (induction d ws m rule: insert_words.induct) auto

lemma insert_words_postings:
  "dict_ok m \<Longrightarrow> set (postings (insert_words d ws m) v) = (if v \<in> set ws then insert d (set (postings m v)) else set (postings m v))"
  by (induction d ws m rule: insert_words.induct) (auto simp: dict_ok_insert postings_insert)

text \<open>The documents of a word in a document list.\<close>

definition docs_of :: "doc list \<Rightarrow> uint64 \<Rightarrow> uint64 set" where
  "docs_of ds w = {d. \<exists>ws. (d, ws) \<in> set ds \<and> w \<in> set ws}"

definition words_of_docs :: "doc list \<Rightarrow> uint64 set" where
  "words_of_docs ds = (\<Union>x \<in> set ds. set (snd x))"

lemma batches_ok: "dict_ok m \<Longrightarrow> \<forall>b \<in> set (batches m c ds). dict_ok b"
proof (induction m c ds rule: batches.induct)
  case (2 m c x xs)
  have nil: "dict_ok []" by (simp add: dict_ok_def)
  note ok = insert_words_ok [OF 2(3), of "fst x" "snd x"]
  show ?case using 2(1) [OF refl _ nil] 2(2) [OF refl _ ok] ok
    by (cases "Suc c = COUNT_DOCID") (simp_all add: Let_def)
qed simp

lemma batches_keys:
  "(\<Union>b \<in> set (batches m c ds). fst ` set b) = fst ` set m \<union> words_of_docs ds"
  by (induction m c ds rule: batches.induct) (auto simp: Let_def words_of_docs_def)

lemma docs_of_Cons: "docs_of (x # ds) w = (if w \<in> set (snd x) then insert (fst x) (docs_of ds w) else docs_of ds w)"
  by (cases x) (auto simp: docs_of_def)

lemma batches_postings:
  "dict_ok m \<Longrightarrow> (\<Union>b \<in> set (batches m c ds). set (postings b w)) = set (postings m w) \<union> docs_of ds w"
proof (induction m c ds rule: batches.induct)
  case (1 m c)
  then show ?case by (auto simp: docs_of_def)
next
  case (2 m c x xs)
  let ?m = "insert_words (fst x) (snd x) m"
  have nil: "dict_ok []" by (simp add: dict_ok_def)
  have ok: "dict_ok ?m" using insert_words_ok [OF 2(3)] .
  have p: "set (postings ?m w) \<union> docs_of xs w = set (postings m w) \<union> docs_of (x # xs) w"
    unfolding insert_words_postings [OF 2(3)] docs_of_Cons by simp
  show ?case
  proof (cases "Suc c = COUNT_DOCID")
    case True
    then show ?thesis using 2(1) [OF refl True nil] p by (simp add: Let_def)
  next
    case False
    then show ?thesis using 2(2) [OF refl False ok] p by (simp add: Let_def)
  qed
qed

text \<open>Every document is in one batch: with different numbers, no document is listed twice.\<close>

lemma postings_asc: "dict_ok m \<Longrightarrow> asc (postings m w)"
  by (induction m w rule: postings.induct) (auto simp: dict_ok_def)

lemma batches_distinct:
  assumes "dict_ok m" "distinct (map fst ds)" "\<forall>x \<in> set ds. \<forall>v. fst x \<notin> set (postings m v)"
  shows "distinct (concat (map (\<lambda>b. postings b w) (batches m c ds)))"
  using assms
proof (induction m c ds rule: batches.induct)
  case (1 m c)
  then show ?case using postings_asc [of m w] by (auto simp: strict_sorted_iff)
next
  case (2 m c x xs)
  let ?m = "insert_words (fst x) (snd x) m"
  have ok: "dict_ok ?m" using insert_words_ok [OF 2(3)] .
  have new: "\<forall>y \<in> set xs. \<forall>v. fst y \<notin> set (postings ?m v)"
    using 2(4,5) insert_words_postings [OF 2(3)] by (auto simp: image_iff)
  show ?case
  proof (cases "Suc c = COUNT_DOCID")
    case False
    then show ?thesis using 2(2) [OF refl False ok _ new] 2(4) by (simp add: Let_def)
  next
    case True
    have "distinct (concat (map (\<lambda>b. postings b w) (batches [] 0 xs)))"
      using 2(1) [OF refl True] 2(4) by (simp add: dict_ok_def)
    moreover have "set (concat (map (\<lambda>b. postings b w) (batches [] 0 xs))) = docs_of xs w"
      using batches_postings [of "[]" w 0 xs] by (simp add: dict_ok_def)
    moreover have "set (postings ?m w) \<inter> docs_of xs w = {}" using new by (fastforce simp: docs_of_def)
    moreover have "distinct (postings ?m w)" using postings_asc [OF ok, of w] by (simp add: strict_sorted_iff)
    ultimately show ?thesis using True by (simp add: Let_def)
  qed
qed

text \<open>A batch holds 2000 documents at most, so its lists are short, and there are few batches.\<close>

lemma insert_words_length:
  assumes "dict_ok m" shows "length (postings (insert_words d ws m) w) \<le> Suc (length (postings m w))"
proof -
  have len: "length (postings n w) = card (set (postings n w))" if "dict_ok n" for n
    using postings_asc [OF that, of w] by (simp add: strict_sorted_iff distinct_card)
  have "set (postings (insert_words d ws m) w) \<subseteq> insert d (set (postings m w))"
    using insert_words_postings [OF assms] by auto
  then have "card (set (postings (insert_words d ws m) w)) \<le> card (insert d (set (postings m w)))"
    by (intro card_mono) auto
  also have "\<dots> \<le> Suc (card (set (postings m w)))" by (rule card_insert_le_m1) auto
  finally show ?thesis using len [OF assms] len [OF insert_words_ok [OF assms]] by simp
qed

lemma batches_short:
  assumes "dict_ok m" "\<forall>w. length (postings m w) \<le> c" "c < COUNT_DOCID"
  shows "\<forall>b \<in> set (batches m c ds). \<forall>w. length (postings b w) \<le> COUNT_DOCID"
  using assms
proof (induction m c ds rule: batches.induct)
  case (1 m c)
  then show ?case by (auto intro: order_trans)
next
  case (2 m c x xs)
  let ?m = "insert_words (fst x) (snd x) m"
  have ok: "dict_ok ?m" "dict_ok []" using insert_words_ok [OF 2(3)] by (simp_all add: dict_ok_def)
  have l: "length (postings ?m w) \<le> Suc c" for w
    using insert_words_length [OF 2(3), of "fst x" "snd x" w] 2(4) [rule_format, of w] by simp
  show ?case
  proof (cases "Suc c = COUNT_DOCID")
    case True
    then show ?thesis using 2(1) [OF refl True ok(2)] l by (auto simp: Let_def)
  next
    case False
    then show ?thesis using 2(2) [OF refl False ok(1)] l 2(5) by (simp add: Let_def)
  qed
qed

lemma batches_count: "c < COUNT_DOCID \<Longrightarrow> length (batches m c ds) \<le> Suc ((c + length ds) div COUNT_DOCID)"
proof (induction m c ds rule: batches.induct)
  case (2 m c x xs)
  show ?case
  proof (cases "Suc c = COUNT_DOCID")
    case True
    have "c + length (x # xs) = length xs + COUNT_DOCID" using True by simp
    then have "(c + length (x # xs)) div COUNT_DOCID = Suc (length xs div COUNT_DOCID)"
      using div_add_self2 [of COUNT_DOCID "length xs"] by (simp add: COUNT_DOCID_def)
    then show ?thesis using 2(1) [OF refl True] True by (simp add: Let_def COUNT_DOCID_def)
  next
    case False
    then show ?thesis using 2(2) [OF refl False] 2(3) by (simp add: Let_def)
  qed
qed simp

end
