(* ===== verification/Index_Merge.thy ===== *)
theory Index_Merge
  imports Index_Build
begin

text \<open>
  Model of the merge of \<^verbatim>\<open>src/p4/main.cpp\<close>: \<open>mergeIndex\<close> reads all index files in parallel,
  one posting list at a time, and writes one file that starts with a table of words and the
  offsets of their document lists; \<open>readIndex\<close> reads that file back.
\<close>

section \<open>The table of words\<close>

definition saveWordids :: "uint64 list \<Rightarrow> byte list" where
  "saveWordids wordset =
     concat (map (\<lambda>w. fwrite64 w @ fwrite64 0) wordset) @ fwrite64 0 @ fwrite64 0"

type_synonym offsets = "(uint64 \<times> uint64) list"

text \<open>\<open>offsets[w] = o\<close> on a map, kept sorted by word.\<close>

fun offset_put :: "uint64 \<Rightarrow> uint64 \<Rightarrow> offsets \<Rightarrow> offsets" where
  "offset_put w off [] = [(w, off)]"
| "offset_put w off ((k, p) # r) =
     (if w < k then (w, off) # (k, p) # r else if w = k then (w, off) # r else (k, p) # offset_put w off r)"

definition write_at :: "nat \<Rightarrow> byte list \<Rightarrow> byte list \<Rightarrow> byte list" where
  "write_at pos bs f = take pos f @ bs @ drop (pos + length bs) f"

fun saveOffsets :: "nat \<Rightarrow> offsets \<Rightarrow> byte list \<Rightarrow> byte list" where
  "saveOffsets pos [] out_file = out_file"
| "saveOffsets pos ((w, off) # r) out_file =
     saveOffsets (pos + 16) r (write_at (pos + 8) (fwrite64 off) out_file)"

fun removeIndexFiles :: "string \<Rightarrow> nat \<Rightarrow> files \<Rightarrow> files" where
  "removeIndexFiles name_input 0 fs = fs"
| "removeIndexFiles name_input (Suc i) fs = (removeIndexFiles name_input i fs)(createName name_input i := None)"

section \<open>The merge loop\<close>

text \<open>The vectors \<open>wordids\<close>, \<open>counts\<close>, \<open>docids\<close> and \<open>in_files\<close> at one index.\<close>

record Cursor =
  c_word :: uint64
  c_count :: uint32
  c_docids :: "uint64 list"
  c_rest :: "byte list"

definition read_posting :: "uint64 \<Rightarrow> byte list \<Rightarrow> Cursor option" where
  "read_posting w f = do {
     (n, f) \<leftarrow> fread32 f;
     (ds, f) \<leftarrow> fread_array (mul32 n 8) n f;
     Some \<lparr>c_word = w, c_count = n, c_docids = ds, c_rest = f\<rparr>
   }"

definition first_posting :: "byte list \<Rightarrow> Cursor option" where
  "first_posting f = do {
     (w, f) \<leftarrow> fread64 f;
     read_posting w f
   }"

definition advance :: "uint64 \<Rightarrow> Cursor \<Rightarrow> Cursor option" where
  "advance max_wordid c =
     (case fread64 (c_rest c) of
        Some (w, f) \<Rightarrow> read_posting w f
      | None \<Rightarrow> Some (c\<lparr>c_word := max_wordid\<rparr>))"

fun min_loop :: "uint64 list \<Rightarrow> nat \<Rightarrow> uint64 \<Rightarrow> nat list \<Rightarrow> uint64 \<times> nat list" where
  "min_loop [] i min_value indexs = (min_value, indexs)"
| "min_loop (w # ws) i min_value indexs =
     (if w < min_value then min_loop ws (Suc i) w [i]
      else if w = min_value then min_loop ws (Suc i) min_value (indexs @ [i])
      else min_loop ws (Suc i) min_value indexs)"

text \<open>
  The lists of the chosen files, copied one after the other into \<open>all_docids\<close>, a buffer of \<open>cap\<close> bytes:
  undefined when a copy leaves the buffer, or when it copies fewer bytes than the list has because
  \<open>counts[*iter] * SIZE_DOCID\<close> wraps.
\<close>

fun take_loop :: "nat list \<Rightarrow> uint64 \<Rightarrow> Cursor list \<Rightarrow> nat \<Rightarrow> uint64 list \<Rightarrow> (uint64 list \<times> Cursor list) option" where
  "take_loop [] max_wordid cs cap all_docids = Some (all_docids, cs)"
| "take_loop (i # is) max_wordid cs cap all_docids =
     (let n = c_count (cs ! i) in
      if mul32 n 8 < 8 * n \<or> cap < 8 * (length all_docids + n) then None
      else do {
        let all_docids = all_docids @ c_docids (cs ! i);
        c \<leftarrow> advance max_wordid (cs ! i);
        take_loop is max_wordid (cs[i := c]) cap all_docids
      })"

text \<open>\<open>all_counts\<close> is a sum of type \<open>uint32_t\<close>.\<close>

fun sum_counts :: "nat list \<Rightarrow> Cursor list \<Rightarrow> uint32 \<Rightarrow> uint32" where
  "sum_counts [] cs all_counts = all_counts"
| "sum_counts (i # is) cs all_counts = sum_counts is cs (add32 all_counts (c_count (cs ! i)))"

lemma sum_counts_mod: "n < 2 ^ 32 \<Longrightarrow> sum_counts is cs n = (n + (\<Sum>i \<leftarrow> is. c_count (cs ! i))) mod 2 ^ 32"
  by (induction "is" arbitrary: n) (simp_all add: add32_def mod_add_left_eq add.assoc)

text \<open>The words under the cursors and the indexes of the smallest.\<close>

fun hits :: "uint64 \<Rightarrow> nat \<Rightarrow> uint64 list \<Rightarrow> nat list" where
  "hits m i [] = []"
| "hits m i (w # ws) = (if w = m then [i] else []) @ hits m (Suc i) ws"

fun least :: "uint64 \<Rightarrow> uint64 list \<Rightarrow> uint64" where
  "least m [] = m"
| "least m (w # ws) = least (if w < m then w else m) ws"

lemma least_le: "least m ws \<le> m"
proof (induction ws arbitrary: m)
  case (Cons w ws)
  have "least w ws \<le> w" "least m ws \<le> m" by (rule Cons)+
  then show ?case by simp
qed simp

lemma least_mem: "least m ws = m \<or> least m ws \<in> set ws"
  by (induction ws arbitrary: m) (auto split: if_splits)

lemma least_lower: "w \<in> set ws \<Longrightarrow> least m ws \<le> w"
proof (induction ws arbitrary: m)
  case (Cons v ws)
  then show ?case using least_le [of v ws] least_le [of m ws] by (auto intro: order_trans)
qed simp

lemma min_loop_eq:
  "min_loop ws i m idx = (least m ws, (if least m ws = m then idx else []) @ hits (least m ws) i ws)"
proof (induction ws arbitrary: i m idx)
  case (Cons w ws)
  consider "w < m" | "w = m" | "m < w" by linarith
  then show ?case
  proof cases
    case 1
    then have "least w ws < m" using least_le [of w ws] by simp
    then show ?thesis using 1 Cons [of "Suc i" w "[i]"] by simp
  next
    case 2
    then show ?thesis using Cons [of "Suc i" m "idx @ [i]"] by auto
  next
    case 3
    then have "least m ws \<noteq> w" using least_le [of m ws] by simp
    then show ?thesis using 3 Cons [of "Suc i" m idx] by simp
  qed
qed simp

lemma hits_range: "j \<in> set (hits m i ws) \<Longrightarrow> i \<le> j \<and> j < i + length ws \<and> ws ! (j - i) = m"
proof (induction ws arbitrary: i)
  case (Cons w ws)
  then show ?case by (cases "j = i") (force simp: nth_Cons' split: if_splits)+
qed simp

lemma hits_distinct: "distinct (hits m i ws)"
proof (induction ws arbitrary: i)
  case (Cons w ws)
  then show ?case using hits_range [of i m "Suc i" ws] by auto
qed simp

lemma hits_not_Nil: "m \<in> set ws \<Longrightarrow> hits m i ws \<noteq> []"
  by (induction ws arbitrary: i) auto

text \<open>Every round takes at least one posting list off the files.\<close>

definition weight :: "uint64 \<Rightarrow> Cursor \<Rightarrow> nat" where
  "weight max_wordid c = (if c_word c = max_wordid then 0 else Suc (length (c_rest c)))"

lemma advance_weight:
  assumes "advance m c = Some c'" "c_word c \<noteq> m"
  shows "weight m c' < weight m c"
proof (cases "fread64 (c_rest c)")
  case None
  then show ?thesis using assms by (auto simp: advance_def weight_def)
next
  case (Some p)
  then obtain w f where p: "fread64 (c_rest c) = Some (w, f)" by (cases p) auto
  then have "read_posting w f = Some c'" using assms(1) by (simp add: advance_def)
  then have "length (c_rest c') \<le> length f"
    by (auto simp: read_posting_def bind_eq_Some_conv dest!: fread32_length fread_array_length)
  then show ?thesis using fread64_length [OF p] assms(2) by (auto simp: weight_def)
qed

lemma take_loop_weight:
  "take_loop is m cs cap acc = Some (ds, cs') \<Longrightarrow> distinct is \<Longrightarrow> \<forall>i \<in> set is. i < length cs \<and> c_word (cs ! i) \<noteq> m
   \<Longrightarrow> sum_list (map (weight m) cs') + length is \<le> sum_list (map (weight m) cs)"
proof (induction "is" m cs cap acc rule: take_loop.induct)
  case (2 i "is" m cs cap acc)
  then obtain c where c: "advance m (cs ! i) = Some c" "take_loop is m (cs[i := c]) cap (acc @ c_docids (cs ! i)) = Some (ds, cs')"
    and g: "\<not> (mul32 (c_count (cs ! i)) 8 < 8 * c_count (cs ! i) \<or> cap < 8 * (length acc + c_count (cs ! i)))"
    by (auto simp: bind_eq_Some_conv Let_def split: if_splits)
  have i: "i < length cs" "c_word (cs ! i) \<noteq> m" using 2(4) by auto
  have "\<forall>j \<in> set is. j < length (cs[i := c]) \<and> c_word (cs[i := c] ! j) \<noteq> m"
    using 2(3,4) by (metis distinct.simps(2) length_list_update list.set_intros(2) nth_list_update_neq)
  then have "sum_list (map (weight m) cs') + length is \<le> sum_list (map (weight m) (cs[i := c]))"
    using 2(1) [OF refl g refl c] 2(3) by simp
  moreover have "sum_list (map (weight m) (cs[i := c])) + weight m (cs ! i) = sum_list (map (weight m) cs) + weight m c"
  proof -
    have l: "i < length (map (weight m) cs)" using i by simp
    have "weight m (cs ! i) \<le> sum_list (map (weight m) cs)"
      using i member_le_sum_list [of "weight m (cs ! i)" "map (weight m) cs"] by simp
    then show ?thesis using sum_list_update [OF l, of "weight m c"] i by (simp add: map_update)
  qed
  ultimately show ?case using advance_weight [OF c(1) i(2)] by simp
qed simp

text \<open>
  One round. \<open>indexs\<close> is a vector of \<open>int\<close>, so that an index of \<open>2 ^ 31\<close> or more is stored negative and
  used outside of the vectors. When every copy fits, \<open>all_docids\<close> is full.
\<close>

function merge_loop :: "uint64 \<Rightarrow> Cursor list \<Rightarrow> byte list \<Rightarrow> offsets \<Rightarrow> (byte list \<times> offsets) option" where
  "merge_loop max_wordid cs out_file offsets =
     (let (min_value, indexs) = min_loop (map c_word cs) 0 max_wordid []
      in if min_value = max_wordid then Some (out_file, offsets)
      else if list_ex (\<lambda>i. 2 ^ 31 \<le> i) indexs then None
      else
        let all_counts = sum_counts indexs cs 0 in
        (case take_loop indexs max_wordid cs (mul32 all_counts 8) [] of
          None \<Rightarrow> None
        | Some (all_docids, cs') \<Rightarrow>
            merge_loop max_wordid cs'
              (out_file @ fwrite32 all_counts @ fwrite64s (sort all_docids))
              (offset_put min_value (length out_file) offsets)))"
  by pat_completeness auto
termination
proof (relation "measure (\<lambda>(m, cs, out, offs). sum_list (map (weight m) cs))", goal_cases)
  case (2 m cs out offs r mn idx all t ds cs')
  let ?ws = "map c_word cs" and ?l = "least m (map c_word cs)"
  have mn: "mn = ?l" "idx = hits ?l 0 ?ws" using 2(1-3) by (auto simp: min_loop_eq)
  then have "?l \<in> set ?ws" using 2(3) least_mem [of m ?ws] by auto
  from hits_not_Nil [OF this] have ne: "idx \<noteq> []" using mn(2) by simp
  have "\<forall>i \<in> set idx. i < length cs \<and> c_word (cs ! i) \<noteq> m"
    using hits_range [of _ ?l 0 ?ws] 2(3) unfolding mn by fastforce
  from take_loop_weight [OF _ _ this] have "sum_list (map (weight m) cs') + length idx \<le> sum_list (map (weight m) cs)"
    using 2(6,7) hits_distinct unfolding mn by blast
  then show ?case using ne by (cases idx) auto
qed simp

declare merge_loop.simps [simp del]

section \<open>The whole program\<close>

fun open_files :: "string \<Rightarrow> nat \<Rightarrow> nat \<Rightarrow> files \<Rightarrow> Cursor list option" where
  "open_files name_input i 0 fs = Some []"
| "open_files name_input i (Suc n) fs = do {
     f \<leftarrow> fs (createName name_input i);
     c \<leftarrow> first_posting f;
     cs \<leftarrow> open_files name_input (Suc i) n fs;
     Some (c # cs)
   }"

definition mergeIndex :: "string \<Rightarrow> string \<Rightarrow> nat \<Rightarrow> uint64 list \<Rightarrow> files \<Rightarrow> files option" where
  "mergeIndex name_input name_output cnt_index_file wordset fs =
     (if wordset = [] then None
      else do {
        let fs = fs(name_output \<mapsto> []);
        let max_wordid = sz_add (last wordset) 1;
        cs \<leftarrow> open_files name_input 0 cnt_index_file fs;
        (out_file, offsets) \<leftarrow> merge_loop max_wordid cs (saveWordids wordset) [];
        let out_file = saveOffsets 0 offsets out_file;
        Some ((removeIndexFiles name_input cnt_index_file (fs(name_output \<mapsto> out_file))))
      })"

definition index_main :: "byte list \<Rightarrow> files \<Rightarrow> files option" where
  "index_main input fs = do {
     (cnt, wordset, fs) \<leftarrow> createIndexsFiles input ''index'' fs;
     mergeIndex ''index'' ''index'' cnt wordset fs
   }"

text \<open>\<open>readIndex\<close>: the table up to a word 0, then the lists of the first ten words.\<close>

function read_table :: "byte list \<Rightarrow> offsets \<Rightarrow> offsets option" where
  "read_table f offsets =
     (case fread64 f of
        None \<Rightarrow> None
      | Some (wordid, f1) \<Rightarrow>
          (case fread64 f1 of
             None \<Rightarrow> None
           | Some (off, f2) \<Rightarrow>
               if wordid = 0 then Some offsets else read_table f2 (offset_put wordid off offsets)))"
  by pat_completeness auto
termination by (relation "measure (\<lambda>(f, offs). length f)") (auto dest!: fread64_length)

declare read_table.simps [simp del]

fun read_lists :: "byte list \<Rightarrow> offsets \<Rightarrow> (uint64 \<times> uint64 list) list option" where
  "read_lists file [] = Some []"
| "read_lists file ((wordid, off) # r) = do {
     (n, f) \<leftarrow> fread32 (drop off file);
     (docid, f) \<leftarrow> fread_array (mul32 n 8) n f;
     rest \<leftarrow> read_lists file r;
     Some ((wordid, docid) # rest)
   }"

definition readIndex :: "byte list \<Rightarrow> (uint64 \<times> uint64 list) list option" where
  "readIndex file = do {
     offsets \<leftarrow> read_table file [];
     read_lists file (take 10 offsets)
   }"

end
