(* ===== verification/Index_Correct.thy ===== *)
theory Index_Correct
  imports Index_Merge
begin

text \<open>
  Correctness of the inverted index: the merge of sorted index files is the list of their words
  with the merged document lists, the table points at these lists, and \<open>readIndex\<close> reads them.
\<close>

section \<open>The merge\<close>

definition posting_ok :: "uint64 \<Rightarrow> uint64 \<times> uint64 list \<Rightarrow> bool" where
  "posting_ok m p \<longleftrightarrow> fst p < m \<and> length (snd p) < 2 ^ 29 \<and> (\<forall>d \<in> set (snd p). d < SZ)"

definition run_ok :: "uint64 \<Rightarrow> dict \<Rightarrow> bool" where
  "run_ok m r \<longleftrightarrow> m \<le> SZ \<and> asc (map fst r) \<and> (\<forall>p \<in> set r. posting_ok m p)"

text \<open>A cursor stands at the head of the postings that are left in its file.\<close>

definition stands :: "uint64 \<Rightarrow> Cursor \<Rightarrow> dict \<Rightarrow> bool" where
  "stands m c r \<longleftrightarrow> (case r of
      [] \<Rightarrow> c_word c = m
    | (w, ds) # r' \<Rightarrow> c_word c = w \<and> c_docids c = ds \<and> c_count c = length ds \<and> c_rest c = index_bytes r')"

definition keys :: "dict list \<Rightarrow> uint64 set" where
  "keys rs = (\<Union>r \<in> set rs. fst ` set r)"

definition drop_word :: "uint64 \<Rightarrow> dict \<Rightarrow> dict" where
  "drop_word w r = (case r of [] \<Rightarrow> [] | (k, s) # r' \<Rightarrow> if k = w then r' else r)"

definition merged_docs :: "dict list \<Rightarrow> uint64 \<Rightarrow> uint64 list" where
  "merged_docs rs w = concat (map (\<lambda>r. postings r w) rs)"

lemma run_ok_Cons:
  "run_ok m (p # r) \<longleftrightarrow> posting_ok m p \<and> run_ok m r \<and> (\<forall>q \<in> set r. fst p < fst q)"
  by (auto simp: run_ok_def)

lemma read_posting_write:
  assumes "posting_ok m p"
  shows "read_posting w (fwrite32 (length (snd p)) @ fwrite64s (snd p) @ f)
    = Some \<lparr>c_word = w, c_count = length (snd p), c_docids = snd p, c_rest = f\<rparr>"
  using assms by (simp add: read_posting_def posting_ok_def fread32_write fread_array_write)

lemma advance_stands:
  assumes "c_rest c = index_bytes r" "run_ok m r"
  shows "\<exists>c'. advance m c = Some c' \<and> stands m c' r"
proof (cases r)
  case Nil
  then show ?thesis using assms by (simp add: advance_def fread64_def index_bytes_def stands_def)
next
  case (Cons p r')
  then have p: "posting_ok m p" "fst p < SZ" using assms(2) by (auto simp: run_ok_def posting_ok_def)
  have "c_rest c = fwrite64 (fst p) @ fwrite32 (length (snd p)) @ fwrite64s (snd p) @ index_bytes r'"
    using assms(1) Cons by (simp add: index_bytes_def posting_bytes_def)
  then show ?thesis using read_posting_write [OF p(1)] p(2) Cons
    by (cases p) (simp add: advance_def fread64_write stands_def)
qed

lemma first_stands:
  assumes "run_ok m r" "r \<noteq> []"
  shows "\<exists>c. first_posting (index_bytes r) = Some c \<and> stands m c r"
proof -
  obtain p r' where r: "r = p # r'" using assms(2) by (cases r) auto
  then have p: "posting_ok m p" "fst p < SZ" using assms(1) by (auto simp: run_ok_def posting_ok_def)
  have "index_bytes r = fwrite64 (fst p) @ fwrite32 (length (snd p)) @ fwrite64s (snd p) @ index_bytes r'"
    using r by (simp add: index_bytes_def posting_bytes_def)
  then show ?thesis using read_posting_write [OF p(1)] p(2) r
    by (cases p) (simp add: first_posting_def fread64_write stands_def)
qed

text \<open>The smallest word of the cursors is the smallest word that is left.\<close>

lemma keys_Cons [simp]: "keys (r # rs) = fst ` set r \<union> keys rs" "keys [] = {}"
  by (simp_all add: keys_def)

lemma finite_keys [simp]: "finite (keys rs)"
  by (simp add: keys_def)

lemma stands_word:
  assumes "stands m c r" "run_ok m r"
  shows "c_word c \<le> m" "\<forall>k \<in> fst ` set r. c_word c \<le> k" "c_word c = m \<or> c_word c \<in> fst ` set r"
    "c_word c = m \<longleftrightarrow> r = []"
  using assms by (cases r; auto simp: stands_def run_ok_Cons posting_ok_def; fastforce)+

lemma least_keys:
  assumes "list_all2 (stands m) cs rs" "\<forall>r \<in> set rs. run_ok m r"
  shows "keys rs \<noteq> {} \<Longrightarrow> least m (map c_word cs) = Min (keys rs) \<and> Min (keys rs) < m"
    "keys rs = {} \<Longrightarrow> least m (map c_word cs) = m"
proof -
  have word: "\<exists>c \<in> set cs. c_word c \<le> k" if "k \<in> keys rs" for k
    using assms that
  proof (induction rule: list_all2_induct)
    case (Cons c cs r rs)
    then show ?case using stands_word(2) [of m c r] by auto
  qed simp
  have key: "c_word c = m \<or> c_word c \<in> keys rs" if "c \<in> set cs" for c
    using assms that
  proof (induction rule: list_all2_induct)
    case (Cons c cs r rs)
    then show ?case using stands_word(3) [of m c r] by auto
  qed simp
  have small: "k < m" if "k \<in> keys rs" for k
    using that assms(2) by (auto simp: keys_def run_ok_def posting_ok_def)
  show "least m (map c_word cs) = m" if "keys rs = {}"
    using least_mem [of m "map c_word cs"] key that by auto
  show "least m (map c_word cs) = Min (keys rs) \<and> Min (keys rs) < m" if ne: "keys rs \<noteq> {}"
  proof
    show lt: "Min (keys rs) < m" using small Min_in [OF finite_keys ne] by blast
    obtain c where "c \<in> set cs" "c_word c \<le> Min (keys rs)" using word Min_in [OF finite_keys ne] by blast
    then have le: "least m (map c_word cs) \<le> Min (keys rs)"
      using least_lower [of "c_word c" "map c_word cs" m] by auto
    then have "least m (map c_word cs) \<in> keys rs"
      using least_mem [of m "map c_word cs"] key lt by fastforce
    then show "least m (map c_word cs) = Min (keys rs)" using le Min_le [OF finite_keys] by (metis le_antisym)
  qed
qed

text \<open>One round takes the lists of this word from all files.\<close>

lemma stands_take:
  assumes "stands m c r" "run_ok m r" "c_word c = w" "w < m"
  shows "\<exists>c'. advance m c = Some c' \<and> stands m c' (drop_word w r) \<and> c_docids c = postings r w \<and> c_count c = length (postings r w)
    \<and> length (postings r w) < 2 ^ 29"
proof -
  obtain s r' where r: "r = (w, s) # r'" "c_docids c = s" "c_count c = length s" "c_rest c = index_bytes r'"
    using assms by (cases r) (auto simp: stands_def)
  have "run_ok m r'" "length s < 2 ^ 29" using assms(2) r(1) by (simp_all add: run_ok_Cons posting_ok_def)
  then show ?thesis using advance_stands [OF r(4)] r by (simp add: drop_word_def)
qed

lemma stands_skip:
  assumes "stands m c r" "run_ok m r" "c_word c \<noteq> w" "\<forall>k \<in> fst ` set r. w \<le> k"
  shows "postings r w = []" "drop_word w r = r"
proof -
  have "w \<notin> fst ` set r"
  proof
    assume w: "w \<in> fst ` set r"
    then have "c_word c \<le> w" using stands_word(2) [OF assms(1,2)] by blast
    moreover have "c_word c \<in> fst ` set r" using stands_word(3,4) [OF assms(1,2)] w by auto
    ultimately show False using assms(3,4) by fastforce
  qed
  then show "postings r w = []" "drop_word w r = r"
    using postings_absent by (auto simp: drop_word_def split: list.split)
qed

lemma take_loop_step:
  assumes "stands m c r" "run_ok m r" "c_word c = w" "w < m"
  shows "take_loop (length pre # is) m (pre @ c # cs) cap acc
    = (if cap < 8 * (length acc + length (postings r w)) then None
       else take_loop is m (pre @ the (advance m c) # cs) cap (acc @ postings r w))"
    "stands m (the (advance m c)) (drop_word w r)"
proof -
  obtain c' where c': "advance m c = Some c'" "stands m c' (drop_word w r)" "c_docids c = postings r w"
    "c_count c = length (postings r w)" "length (postings r w) < 2 ^ 29"
    using stands_take [OF assms] by blast
  have "\<not> mul32 (length (postings r w)) 8 < 8 * length (postings r w)" using mul32_8 c'(5) by (simp add: not_less)
  then show "take_loop (length pre # is) m (pre @ c # cs) cap acc
    = (if cap < 8 * (length acc + length (postings r w)) then None
       else take_loop is m (pre @ the (advance m c) # cs) cap (acc @ postings r w))"
    using c' by (simp add: Let_def)
  show "stands m (the (advance m c)) (drop_word w r)" using c' by simp
qed

lemma take_loop_hits:
  assumes "list_all2 (stands m) cs rs" "\<forall>r \<in> set rs. run_ok m r" "\<forall>k \<in> keys rs. w \<le> k" "w < m"
    "8 * length acc \<le> cap"
  shows "if 8 * (length acc + length (merged_docs rs w)) \<le> cap
    then \<exists>cs'. take_loop (hits w (length pre) (map c_word cs)) m (pre @ cs) cap acc = Some (acc @ merged_docs rs w, pre @ cs')
      \<and> list_all2 (stands m) cs' (map (drop_word w) rs)
    else take_loop (hits w (length pre) (map c_word cs)) m (pre @ cs) cap acc = None"
  using assms(1-3,5)
proof (induction cs rs arbitrary: pre acc rule: list_all2_induct)
  case Nil
  then show ?case by (simp add: merged_docs_def)
next
  case (Cons c cs r rs)
  have ok: "run_ok m r" "\<forall>r \<in> set rs. run_ok m r" "\<forall>k \<in> keys rs. w \<le> k" "\<forall>k \<in> fst ` set r. w \<le> k"
    using Cons.prems by auto
  show ?case
  proof (cases "c_word c = w")
    case True
    let ?c = "the (advance m c)" and ?acc = "acc @ postings r w"
    note st = take_loop_step [OF Cons.hyps(1) ok(1) True assms(4)]
    have h: "hits w (length pre) (map c_word (c # cs)) = length pre # hits w (length (pre @ [?c])) (map c_word cs)"
      using True by simp
    have md: "merged_docs (r # rs) w = postings r w @ merged_docs rs w" by (simp add: merged_docs_def)
    show ?thesis
    proof (cases "cap < 8 * (length acc + length (postings r w))")
      case over: True
      then show ?thesis unfolding h st(1) md by simp
    next
      case False
      then have IH: "if 8 * (length ?acc + length (merged_docs rs w)) \<le> cap
        then \<exists>cs'. take_loop (hits w (length (pre @ [?c])) (map c_word cs)) m ((pre @ [?c]) @ cs) cap ?acc
            = Some (?acc @ merged_docs rs w, (pre @ [?c]) @ cs') \<and> list_all2 (stands m) cs' (map (drop_word w) rs)
        else take_loop (hits w (length (pre @ [?c])) (map c_word cs)) m ((pre @ [?c]) @ cs) cap ?acc = None"
        using Cons.IH [OF ok(2,3), of ?acc "pre @ [?c]"] by simp
      have run: "take_loop (hits w (length pre) (map c_word (c # cs))) m (pre @ c # cs) cap acc
          = take_loop (hits w (length (pre @ [?c])) (map c_word cs)) m ((pre @ [?c]) @ cs) cap ?acc"
        unfolding h st(1) using False by simp
      show ?thesis
      proof (cases "8 * (length ?acc + length (merged_docs rs w)) \<le> cap")
        case fits: True
        then obtain cs' where "take_loop (hits w (length pre) (map c_word (c # cs))) m (pre @ c # cs) cap acc
            = Some (?acc @ merged_docs rs w, (pre @ [?c]) @ cs')" "list_all2 (stands m) cs' (map (drop_word w) rs)"
          using IH unfolding run by auto
        then show ?thesis using fits st(2) unfolding md
          by (auto simp: intro!: exI [of _ "?c # cs'"])
      next
        case over: False
        then show ?thesis using IH unfolding run md by (simp add: add.assoc)
      qed
    qed
  next
    case False
    note sk = stands_skip [OF Cons.hyps(1) ok(1) False ok(4)]
    have h: "hits w (length pre) (map c_word (c # cs)) = hits w (length (pre @ [c])) (map c_word cs)" using False by simp
    have md: "merged_docs (r # rs) w = merged_docs rs w" using sk(1) by (simp add: merged_docs_def)
    have IH: "if 8 * (length acc + length (merged_docs rs w)) \<le> cap
      then \<exists>cs'. take_loop (hits w (length (pre @ [c])) (map c_word cs)) m ((pre @ [c]) @ cs) cap acc
          = Some (acc @ merged_docs rs w, (pre @ [c]) @ cs') \<and> list_all2 (stands m) cs' (map (drop_word w) rs)
      else take_loop (hits w (length (pre @ [c])) (map c_word cs)) m ((pre @ [c]) @ cs) cap acc = None"
      using Cons.IH [OF ok(2,3) Cons.prems(3), of "pre @ [c]"] .
    show ?thesis
    proof (cases "8 * (length acc + length (merged_docs rs w)) \<le> cap")
      case True
      then obtain cs' where "take_loop (hits w (length (pre @ [c])) (map c_word cs)) m ((pre @ [c]) @ cs) cap acc
          = Some (acc @ merged_docs rs w, (pre @ [c]) @ cs')" "list_all2 (stands m) cs' (map (drop_word w) rs)"
        using IH by auto
      then show ?thesis using True sk(2) Cons.hyps(1) unfolding h md by (simp add: exI [of _ "c # cs'"])
    next
      case False
      then show ?thesis using IH unfolding h md by simp
    qed
  qed
qed

lemma counts_hits:
  assumes "list_all2 (stands m) cs rs" "\<forall>r \<in> set rs. run_ok m r" "\<forall>k \<in> keys rs. w \<le> k" "w < m"
  shows "(\<Sum>i \<leftarrow> hits w (length pre) (map c_word cs). c_count ((pre @ cs) ! i)) = length (merged_docs rs w)"
  using assms(1-3)
proof (induction cs rs arbitrary: pre rule: list_all2_induct)
  case Nil
  then show ?case by (simp add: merged_docs_def)
next
  case (Cons c cs r rs)
  have ok: "run_ok m r" "\<forall>r \<in> set rs. run_ok m r" "\<forall>k \<in> keys rs. w \<le> k" "\<forall>k \<in> fst ` set r. w \<le> k"
    using Cons.prems by auto
  have IH: "(\<Sum>i \<leftarrow> hits w (Suc (length pre)) (map c_word cs). c_count ((pre @ c # cs) ! i)) = length (merged_docs rs w)"
    using Cons.IH [OF ok(2,3), of "pre @ [c]"] by simp
  show ?case
  proof (cases "c_word c = w")
    case True
    then show ?thesis using IH stands_take [OF Cons.hyps(1) ok(1) True assms(4)] by (auto simp: merged_docs_def)
  next
    case False
    then show ?thesis using IH stands_skip [OF Cons.hyps(1) ok(1) False ok(4)] by (simp add: merged_docs_def)
  qed
qed

section \<open>The merged lists\<close>

definition merged :: "dict list \<Rightarrow> dict" where
  "merged rs = map (\<lambda>w. (w, sort (merged_docs rs w))) (sorted_list_of_set (keys rs))"

definition list_bytes :: "uint64 \<times> uint64 list \<Rightarrow> byte list" where
  "list_bytes p = fwrite32 (length (snd p)) @ fwrite64s (snd p)"

text \<open>Where the lists stand when the first is written at \<open>pos\<close>.\<close>

fun table :: "nat \<Rightarrow> dict \<Rightarrow> offsets" where
  "table pos [] = []"
| "table pos (p # r) = (fst p, pos) # table (pos + length (list_bytes p)) r"

lemma length_list_bytes [simp]: "length (list_bytes p) = 4 + 8 * length (snd p)"
  by (simp add: list_bytes_def)

lemma offset_put_last: "\<forall>k \<in> fst ` set offs. k < w \<Longrightarrow> offset_put w pos offs = offs @ [(w, pos)]"
  by (induction w pos offs rule: offset_put.induct) auto

lemma drop_word_run:
  assumes "run_ok m r" "\<forall>k \<in> fst ` set r. w \<le> k"
  shows "run_ok m (drop_word w r)" "fst ` set (drop_word w r) = fst ` set r - {w}"
    "v \<noteq> w \<Longrightarrow> postings (drop_word w r) v = postings r v"
proof -
  have tl: "w \<notin> fst ` set r'" if "r = (k, s) # r'" "k = w" for k s r'
    using assms(1) that by (auto simp: run_ok_Cons)
  have hd: "w \<notin> fst ` set r" if "r = (k, s) # r'" "k \<noteq> w" for k s r'
    using assms that by (fastforce simp: run_ok_Cons)
  show "run_ok m (drop_word w r)" using assms(1) by (cases r) (auto simp: drop_word_def run_ok_Cons)
  show "fst ` set (drop_word w r) = fst ` set r - {w}"
  proof (cases r)
    case (Cons p r')
    obtain k s where p: "p = (k, s)" by force
    show ?thesis using tl [of k s r'] hd [of k s r'] Cons p by (cases "k = w") (simp_all add: drop_word_def)
  qed (simp add: drop_word_def)
  show "v \<noteq> w \<Longrightarrow> postings (drop_word w r) v = postings r v"
    by (cases r) (auto simp: drop_word_def)
qed

lemma drop_word_all:
  assumes "\<forall>r \<in> set rs. run_ok m r" "\<forall>k \<in> keys rs. w \<le> k"
  shows "\<forall>r \<in> set (map (drop_word w) rs). run_ok m r" "keys (map (drop_word w) rs) = keys rs - {w}"
    "v \<noteq> w \<Longrightarrow> merged_docs (map (drop_word w) rs) v = merged_docs rs v"
  using assms
proof (induction rs)
  case (Cons r rs)
  {
    case 1
    then show ?case using Cons.IH(1) drop_word_run(1) by simp
  next
    case 2
    then show ?case using Cons.IH(2) drop_word_run(2) [of m r w] by auto
  next
    case 3
    then show ?case using Cons.IH(3) drop_word_run(3) [of m r w v] by (simp add: merged_docs_def)
  }
qed (auto simp: merged_docs_def)

lemma merged_step:
  assumes "\<forall>r \<in> set rs. run_ok m r" "keys rs \<noteq> {}" "w = Min (keys rs)"
  shows "merged rs = (w, sort (merged_docs rs w)) # merged (map (drop_word w) rs)"
proof -
  have le: "\<forall>k \<in> keys rs. w \<le> k" using assms(3) by simp
  have s: "sorted_list_of_set (keys rs) = w # sorted_list_of_set (keys rs - {w})"
    using sorted_list_of_set_nonempty [OF finite_keys assms(2)] assms(3) by simp
  have "map (\<lambda>v. (v, sort (merged_docs rs v))) (sorted_list_of_set (keys rs - {w}))
      = map (\<lambda>v. (v, sort (merged_docs (map (drop_word w) rs) v))) (sorted_list_of_set (keys rs - {w}))"
    using drop_word_all(3) [OF assms(1) le] by (intro map_cong) auto
  then show ?thesis using drop_word_all(2) [OF assms(1) le] s by (simp add: merged_def)
qed

text \<open>One round of the loop, which overflows its buffer when the list of the word is too long.\<close>

lemma merge_round:
  assumes "list_all2 (stands m) cs rs" "\<forall>r \<in> set rs. run_ok m r" "keys rs \<noteq> {}" "w = Min (keys rs)" "length rs \<le> 2 ^ 31"
  shows "2 ^ 29 \<le> length (merged_docs rs w) \<Longrightarrow> merge_loop m cs out offs = None"
    "length (merged_docs rs w) < 2 ^ 29 \<Longrightarrow> \<exists>cs'. list_all2 (stands m) cs' (map (drop_word w) rs)
      \<and> merge_loop m cs out offs
        = merge_loop m cs' (out @ list_bytes (w, sort (merged_docs rs w))) (offset_put w (length out) offs)"
proof -
  let ?i = "hits w 0 (map c_word cs)" and ?n = "length (merged_docs rs w)"
  have l: "least m (map c_word cs) = w" "w < m" using least_keys(1) [OF assms(1,2,3)] assms(4) by blast+
  have le: "\<forall>k \<in> keys rs. w \<le> k" using assms(4) by simp
  have "\<forall>i \<in> set ?i. i < 2 ^ 31"
    using hits_range [of _ w 0 "map c_word cs"] list_all2_lengthD [OF assms(1)] assms(5) by fastforce
  then have small: "\<not> list_ex (\<lambda>i. 2 ^ 31 \<le> i) ?i" by (simp add: list_ex_iff linorder_not_le)
  have sum: "sum_counts ?i cs 0 = ?n mod 2 ^ 32"
    using counts_hits [OF assms(1,2) le l(2), of "[]"] sum_counts_mod [of 0 ?i cs] by simp
  have cap: "8 * ?n \<le> mul32 (sum_counts ?i cs 0) 8 \<longleftrightarrow> ?n < 2 ^ 29"
    using mul32_8 [of ?n] unfolding sum by (simp add: mul32_def mod_mult_left_eq)
  note T = take_loop_hits [OF assms(1,2) le l(2), of "[]" "mul32 (sum_counts ?i cs 0) 8" "[]"]
  have run: "merge_loop m cs out offs = (case take_loop ?i m cs (mul32 (sum_counts ?i cs 0) 8) [] of
        None \<Rightarrow> None
      | Some (all_docids, cs') \<Rightarrow> merge_loop m cs' (out @ fwrite32 (sum_counts ?i cs 0) @ fwrite64s (sort all_docids))
          (offset_put w (length out) offs))"
    using l small by (subst merge_loop.simps) (simp add: min_loop_eq Let_def)
  show "merge_loop m cs out offs = None" if "2 ^ 29 \<le> ?n"
  proof -
    have "\<not> 8 * ?n \<le> mul32 (sum_counts ?i cs 0) 8" using that cap by simp
    then show ?thesis using T run by simp
  qed
  show "\<exists>cs'. list_all2 (stands m) cs' (map (drop_word w) rs) \<and> merge_loop m cs out offs
        = merge_loop m cs' (out @ list_bytes (w, sort (merged_docs rs w))) (offset_put w (length out) offs)"
    if "?n < 2 ^ 29"
  proof -
    have "8 * ?n \<le> mul32 (sum_counts ?i cs 0) 8" using that cap by simp
    then obtain cs' where "take_loop ?i m cs (mul32 (sum_counts ?i cs 0) 8) [] = Some (merged_docs rs w, cs')"
      "list_all2 (stands m) cs' (map (drop_word w) rs)" using T by auto
    then show ?thesis using run sum that by (intro exI [of _ cs']) (simp add: list_bytes_def)
  qed
qed

lemma merge_loop_index:
  assumes "list_all2 (stands m) cs rs" "\<forall>r \<in> set rs. run_ok m r" "length rs \<le> 2 ^ 31"
    "\<forall>w \<in> keys rs. length (merged_docs rs w) < 2 ^ 29" "\<forall>k \<in> fst ` set offs. \<forall>w \<in> keys rs. k < w"
  shows "merge_loop m cs out offs
    = Some (out @ concat (map list_bytes (merged rs)), offs @ table (length out) (merged rs))"
  using assms
proof (induction "card (keys rs)" arbitrary: cs rs out offs)
  case 0
  then have e: "keys rs = {}" by simp
  then have "least m (map c_word cs) = m" using least_keys(2) [OF 0(2,3)] by blast
  then show ?case using e by (subst merge_loop.simps) (simp add: min_loop_eq merged_def)
next
  case (Suc n)
  then have ne: "keys rs \<noteq> {}" by auto
  let ?w = "Min (keys rs)" and ?rs = "map (drop_word (Min (keys rs))) rs"
  have le: "\<forall>k \<in> keys rs. ?w \<le> k" by simp
  have wk: "?w \<in> keys rs" using ne by simp
  let ?p = "(?w, sort (merged_docs rs ?w))"
  note D = drop_word_all [OF Suc(4) le]
  have put: "offset_put ?w (length out) offs = offs @ [(?w, length out)]"
    using Suc(7) wk by (intro offset_put_last) blast
  obtain cs' where t: "list_all2 (stands m) cs' ?rs"
    "merge_loop m cs out offs = merge_loop m cs' (out @ list_bytes ?p) (offs @ [(?w, length out)])"
    using merge_round(2) [OF Suc(3,4) ne refl Suc(5), of out offs] Suc(6) wk unfolding put by blast
  note t(2)
  also have "merge_loop m cs' (out @ list_bytes ?p) (offs @ [(?w, length out)])
    = Some ((out @ list_bytes ?p) @ concat (map list_bytes (merged ?rs)),
      (offs @ [(?w, length out)]) @ table (length (out @ list_bytes ?p)) (merged ?rs))"
  proof (rule Suc(1) [OF _ t(1) D(1)])
    show "n = card (keys ?rs)" using Suc(2) wk D(2) by simp
    show "length ?rs \<le> 2 ^ 31" using Suc(5) by simp
    show "\<forall>v \<in> keys ?rs. length (merged_docs ?rs v) < 2 ^ 29" using Suc(6) D(2,3) by auto
    have "?w < v" if "v \<in> keys ?rs" for v using that le D(2) by (metis DiffE insertI1 le_neq_implies_less)
    then show "\<forall>k \<in> fst ` set (offs @ [(?w, length out)]). \<forall>v \<in> keys ?rs. k < v"
      using Suc(7) D(2) by auto
  qed
  finally show ?case using merged_step [OF Suc(4) ne refl] by simp
qed

text \<open>One word with too many documents is enough.\<close>

lemma merge_loop_overflow:
  assumes "list_all2 (stands m) cs rs" "\<forall>r \<in> set rs. run_ok m r" "length rs \<le> 2 ^ 31"
    "w \<in> keys rs" "2 ^ 29 \<le> length (merged_docs rs w)"
  shows "merge_loop m cs out offs = None"
  using assms
proof (induction "card (keys rs)" arbitrary: cs rs out offs)
  case 0
  then show ?case by simp
next
  case (Suc n)
  then have ne: "keys rs \<noteq> {}" by auto
  let ?v = "Min (keys rs)" and ?rs = "map (drop_word (Min (keys rs))) rs"
  have le: "\<forall>k \<in> keys rs. ?v \<le> k" by simp
  have vk: "?v \<in> keys rs" using ne by simp
  note D = drop_word_all [OF Suc(4) le]
  show ?case
  proof (cases "2 ^ 29 \<le> length (merged_docs rs ?v)")
    case True
    then show ?thesis by (rule merge_round(1) [OF Suc(3,4) ne refl Suc(5)])
  next
    case False
    then have v: "?v \<noteq> w" using Suc(7) by auto
    obtain cs' where t: "list_all2 (stands m) cs' ?rs" "merge_loop m cs out offs
        = merge_loop m cs' (out @ list_bytes (?v, sort (merged_docs rs ?v))) (offset_put ?v (length out) offs)"
      using merge_round(2) [OF Suc(3,4) ne refl Suc(5), of out offs] False by (auto simp: not_le)
    show ?thesis unfolding t(2)
    proof (rule Suc(1) [OF _ t(1) D(1)])
      show "n = card (keys ?rs)" using Suc(2) vk D(2) by simp
      show "length ?rs \<le> 2 ^ 31" using Suc(5) by simp
      show "w \<in> keys ?rs" using Suc(6) v D(2) by auto
      show "2 ^ 29 \<le> length (merged_docs ?rs w)" using Suc(7) D(3) [of w] v by auto
    qed
  qed
qed

section \<open>The table of the result\<close>

text \<open>The file that the merge leaves, as the documentation describes it.\<close>

definition index_file :: "dict \<Rightarrow> byte list" where
  "index_file m = concat (map (\<lambda>(w, pos). fwrite64 w @ fwrite64 pos) (table (16 * length m + 16) m))
     @ fwrite64 0 @ fwrite64 0 @ concat (map list_bytes m)"

lemma map_fst_table [simp]: "map fst (table pos m) = map fst m" "length (table pos m) = length m"
  by (induction m arbitrary: pos) auto

lemma length_saveWordids: "length (saveWordids ws) = 16 * length ws + 16"
  by (simp add: saveWordids_def length_concat comp_def sum_list_triv)

lemma saveOffsets_table:
  "saveOffsets (length pre) offs (pre @ concat (map (\<lambda>w. fwrite64 w @ fwrite64 0) (map fst offs)) @ rest)
   = pre @ concat (map (\<lambda>(w, pos). fwrite64 w @ fwrite64 pos) offs) @ rest"
proof (induction offs arbitrary: pre)
  case (Cons p offs)
  obtain w pos where p: "p = (w, pos)" by force
  let ?t = "concat (map (\<lambda>w. fwrite64 w @ fwrite64 0) (map fst offs)) @ rest"
  have "write_at (length pre + 8) (fwrite64 pos) (pre @ (fwrite64 w @ fwrite64 0) @ ?t)
      = (pre @ fwrite64 w @ fwrite64 pos) @ ?t"
    by (simp add: write_at_def)
  then show ?case using Cons [of "pre @ fwrite64 w @ fwrite64 pos"] p by (simp add: add.commute)
qed simp

lemma saveOffsets_index_file:
  assumes "map fst m = ws"
  shows "saveOffsets 0 (table (length (saveWordids ws)) m) (saveWordids ws @ concat (map list_bytes m)) = index_file m"
proof -
  let ?t = "table (length (saveWordids ws)) m"
  have "length ws = length m" using assms by auto
  then have l: "length (saveWordids ws) = 16 * length m + 16" by (simp add: length_saveWordids)
  have "ws = map fst ?t" using assms by simp
  then have "saveWordids ws @ concat (map list_bytes m)
      = concat (map (\<lambda>w. fwrite64 w @ fwrite64 0) (map fst ?t)) @ fwrite64 0 @ fwrite64 0 @ concat (map list_bytes m)"
    unfolding saveWordids_def by simp
  moreover have "saveOffsets (length ([] :: byte list)) ?t
      ([] @ concat (map (\<lambda>w. fwrite64 w @ fwrite64 0) (map fst ?t)) @ fwrite64 0 @ fwrite64 0 @ concat (map list_bytes m))
      = [] @ concat (map (\<lambda>(w, pos). fwrite64 w @ fwrite64 pos) ?t) @ fwrite64 0 @ fwrite64 0 @ concat (map list_bytes m)"
    by (rule saveOffsets_table)
  ultimately have "saveOffsets 0 ?t (saveWordids ws @ concat (map list_bytes m))
      = concat (map (\<lambda>(w, pos). fwrite64 w @ fwrite64 pos) ?t) @ fwrite64 0 @ fwrite64 0 @ concat (map list_bytes m)"
    by (simp only: list.size append_Nil)
  then show ?thesis unfolding index_file_def l .
qed

section \<open>From the input to the index\<close>

text \<open>The inverted index: every word in order with the numbers of its documents in order.\<close>

definition docs_with :: "doc list \<Rightarrow> uint64 \<Rightarrow> uint64 list" where
  "docs_with ds w = sort (remdups (map fst (filter (\<lambda>x. w \<in> set (snd x)) ds)))"

definition words_in :: "doc list \<Rightarrow> uint64 list" where
  "words_in ds = sort (remdups (concat (map snd ds)))"

definition inverted :: "doc list \<Rightarrow> dict" where
  "inverted ds = map (\<lambda>w. (w, docs_with ds w)) (words_in ds)"

lemma docs_with_sorted: "docs_with ds w = sorted_list_of_set (docs_of ds w)"
proof -
  have "docs_of ds w = set (map fst (filter (\<lambda>x. w \<in> set (snd x)) ds))" by (force simp: docs_of_def)
  then show ?thesis by (simp only: docs_with_def sorted_list_of_set_sort_remdups)
qed

lemma words_in_sorted: "words_in ds = sorted_list_of_set (words_of_docs ds)"
proof -
  have "words_of_docs ds = set (concat (map snd ds))" by (auto simp: words_of_docs_def)
  then show ?thesis by (simp only: words_in_def sorted_list_of_set_sort_remdups)
qed

text \<open>
  A well-formed input: numbers of documents that differ, and so few documents that the indexes of
  the batches are of type \<open>int\<close>.
\<close>

definition input_ok :: "doc list \<Rightarrow> bool" where
  "input_ok ds \<longleftrightarrow> (\<forall>x \<in> set ds. doc_ok x) \<and> distinct (map fst ds) \<and> length ds \<le> COUNT_DOCID * (2 ^ 31 - 1)"

text \<open>
  The products of 32 bits do not wrap: no document has \<open>2 ^ 29\<close> words, no word so many documents.
\<close>

definition docs_fit :: "doc list \<Rightarrow> bool" where
  "docs_fit ds \<longleftrightarrow> (\<forall>x \<in> set ds. doc_fits x)"

definition lists_fit :: "doc list \<Rightarrow> bool" where
  "lists_fit ds \<longleftrightarrow> (\<forall>w \<in> set (words_in ds). length (docs_with ds w) < 2 ^ 29)"

lemma docs_of_subset: "docs_of ds w \<subseteq> set (map fst ds)"
  by (force simp: docs_of_def)

lemma finite_docs [simp]: "finite (docs_of ds w)" "finite (words_of_docs ds)"
proof -
  show "finite (docs_of ds w)" using docs_of_subset by (rule finite_subset) simp
  show "finite (words_of_docs ds)" by (simp add: words_of_docs_def)
qed

lemma keys_batches: "keys (batches [] 0 ds) = words_of_docs ds"
  using batches_keys [where m = "[]" and c = 0 and ds = ds] by (simp add: keys_def)

lemma merged_docs_batches:
  assumes "distinct (map fst ds)"
  shows "set (merged_docs (batches [] 0 ds) w) = docs_of ds w" "distinct (merged_docs (batches [] 0 ds) w)"
    "length (merged_docs (batches [] 0 ds) w) = length (docs_with ds w)"
proof -
  have nil: "dict_ok []" by (simp add: dict_ok_def)
  show s: "set (merged_docs (batches [] 0 ds) w) = docs_of ds w"
    using batches_postings [OF nil, of w 0 ds] by (simp add: merged_docs_def)
  show d: "distinct (merged_docs (batches [] 0 ds) w)"
    unfolding merged_docs_def using batches_distinct [OF nil assms] by simp
  show "length (merged_docs (batches [] 0 ds) w) = length (docs_with ds w)"
    using distinct_card [OF d] s by (simp add: docs_with_sorted)
qed

lemma merged_batches:
  assumes "distinct (map fst ds)"
  shows "merged (batches [] 0 ds) = inverted ds"
proof -
  have "sort (merged_docs (batches [] 0 ds) w) = sorted_list_of_set (docs_of ds w)" for w
    using merged_docs_batches [OF assms, of w] sorted_list_of_set_sort_remdups [of "merged_docs (batches [] 0 ds) w"]
    by (simp add: distinct_remdups_id)
  then show ?thesis by (simp add: merged_def inverted_def keys_batches docs_with_sorted words_in_sorted)
qed

lemma postings_member: "asc (map fst m) \<Longrightarrow> (w, s) \<in> set m \<Longrightarrow> postings m w = s"
  by (induction m w rule: postings.induct) force+

lemma batches_run:
  assumes "input_ok ds" "\<forall>w \<in> words_of_docs ds. w < M" "M \<le> SZ"
  shows "\<forall>r \<in> set (batches [] 0 ds). run_ok M r"
proof
  fix r assume r: "r \<in> set (batches [] 0 ds)"
  have i: "distinct (map fst ds)" "\<forall>x \<in> set ds. doc_ok x" using assms(1) by (auto simp: input_ok_def)
  have ok: "dict_ok r" using batches_ok [of "[]" 0 ds] r by (simp add: dict_ok_def)
  have "posting_ok M (w, s)" if p: "(w, s) \<in> set r" for w s
  proof -
    have s: "postings r w = s" using postings_member ok p by (simp add: dict_ok_def)
    have "w \<in> keys (batches [] 0 ds)" using r p by (force simp: keys_def)
    then have "w < M" using assms(2) keys_batches by simp
    moreover have sub: "set s \<subseteq> docs_of ds w"
      using merged_docs_batches(1) [OF i(1), of w] r s by (auto simp: merged_docs_def)
    moreover have "\<forall>d \<in> docs_of ds w. d < SZ" using i(2) by (auto simp: docs_of_def doc_ok_def)
    moreover have "length s < 2 ^ 29"
    proof -
      have "length (postings r w) \<le> COUNT_DOCID"
        using batches_short [of "[]" 0 ds] r by (simp add: dict_ok_def COUNT_DOCID_def)
      then show ?thesis using s by (simp add: COUNT_DOCID_def)
    qed
    ultimately show ?thesis by (auto simp: posting_ok_def)
  qed
  then show "run_ok M r" using ok assms(3) by (auto simp: run_ok_def dict_ok_def)
qed

lemma open_files_stand:
  assumes "\<forall>i < length rs. fs (createName name (n + i)) = Some (index_bytes (rs ! i))"
    "\<forall>r \<in> set rs. run_ok m r \<and> r \<noteq> []"
  shows "\<exists>cs. open_files name n (length rs) fs = Some cs \<and> list_all2 (stands m) cs rs"
  using assms
proof (induction rs arbitrary: n)
  case (Cons r rs)
  have "\<forall>i < length rs. fs (createName name (Suc n + i)) = Some (index_bytes (rs ! i))"
    using Cons.prems(1) by (metis Suc_less_eq add_Suc_shift length_Cons nth_Cons_Suc)
  from Cons.IH [OF this] obtain cs where
    cs: "open_files name (Suc n) (length rs) fs = Some cs" "list_all2 (stands m) cs rs"
    using Cons.prems(2) by auto
  obtain c where "first_posting (index_bytes r) = Some c" "stands m c r"
    using first_stands [of m r] Cons.prems(2) by auto
  moreover have "fs (createName name n) = Some (index_bytes r)" using Cons.prems(1) [rule_format, of 0] by simp
  ultimately show ?case using cs by simp
qed simp


lemma removed: "removeIndexFiles name n fs f = (if \<exists>i < n. f = createName name i then None else fs f)"
  by (induction n) (auto simp: less_Suc_eq)

text \<open>The state of the files when the merge starts.\<close>

lemma files_before_merge:
  assumes "\<forall>x \<in> set ds. doc_ok x" "docs_fit ds"
  shows "createIndexsFiles (input_of ds) name fs = Some (length (batches [] 0 ds),
      sorted_list_of_set (words_of_docs ds), with_files name 0 (batches [] 0 ds) fs)"
    "\<forall>i < length (batches [] 0 ds).
      ((with_files name 0 (batches [] 0 ds) fs)(name \<mapsto> x)) (createName name (0 + i)) = Some (index_bytes (batches [] 0 ds ! i))"
proof -
  have k: "asc (all_keys (batches [] 0 ds) [])" "set (all_keys (batches [] 0 ds) []) = words_of_docs ds"
    using all_keys_eq [of "[]" "batches [] 0 ds"] keys_batches [of ds] by (simp_all add: keys_def)
  then have "all_keys (batches [] 0 ds) [] = sorted_list_of_set (words_of_docs ds)"
    by (metis strict_sorted_iff sorted_list_of_set.idem_if_sorted_distinct)
  then show "createIndexsFiles (input_of ds) name fs = Some (length (batches [] 0 ds),
      sorted_list_of_set (words_of_docs ds), with_files name 0 (batches [] 0 ds) fs)"
    using createIndexsFiles_eq [of ds name fs] assms by (simp add: docs_fit_def)
  show "\<forall>i < length (batches [] 0 ds).
      ((with_files name 0 (batches [] 0 ds) fs)(name \<mapsto> x)) (createName name (0 + i)) = Some (index_bytes (batches [] 0 ds ! i))"
    using with_files_nth [of _ "batches [] 0 ds" name 0] createName_not_name by simp
qed

lemma few_batches:
  assumes "input_ok ds" shows "length (batches [] 0 ds) \<le> 2 ^ 31"
proof -
  have "length (batches [] 0 ds) \<le> Suc (length ds div COUNT_DOCID)"
    using batches_count [of 0 "[]" ds] by (simp add: COUNT_DOCID_def)
  also have "length ds div COUNT_DOCID \<le> 2 ^ 31 - 1"
    using div_le_mono [of "length ds" "COUNT_DOCID * (2 ^ 31 - 1)" COUNT_DOCID] assms
    by (simp add: input_ok_def COUNT_DOCID_def)
  finally show ?thesis by simp
qed

text \<open>Where the merge starts: the end marker is above all words, and the cursors stand at the batches.\<close>

lemma merge_starts:
  assumes "input_ok ds" "docs_fit ds" "words_of_docs ds \<noteq> {}" "[] \<notin> set (batches [] 0 ds)"
    "\<forall>w \<in> words_of_docs ds. w < SZ - 1"
    and "createIndexsFiles (input_of ds) name fs = Some (n, ws, fs1)"
  obtains M cs where "n = length (batches [] 0 ds)" "ws = words_in ds" "ws \<noteq> []" "sz_add (last ws) 1 = M"
    "\<forall>r \<in> set (batches [] 0 ds). run_ok M r"
    "open_files name 0 n (fs1(name \<mapsto> [])) = Some cs" "list_all2 (stands M) cs (batches [] 0 ds)"
proof -
  let ?rs = "batches [] 0 ds"
  have i: "\<forall>x \<in> set ds. doc_ok x" using assms(1) by (auto simp: input_ok_def)
  have c: "n = length ?rs" "ws = sorted_list_of_set (words_of_docs ds)" "fs1 = with_files name 0 ?rs fs"
    using files_before_merge(1) [OF i assms(2), of name fs] assms(6) by auto
  have ne: "ws \<noteq> []" using c(2) assms(3) by simp
  have "set ws = words_of_docs ds" using c(2) by simp
  then have wm: "last ws \<in> words_of_docs ds" using last_in_set [OF ne] by simp
  then have lt: "last ws < SZ - 1" using assms(5) by blast
  define M where "M = last ws + 1"
  have "last ws + 1 < SZ" using lt by linarith
  then have sz: "sz_add (last ws) 1 = M" "M \<le> SZ" unfolding M_def by (rule sz_add_exact, linarith)
  have "w \<le> last ws" if "w \<in> words_of_docs ds" for w
  proof -
    have "w \<in> set ws" "sorted ws" using that c(2) by simp_all
    then show ?thesis using sorted_nth_mono [of ws _ "length ws - 1"] ne
      by (metis One_nat_def Suc_pred in_set_conv_nth last_conv_nth length_greater_0_conv lessI less_Suc_eq_le)
  qed
  then have wM: "\<forall>w \<in> words_of_docs ds. w < M" by (auto simp: M_def less_Suc_eq_le)
  have run: "\<forall>r \<in> set ?rs. run_ok M r \<and> r \<noteq> []" using batches_run [OF assms(1) wM sz(2)] assms(4) by auto
  obtain cs where cs: "open_files name 0 (length ?rs) (fs1(name \<mapsto> [])) = Some cs" "list_all2 (stands M) cs ?rs"
    using open_files_stand [OF files_before_merge(2) [OF i assms(2), of name fs "[]"] run] c(3) by blast
  show thesis using c(1,2) ne sz(1) run cs by (intro that [of M cs]) (simp_all add: words_in_sorted)
qed

lemma lists_fit_merged:
  assumes "distinct (map fst ds)"
  shows "lists_fit ds \<longleftrightarrow> (\<forall>w \<in> keys (batches [] 0 ds). length (merged_docs (batches [] 0 ds) w) < 2 ^ 29)"
  unfolding lists_fit_def keys_batches merged_docs_batches(3) [OF assms] by (simp add: words_in_sorted)

lemma mergeIndex_batches:
  assumes "input_ok ds" "docs_fit ds" "words_of_docs ds \<noteq> {}" "[] \<notin> set (batches [] 0 ds)"
    "\<forall>w \<in> words_of_docs ds. w < SZ - 1"
    and "createIndexsFiles (input_of ds) name fs = Some (n, ws, fs1)"
  shows "lists_fit ds \<Longrightarrow> mergeIndex name name n ws fs1
      = Some (removeIndexFiles name n (fs1(name \<mapsto> index_file (inverted ds))))"
    "\<not> lists_fit ds \<Longrightarrow> mergeIndex name name n ws fs1 = None"
proof -
  let ?rs = "batches [] 0 ds"
  obtain M cs where c: "n = length ?rs" "ws = words_in ds" "ws \<noteq> []" "sz_add (last ws) 1 = M"
    "\<forall>r \<in> set ?rs. run_ok M r"
    "open_files name 0 n (fs1(name \<mapsto> [])) = Some cs" "list_all2 (stands M) cs ?rs"
    by (rule merge_starts [OF assms])
  have d: "distinct (map fst ds)" using assms(1) by (simp add: input_ok_def)
  show "mergeIndex name name n ws fs1 = Some (removeIndexFiles name n (fs1(name \<mapsto> index_file (inverted ds))))"
    if "lists_fit ds"
  proof -
    have "merge_loop M cs (saveWordids ws) []
        = Some (saveWordids ws @ concat (map list_bytes (merged ?rs)), [] @ table (length (saveWordids ws)) (merged ?rs))"
      using that lists_fit_merged [OF d] by (intro merge_loop_index [OF c(7,5) few_batches [OF assms(1)]]) auto
    then have ml: "merge_loop M cs (saveWordids ws) []
        = Some (saveWordids ws @ concat (map list_bytes (inverted ds)), table (length (saveWordids ws)) (inverted ds))"
      by (simp add: merged_batches [OF d])
    have "map fst (inverted ds) = ws" using c(2) by (simp add: inverted_def comp_def)
    from saveOffsets_index_file [OF this] show ?thesis
      using c(3,4,6) ml by (simp add: mergeIndex_def Let_def del: fun_upd_apply)
  qed
  show "mergeIndex name name n ws fs1 = None" if nf: "\<not> lists_fit ds"
  proof -
    obtain w where w: "w \<in> keys ?rs" "2 ^ 29 \<le> length (merged_docs ?rs w)"
      using nf unfolding lists_fit_merged [OF d] by (meson not_less)
    show ?thesis using merge_loop_overflow [OF c(7,5) few_batches [OF assms(1)] w] c(3,4,6)
      by (simp add: mergeIndex_def Let_def del: fun_upd_apply)
  qed
qed

lemma index_main_builds:
  assumes "input_ok ds" "docs_fit ds" "lists_fit ds" "words_of_docs ds \<noteq> {}" "[] \<notin> set (batches [] 0 ds)" "\<forall>w \<in> words_of_docs ds. w < SZ - 1"
  shows "\<exists>fs'. index_main (input_of ds) fs = Some fs' \<and> fs' ''index'' = Some (index_file (inverted ds))
    \<and> (\<forall>i < length (batches [] 0 ds). fs' (createName ''index'' i) = None)
    \<and> (\<forall>f. f \<noteq> ''index'' \<longrightarrow> (\<forall>i. f \<noteq> createName ''index'' i) \<longrightarrow> fs' f = fs f)"
proof -
  let ?rs = "batches [] 0 ds"
  have i: "\<forall>x \<in> set ds. doc_ok x" using assms(1) by (auto simp: input_ok_def)
  note C = files_before_merge(1) [OF i assms(2), of "''index''" fs]
  have not_self: "\<not> (\<exists>i < length ?rs. ''index'' = createName ''index'' i)" using createName_not_name [of "''index''"] by metis
  let ?fs = "removeIndexFiles ''index'' (length ?rs) ((with_files ''index'' 0 ?rs fs)(''index'' \<mapsto> index_file (inverted ds)))"
  have "index_main (input_of ds) fs = Some ?fs"
    using mergeIndex_batches(1) [OF assms(1,2,4,5,6) C assms(3)] C by (simp add: index_main_def)
  moreover have "?fs ''index'' = Some (index_file (inverted ds))"
    using not_self unfolding removed by simp
  moreover have "\<forall>i < length ?rs. ?fs (createName ''index'' i) = None" by (auto simp: removed)
  moreover have "\<forall>f. f \<noteq> ''index'' \<longrightarrow> (\<forall>i. f \<noteq> createName ''index'' i) \<longrightarrow> ?fs f = fs f"
    using with_files_other by (auto simp: removed)
  ultimately show ?thesis by blast
qed

section \<open>Reading the index\<close>

definition readable :: "dict \<Rightarrow> bool" where
  "readable m \<longleftrightarrow> asc (map fst m) \<and> length (index_file m) < SZ
     \<and> (\<forall>(w, s) \<in> set m. 0 < w \<and> w < SZ \<and> length s < 2 ^ 29 \<and> (\<forall>d \<in> set s. d < SZ))"

lemma read_table_write:
  "\<forall>(w, pos) \<in> set tab. 0 < w \<and> w < SZ \<and> pos < SZ \<Longrightarrow> asc (map fst offs @ map fst tab)
   \<Longrightarrow> read_table (concat (map (\<lambda>(w, pos). fwrite64 w @ fwrite64 pos) tab) @ fwrite64 0 @ fwrite64 0 @ rest) offs
     = Some (offs @ tab)"
proof (induction tab arbitrary: offs)
  case Nil
  then show ?case by (subst read_table.simps) (simp add: fread64_write)
next
  case (Cons p tab)
  obtain w pos where p: "p = (w, pos)" by force
  have "offset_put w pos offs = offs @ [(w, pos)]"
    using Cons.prems(2) p by (intro offset_put_last) (auto simp: sorted_wrt_append)
  then show ?case using Cons.IH [of "offs @ [(w, pos)]"] Cons.prems p
    by (subst read_table.simps) (simp add: fread64_write)
qed

lemma table_positions:
  "(w, p) \<in> set (table pos m) \<Longrightarrow> pos \<le> p \<and> p < pos + length (concat (map list_bytes m))"
  by (induction m arbitrary: pos) fastforce+

lemma read_lists_table:
  "\<forall>(w, s) \<in> set m. length s < 2 ^ 29 \<and> (\<forall>d \<in> set s. d < SZ) \<Longrightarrow>
   read_lists (pre @ concat (map list_bytes m)) (take k (table (length pre) m)) = Some (take k m)"
proof (induction m arbitrary: k pre)
  case (Cons p m)
  show ?case
  proof (cases k)
    case (Suc j)
    obtain w s where p: "p = (w, s)" by force
    have ok: "length s < 2 ^ 32" "length s < 2 ^ 29" "\<forall>d \<in> set s. d < SZ" using Cons.prems p by auto
    let ?f = "pre @ concat (map list_bytes (p # m))"
    have f: "?f = (pre @ list_bytes p) @ concat (map list_bytes m)" by simp
    have rest: "read_lists ?f (take j (table (length (pre @ list_bytes p)) m)) = Some (take j m)"
      unfolding f by (rule Cons.IH) (use Cons.prems in simp)
    have "drop (length pre) ?f = fwrite32 (length s) @ fwrite64s s @ concat (map list_bytes m)"
      using p by (simp add: list_bytes_def)
    then have "read_lists ?f ((w, length pre) # take j (table (length (pre @ list_bytes p)) m)) = Some ((w, s) # take j m)"
      by (simp only: read_lists.simps fread32_write [OF ok(1)] fread_array_write [OF ok(3,2)] rest Option.bind.simps prod.case)
    moreover have "take k (table (length pre) (p # m)) = (w, length pre) # take j (table (length (pre @ list_bytes p)) m)"
      using Suc p by simp
    ultimately show ?thesis using Suc p by (simp only: take_Suc_Cons)
  qed simp
qed simp

lemma readIndex_write:
  assumes "readable m"
  shows "readIndex (index_file m) = Some (take 10 m)"
proof -
  let ?t = "table (16 * length m + 16) m" and ?lists = "concat (map list_bytes m)"
  let ?head = "concat (map (\<lambda>(w, pos). fwrite64 w @ fwrite64 pos) ?t) @ fwrite64 0 @ fwrite64 0"
  have lh: "length (concat (map (\<lambda>(w, pos). fwrite64 w @ fwrite64 pos) t)) = 16 * length t" for t :: offsets
    by (induction t) auto
  have l: "length ?head = 16 * length m + 16" by (simp add: lh)
  have f: "index_file m = ?head @ ?lists" by (simp add: index_file_def)
  have "length (index_file m) < SZ" using assms by (simp add: readable_def)
  then have "16 * length m + 16 + length ?lists < SZ" unfolding f using l by simp
  then have "\<forall>(w, pos) \<in> set ?t. pos < SZ" using table_positions [of _ _ "16 * length m + 16" m] by fastforce
  moreover have "\<forall>x \<in> set ?t. fst x \<in> set (map fst ?t)" unfolding set_map by blast
  then have "\<forall>(w, pos) \<in> set ?t. w \<in> set (map fst m)" unfolding map_fst_table(1) by force
  ultimately have "\<forall>(w, pos) \<in> set ?t. 0 < w \<and> w < SZ \<and> pos < SZ"
    using assms by (fastforce simp: readable_def)
  from read_table_write [OF this, of "[]" ?lists] have "read_table (index_file m) [] = Some ?t"
    using assms by (simp add: index_file_def readable_def)
  moreover have "read_lists (?head @ ?lists) (take 10 (table (length ?head) m)) = Some (take 10 m)"
    using assms by (intro read_lists_table) (auto simp: readable_def)
  ultimately show ?thesis unfolding l by (simp add: readIndex_def f)
qed

section \<open>The largest word number\<close>

lemma index_main_wraps:
  assumes "input_ok ds" "docs_fit ds" "[] \<notin> set (batches [] 0 ds)" "SZ - 1 \<in> words_of_docs ds"
  shows "\<exists>fs'. index_main (input_of ds) fs = Some fs' \<and> fs' ''index'' = Some (saveWordids (words_in ds))"
proof -
  let ?rs = "batches [] 0 ds" and ?ws = "sorted_list_of_set (words_of_docs ds)"
  have i: "\<forall>x \<in> set ds. doc_ok x" using assms(1) by (auto simp: input_ok_def)
  note C = files_before_merge(1) [OF i assms(2), of "''index''" fs]
  have b: "\<forall>w \<in> words_of_docs ds. w < SZ" using i by (auto simp: words_of_docs_def doc_ok_def)
  have ws: "set ?ws = words_of_docs ds" "sorted ?ws" by simp_all
  then have ne: "?ws \<noteq> []" using assms(4) by auto
  have "last ?ws \<in> set ?ws" using ne by (rule last_in_set)
  then have "last ?ws < SZ" using b ws(1) by blast
  moreover have "SZ - 1 \<le> last ?ws"
  proof -
    obtain j where "j < length ?ws" "?ws ! j = SZ - 1" using assms(4) ws(1) by (metis in_set_conv_nth)
    then show ?thesis using sorted_nth_mono [OF ws(2), of j "length ?ws - 1"] ne by (simp add: last_conv_nth)
  qed
  ultimately have "last ?ws = SZ - 1" by linarith
  then have M: "sz_add (last ?ws) 1 = 0" by (simp add: sz_add_def SZ_def)
  have run: "\<forall>r \<in> set ?rs. run_ok SZ r \<and> r \<noteq> []" using batches_run [OF assms(1) b order_refl] assms(3) by auto
  obtain cs where cs: "open_files ''index'' 0 (length ?rs) ((with_files ''index'' 0 ?rs fs)(''index'' \<mapsto> [])) = Some cs"
    using open_files_stand [OF files_before_merge(2) [OF i assms(2), of "''index''" fs "[]"] run] by blast
  have "least 0 (map c_word cs) = 0" using least_le [of 0 "map c_word cs"] by simp
  then have "merge_loop 0 cs (saveWordids ?ws) [] = Some (saveWordids ?ws, [])"
    by (subst merge_loop.simps) (simp add: min_loop_eq)
  then have "mergeIndex ''index'' ''index'' (length ?rs) ?ws (with_files ''index'' 0 ?rs fs)
      = Some (removeIndexFiles ''index'' (length ?rs) ((with_files ''index'' 0 ?rs fs)(''index'' \<mapsto> saveWordids ?ws)))"
    using ne cs M by (simp add: mergeIndex_def Let_def)
  moreover have "\<not> (\<exists>i < length ?rs. ''index'' = createName ''index'' i)" using createName_not_name [of "''index''"] by metis
  ultimately show ?thesis using C by (simp add: index_main_def removed words_in_sorted)
qed

section \<open>What the index promises\<close>

text \<open>Property C3.
  The program inverts its input: for documents with different numbers it leaves in the file
  \<open>index\<close> the table of all words in order, each with the offset of the sorted list of exactly the
  documents that hold the word; its temporary files are gone and no other file is touched. Each
  document has fewer than \<open>2 ^ 29\<close> words, each word is in fewer than \<open>2 ^ 29\<close> documents, so that the
  sizes of the buffers do not wrap, and the largest word number \<open>2 ^ 64 - 1\<close> is not used.
\<close>

theorem index_inverts:
  assumes "input_ok ds" "docs_fit ds" "lists_fit ds" "words_of_docs ds \<noteq> {}" "[] \<notin> set (batches [] 0 ds)"
    "\<forall>w \<in> words_of_docs ds. w < SZ - 1"
  shows "\<exists>fs'. index_main (input_of ds) fs = Some fs' \<and> fs' ''index'' = Some (index_file (inverted ds))
    \<and> (\<forall>i < length (batches [] 0 ds). fs' (createName ''index'' i) = None)
    \<and> (\<forall>f. f \<noteq> ''index'' \<longrightarrow> (\<forall>i. f \<noteq> createName ''index'' i) \<longrightarrow> fs' f = fs f)"
  by (rule index_main_builds [OF assms])

definition demo_docs :: "doc list" where
  "demo_docs = [(5, [7, 3]), (2, [3])]"

lemma demo_docs_ok:
  "input_ok demo_docs" "docs_fit demo_docs" "lists_fit demo_docs"
  "words_of_docs demo_docs = {3, 7}" "[] \<notin> set (batches [] 0 demo_docs)"
  "inverted demo_docs = [(3, [2, 5]), (7, [5])]"
  by (auto simp: input_ok_def docs_fit_def doc_fits_def lists_fit_def demo_docs_def doc_ok_def SZ_def words_of_docs_def
      COUNT_DOCID_def inverted_def words_in_def docs_with_def)

theorem index_inverts_witness:
  "\<exists>fs'. index_main (input_of demo_docs) Map.empty = Some fs' \<and> fs' ''index'' = Some (index_file [(3, [2, 5]), (7, [5])])"
  using index_inverts [OF demo_docs_ok(1-3) _ demo_docs_ok(5), of Map.empty] demo_docs_ok(4,6)
  by (auto simp: SZ_def)

text \<open>Property C13.
  Round trip: from the file that the program wrote, \<open>readIndex\<close> reads back the first ten words of the
  input with their documents, all of them when there are at most ten (the code stops after ten words; word 0
  ends its table, so the words are taken to be positive, and the file is smaller than \<open>2 ^ 64\<close> bytes).
\<close>

theorem index_read_back:
  assumes "input_ok ds" "docs_fit ds" "lists_fit ds" "words_of_docs ds \<noteq> {}" "[] \<notin> set (batches [] 0 ds)"
    "\<forall>w \<in> words_of_docs ds. 0 < w \<and> w < SZ - 1" "length (index_file (inverted ds)) < SZ"
  shows "\<exists>fs' file. index_main (input_of ds) fs = Some fs' \<and> fs' ''index'' = Some file
    \<and> readIndex file = Some (take 10 (inverted ds))"
proof -
  have w: "\<forall>w \<in> words_of_docs ds. w < SZ - 1" using assms(6) by blast
  have "\<forall>x \<in> set ds. doc_ok x" using assms(1) by (auto simp: input_ok_def)
  then have "\<forall>d \<in> set (docs_with ds w). d < SZ" for w by (auto simp: docs_with_def doc_ok_def)
  moreover have "0 < w \<and> w < SZ" if "w \<in> set (words_in ds)" for w
    using that assms(6) by (auto simp: words_in_sorted)
  moreover have "asc (map fst (inverted ds))" by (simp add: inverted_def comp_def words_in_sorted)
  ultimately have "readable (inverted ds)" using assms(3,7) by (auto simp: readable_def inverted_def lists_fit_def)
  from readIndex_write [OF this] show ?thesis using index_main_builds [OF assms(1-5) w, of fs] by blast
qed

theorem index_read_back_witness:
  "\<exists>fs' file. index_main (input_of demo_docs) Map.empty = Some fs' \<and> fs' ''index'' = Some file
    \<and> readIndex file = Some [(3, [2, 5]), (7, [5])]"
proof -
  have "length (index_file [(3, [2, 5]), (7, [5])]) < SZ" by (simp add: index_file_def SZ_def)
  then show ?thesis using index_read_back [OF demo_docs_ok(1-3) _ demo_docs_ok(5), of Map.empty] demo_docs_ok(4,6)
    by (auto simp: SZ_def)
qed

text \<open>Property C36.
  The largest word number wraps the end marker of the merge to 0: with this word in the input no
  list is written at all and every offset of the table stays 0.
\<close>

theorem largest_word_loses_lists:
  assumes "input_ok ds" "docs_fit ds" "[] \<notin> set (batches [] 0 ds)" "SZ - 1 \<in> words_of_docs ds"
  shows "\<exists>fs'. index_main (input_of ds) fs = Some fs' \<and> fs' ''index'' = Some (saveWordids (words_in ds))"
  by (rule index_main_wraps [OF assms])

theorem largest_word_loses_lists_witness:
  "\<exists>fs'. index_main (input_of [(1, [4, SZ - 1])]) Map.empty = Some fs' \<and> fs' ''index'' = Some (saveWordids [4, SZ - 1])"
proof -
  have d: "input_ok [(1, [4, SZ - 1])]" "docs_fit [(1, [4, SZ - 1])]" "[] \<notin> set (batches [] 0 [(1, [4, SZ - 1])])"
    "SZ - 1 \<in> words_of_docs [(1, [4, SZ - 1])]" "words_in [(1, [4, SZ - 1])] = [4, SZ - 1]"
    by (simp_all add: input_ok_def docs_fit_def doc_fits_def doc_ok_def words_of_docs_def COUNT_DOCID_def words_in_def SZ_def)
  from largest_word_loses_lists [OF d(1-4), of Map.empty] show ?thesis unfolding d(5) .
qed



end
