(* ===== verification/Proxy_Config.thy ===== *)
theory Proxy_Config
  imports Prelude
begin

text \<open>
  Model of the configuration and of the accepting side of the proxy, the classes \<open>Proxy\<close> and
  \<open>ClientServer\<close> of \<^verbatim>\<open>src/p3/proxy.cpp\<close>. Exceptions of \<open>stoi\<close> and of the address parser are \<open>Inl\<close>;
  choosing a server from an empty list is undefined (\<^const>\<open>None\<close>). What the libraries decide is
  the parameter \<open>boost\<close>: the addresses that \<open>ip::address::from_string\<close> accepts, the ports that can be
  bound, and the numbers of the random generator.
\<close>

section \<open>Reading the configuration\<close>

text \<open>\<open>std::getline\<close> on what is left of a string stream; at the end it gives the empty string.\<close>

definition getline :: "char \<Rightarrow> string \<Rightarrow> string \<times> string" where
  "getline d s = (takeWhile (\<lambda>c. c \<noteq> d) s, drop 1 (dropWhile (\<lambda>c. c \<noteq> d) s))"

lemma getline_rest: "length (snd (getline d s)) + length (fst (getline d s)) \<le> length s"
proof -
  have "length s = length (takeWhile (\<lambda>c. c \<noteq> d) s) + length (dropWhile (\<lambda>c. c \<noteq> d) s)"
    by (metis length_append takeWhile_dropWhile_id)
  then show ?thesis by (simp add: getline_def)
qed

lemma getline_shorter:
  assumes "getline d s = (x, r)"
  shows "length r \<le> length s" "x \<noteq> [] \<Longrightarrow> length r < length s"
proof -
  have l: "length r + length x \<le> length s" using getline_rest [of d s] assms by simp
  then show "length r \<le> length s" by simp
  show "length r < length s" if "x \<noteq> []" using l that by (cases x) auto
qed

function config_lines :: "string \<Rightarrow> string list" where
  "config_lines stconfig =
     (case getline CHR 0x0A stconfig of (tmp, rest) \<Rightarrow>
        if tmp = [] then [] else tmp # config_lines rest)"
  by pat_completeness auto
termination by (relation "measure length") (auto dest: getline_shorter(2) [OF sym])

declare config_lines.simps [simp del]

type_synonym server = "string \<times> string"

function read_dsts :: "string \<Rightarrow> server list" where
  "read_dsts conf_src =
     (case getline CHR '':'' conf_src of (dst_ip, rest) \<Rightarrow>
        if dst_ip = [] then []
        else (case getline CHR '','' rest of (dst_port, rest) \<Rightarrow>
          (dst_ip, filter (\<lambda>c. c \<noteq> CHR 0x0A) dst_port) # read_dsts rest))"
  by pat_completeness auto
termination
proof (relation "measure length", goal_cases)
  case (2 conf dst_ip rest port rest')
  then have "length rest < length conf" "length rest' \<le> length rest"
    using getline_shorter(2) [of "CHR '':''" conf dst_ip rest] getline_shorter(1) [of "CHR '',''" rest port rest'] by auto
  then show ?case by simp
qed simp

declare read_dsts.simps [simp del]

definition read_line :: "string \<Rightarrow> string \<times> server list" where
  "read_line l = (case getline CHR '','' l of (src_port, rest) \<Rightarrow> (src_port, read_dsts rest))"

definition read_config :: "string \<Rightarrow> (string \<times> server list) list" where
  "read_config config = map read_line (config_lines config)"

section \<open>Numbers\<close>

definition is_space :: "char \<Rightarrow> bool" where
  "is_space c \<longleftrightarrow> c \<in> {CHR '' '', CHR 0x09, CHR 0x0A, CHR 0x0B, CHR 0x0C, CHR 0x0D}"

definition is_digit :: "char \<Rightarrow> bool" where
  "is_digit c \<longleftrightarrow> 48 \<le> (of_char c :: nat) \<and> (of_char c :: nat) \<le> 57"

fun number_of :: "nat \<Rightarrow> string \<Rightarrow> nat" where
  "number_of n [] = n"
| "number_of n (c # cs) = number_of (10 * n + (of_char c - 48)) cs"

datatype config_error = invalid_argument | out_of_range | bad_address | bind_failed

text \<open>What the libraries decide: accepted addresses, ports that can be bound besides the ports
  already in use by the program, and the random number drawn after each count of draws.\<close>

record boost =
  valid_ip :: "string \<Rightarrow> bool"
  can_bind :: "int list \<Rightarrow> int \<Rightarrow> bool"
  draw :: "nat \<Rightarrow> nat"

definition stoi :: "string \<Rightarrow> config_error + int" where
  "stoi s =
     (let t = dropWhile is_space s;
          neg = (t \<noteq> [] \<and> hd t = CHR ''-'');
          t = (if t \<noteq> [] \<and> (hd t = CHR ''-'' \<or> hd t = CHR ''+'') then tl t else t);
          ds = takeWhile is_digit t;
          n = (if neg then - int (number_of 0 ds) else int (number_of 0 ds))
      in if ds = [] then Inl invalid_argument
         else if n < - (2 ^ 31) \<or> 2 ^ 31 \<le> n then Inl out_of_range
         else Inr n)"

section \<open>ClientServer\<close>

text \<open>A client is known by its number; its connection is modelled in \<open>Proxy_Client\<close>. Ports are
  cut to 16 bits by the endpoint.\<close>

record new_client =
  client_number :: nat
  client_addr :: string
  client_port :: int

record ClientServer =
  listen_port :: int
  servers :: "server list"
  ind_number :: nat
  cur_client :: new_client
  clients :: "nat \<rightharpoonup> new_client"

text \<open>The constructor of \<open>Client\<close> parses the address and then the port.\<close>

definition make_client :: "boost \<Rightarrow> nat \<Rightarrow> server \<Rightarrow> config_error + new_client" where
  "make_client g n srv =
     (if \<not> valid_ip g (fst srv) then Inl bad_address
      else case stoi (snd srv) of
        Inl e \<Rightarrow> Inl e
      | Inr p \<Rightarrow> Inr \<lparr>client_number = n, client_addr = fst srv, client_port = p\<rparr>)"

text \<open>\<open>distribution(generator)\<close> is uniform on the indexes; an empty range is undefined.\<close>

definition set_new_client :: "boost \<Rightarrow> ClientServer \<Rightarrow> (config_error + ClientServer) option" where
  "set_new_client g s =
     (if servers s = [] then None
      else let n_server = draw g (ind_number s) mod length (servers s)
           in Some (case make_client g (ind_number s) (servers s ! n_server) of
             Inl e \<Rightarrow> Inl e
           | Inr c \<Rightarrow> Inr (s\<lparr>cur_client := c, ind_number := sz_add (ind_number s) 1\<rparr>)))"

definition add_client :: "ClientServer \<Rightarrow> ClientServer" where
  "add_client s = s\<lparr>clients := (clients s)(ind_number s \<mapsto> cur_client s)\<rparr>"

definition stop :: "nat \<Rightarrow> ClientServer \<Rightarrow> ClientServer" where
  "stop number s = s\<lparr>clients := (clients s)(number := None)\<rparr>"

definition new_ClientServer ::
  "boost \<Rightarrow> int list \<Rightarrow> string \<Rightarrow> server list \<Rightarrow> (config_error + ClientServer) option" where
  "new_ClientServer g bound src_port dsts =
     (case stoi src_port of
        Inl e \<Rightarrow> Some (Inl e)
      | Inr p \<Rightarrow>
          if \<not> can_bind g bound (p mod 2 ^ 16) then Some (Inl bind_failed)
          else set_new_client g \<lparr>listen_port = p mod 2 ^ 16, servers = dsts, ind_number = 0,
          cur_client = \<lparr>client_number = 0, client_addr = [], client_port = 0\<rparr>, clients = Map.empty\<rparr>)"

text \<open>\<open>handle_accept\<close>: a failed accept only replaces the waiting client.\<close>

definition handle_accept ::
  "boost \<Rightarrow> bool \<Rightarrow> ClientServer \<Rightarrow> (config_error + ClientServer) option" where
  "handle_accept g error s =
     (if error then set_new_client g s
      else set_new_client g (add_client s))"

section \<open>Proxy\<close>

fun new_servers ::
  "boost \<Rightarrow> (string \<times> server list) list \<Rightarrow> ClientServer list \<Rightarrow> (config_error + ClientServer list) option" where
  "new_servers g [] client_servers = Some (Inr client_servers)"
| "new_servers g ((src_port, dsts) # r) client_servers =
     (case new_ClientServer g (map listen_port client_servers) src_port dsts of
        None \<Rightarrow> None
      | Some (Inl e) \<Rightarrow> Some (Inl e)
      | Some (Inr c) \<Rightarrow> new_servers g r (client_servers @ [c]))"

definition new_Proxy :: "boost \<Rightarrow> string \<Rightarrow> (config_error + ClientServer list) option" where
  "new_Proxy g config = new_servers g (read_config config) []"

text \<open>
  \<open>main\<close> over the arguments after the program's name, before \<open>service.run\<close>: what was started. Without an
  argument \<open>argv[1]\<close> is a null pointer; a file that cannot be opened reads as an empty one.
\<close>

definition proxy_main ::
  "(string \<Rightarrow> string option) \<Rightarrow> boost \<Rightarrow> string list \<Rightarrow> (config_error + ClientServer list) option" where
  "proxy_main files g args =
     (if 1 < length args then Some (Inr [])
      else if args = [] then None
      else new_Proxy g (case files (hd args) of None \<Rightarrow> [] | Some config \<Rightarrow> config))"

text \<open>A missing configuration is not reported: the proxy starts nothing.\<close>

lemma proxy_main_missing: "files f = None \<Longrightarrow> proxy_main files g [f] = Some (Inr [])"
  by (simp add: proxy_main_def new_Proxy_def read_config_def config_lines.simps [of "[]"] getline_def)

section \<open>Lemmas on reading\<close>

lemma takeWhile_field: "d \<notin> set x \<Longrightarrow> r = [] \<or> hd r = d \<Longrightarrow> takeWhile (\<lambda>c. c \<noteq> d) (x @ r) = x"
proof (induction x)
  case Nil
  then show ?case by (cases r) auto
next
  case (Cons a x)
  then have "takeWhile (\<lambda>c. c \<noteq> d) (x @ r) = x" by simp
  moreover have "a \<noteq> d" using Cons.prems(1) by auto
  ultimately show ?case by simp
qed

lemma dropWhile_field: "d \<notin> set x \<Longrightarrow> r = [] \<or> hd r = d \<Longrightarrow> dropWhile (\<lambda>c. c \<noteq> d) (x @ r) = r"
  using takeWhile_field [of d x r] by (metis append_same_eq same_append_eq takeWhile_dropWhile_id)

lemma getline_field: "d \<notin> set x \<Longrightarrow> r = [] \<or> hd r = d \<Longrightarrow> getline d (x @ r) = (x, drop 1 r)"
  by (simp add: getline_def takeWhile_field dropWhile_field)

text \<open>The text of a configuration: on each line a port and the servers behind it.\<close>

type_synonym config = "(nat \<times> (string \<times> nat) list) list"

definition dst_text :: "string \<times> nat \<Rightarrow> string" where
  "dst_text d = '','' @ fst d @ '':'' @ decimal (snd d)"

definition line_text :: "nat \<times> (string \<times> nat) list \<Rightarrow> string" where
  "line_text e = decimal (fst e) @ concat (map dst_text (snd e)) @ [CHR 0x0A]"

definition config_text :: "config \<Rightarrow> string" where
  "config_text es = concat (map line_text es)"

definition dst_of :: "string \<times> nat \<Rightarrow> server" where
  "dst_of d = (fst d, decimal (snd d))"

text \<open>Addresses are not empty and use no sign of the format.\<close>

definition address_ok :: "string \<Rightarrow> bool" where
  "address_ok ip \<longleftrightarrow> ip \<noteq> [] \<and> CHR '':'' \<notin> set ip \<and> CHR 0x0A \<notin> set ip"

definition config_ok :: "config \<Rightarrow> bool" where
  "config_ok es \<longleftrightarrow> (\<forall>e \<in> set es. \<forall>d \<in> set (snd e). address_ok (fst d))"

lemma is_digit_digit: "n < 10 \<Longrightarrow> is_digit (digit n)"
  by (simp add: is_digit_def digit_def)

lemma decimal_digits: "list_all is_digit (decimal n)"
proof (induction n rule: decimal.induct)
  case (1 n)
  then show ?case by (cases "n < 10") (simp_all add: decimal.simps [of n] is_digit_digit)
qed

lemma decimal_free:
  assumes "\<not> is_digit c" shows "c \<notin> set (decimal n)"
  using decimal_digits [of n] assms by (auto simp: list_all_iff)

lemma not_digits [simp]: "\<not> is_digit CHR '':''" "\<not> is_digit CHR '',''" "\<not> is_digit CHR 0x0A"
  "\<not> is_digit CHR ''-''" "\<not> is_digit CHR ''+''"
  by (simp_all add: is_digit_def)

lemma read_dsts_text:
  assumes "\<forall>d \<in> set ds. address_ok (fst d)"
  shows "read_dsts (drop 1 (concat (map dst_text ds))) = map dst_of ds"
  using assms
proof (induction ds)
  case Nil
  then show ?case by (simp add: read_dsts.simps [of "[]"] getline_def)
next
  case (Cons d ds)
  let ?rest = "concat (map dst_text ds)"
  have rest: "?rest = [] \<or> hd ?rest = CHR '',''" by (cases ds) (simp_all add: dst_text_def)
  have "getline CHR '':'' (fst d @ '':'' @ decimal (snd d) @ ?rest) = (fst d, decimal (snd d) @ ?rest)"
    using Cons.prems getline_field [of "CHR '':''" "fst d" "'':'' @ decimal (snd d) @ ?rest"]
    by (simp add: address_ok_def)
  moreover have "getline CHR '','' (decimal (snd d) @ ?rest) = (decimal (snd d), drop 1 ?rest)"
    using rest by (intro getline_field decimal_free) simp_all
  moreover have "filter (\<lambda>c. c \<noteq> CHR 0x0A) (decimal (snd d)) = decimal (snd d)"
    using decimal_free [of "CHR 0x0A" "snd d"] by (auto intro: filter_True)
  ultimately show ?case using Cons
    by (subst read_dsts.simps) (simp add: dst_text_def [of d] dst_of_def address_ok_def)
qed

lemma read_line_text:
  assumes "\<forall>d \<in> set (snd e). address_ok (fst d)"
  shows "read_line (decimal (fst e) @ concat (map dst_text (snd e))) = (decimal (fst e), map dst_of (snd e))"
proof -
  let ?rest = "concat (map dst_text (snd e))"
  have "?rest = [] \<or> hd ?rest = CHR '',''" by (cases "snd e") (simp_all add: dst_text_def)
  then have "getline CHR '','' (decimal (fst e) @ ?rest) = (decimal (fst e), drop 1 ?rest)"
    by (intro getline_field decimal_free) simp_all
  then show ?thesis using read_dsts_text [OF assms] by (simp add: read_line_def)
qed

lemma config_lines_text:
  assumes "config_ok es"
  shows "config_lines (config_text es) = map (\<lambda>e. decimal (fst e) @ concat (map dst_text (snd e))) es"
  using assms
proof (induction es)
  case Nil
  then show ?case by (simp add: config_text_def config_lines.simps [of "[]"] getline_def)
next
  case (Cons e es)
  let ?l = "decimal (fst e) @ concat (map dst_text (snd e))"
  have "CHR 0x0A \<notin> set (concat (map dst_text (snd e)))"
    using Cons.prems decimal_free [of "CHR 0x0A"] by (auto simp: config_ok_def address_ok_def dst_text_def)
  then have "getline CHR 0x0A (?l @ CHR 0x0A # config_text es) = (?l, config_text es)"
    using getline_field [of "CHR 0x0A" ?l "CHR 0x0A # config_text es"] decimal_free [of "CHR 0x0A" "fst e"] by simp
  moreover have "config_text (e # es) = ?l @ CHR 0x0A # config_text es" by (simp add: config_text_def line_text_def)
  ultimately show ?case using Cons decimal_not_Nil
    by (subst config_lines.simps) (simp add: config_ok_def)
qed

lemma read_config_text:
  assumes "config_ok es"
  shows "read_config (config_text es) = map (\<lambda>e. (decimal (fst e), map dst_of (snd e))) es"
  using assms read_line_text by (simp add: read_config_def config_lines_text config_ok_def)

section \<open>Lemmas on numbers\<close>

lemma number_of_append: "number_of k (xs @ ys) = number_of (number_of k xs) ys"
  by (induction xs arbitrary: k) auto

lemma number_of_digit: "n < 10 \<Longrightarrow> number_of k [digit n] = 10 * k + n"
  by (simp add: digit_def)

lemma number_of_decimal: "number_of 0 (decimal n) = n"
proof (induction n rule: decimal.induct)
  case (1 n)
  show ?case
  proof (cases "n < 10")
    case True
    then show ?thesis using number_of_digit [of n 0] by (simp add: decimal.simps [of n] del: number_of.simps(2))
  next
    case False
    then show ?thesis using 1 number_of_digit [of "n mod 10" "n div 10"]
      by (simp add: decimal.simps [of n] number_of_append del: number_of.simps(2))
  qed
qed

lemma stoi_decimal:
  assumes "n < 2 ^ 31"
  shows "stoi (decimal n) = Inr (int n)"
proof -
  obtain c cs where d: "decimal n = c # cs" using decimal_not_Nil by (cases "decimal n") auto
  have c: "is_digit c" using decimal_digits [of n] d by simp
  then have "\<not> is_space c" "c \<noteq> CHR ''-''" "c \<noteq> CHR ''+''" by (auto simp: is_space_def is_digit_def)
  moreover have "takeWhile is_digit (decimal n) = decimal n"
    using decimal_digits [of n] by (simp add: takeWhile_eq_all_conv list_all_iff)
  moreover have "int n < 2 ^ 31" using assms by simp
  ultimately show ?thesis using d number_of_decimal [of n] by (simp add: stoi_def Let_def)
qed
section \<open>Starting and accepting\<close>

lemma make_client_Inr:
  "make_client g n srv = Inr c \<longleftrightarrow>
    valid_ip g (fst srv) \<and> (\<exists>p. stoi (snd srv) = Inr p \<and> c = \<lparr>client_number = n, client_addr = fst srv, client_port = p\<rparr>)"
  by (auto simp: make_client_def split: sum.splits)

text \<open>\<open>aims\<close>: the client connects to one of the listed servers.\<close>

definition aims :: "boost \<Rightarrow> server list \<Rightarrow> new_client \<Rightarrow> bool" where
  "aims g dsts c \<longleftrightarrow>
     (\<exists>d \<in> set dsts. client_addr c = fst d \<and> stoi (snd d) = Inr (client_port c) \<and> valid_ip g (fst d))"

lemma set_new_client_Inr:
  "set_new_client g s = Some (Inr t) \<longleftrightarrow>
    servers s \<noteq> [] \<and>
    (\<exists>c. make_client g (ind_number s) (servers s ! (draw g (ind_number s) mod length (servers s))) = Inr c
       \<and> t = s\<lparr>cur_client := c, ind_number := sz_add (ind_number s) 1\<rparr>)"
  by (auto simp: set_new_client_def Let_def split: sum.splits)

lemma set_new_client_aims:
  assumes "set_new_client g s = Some (Inr t)"
  shows "aims g (servers s) (cur_client t)" "client_number (cur_client t) = ind_number s"
    "ind_number t = sz_add (ind_number s) 1" "servers t = servers s" "clients t = clients s"
    "listen_port t = listen_port s"
proof -
  obtain c where c: "servers s \<noteq> []"
    "make_client g (ind_number s) (servers s ! (draw g (ind_number s) mod length (servers s))) = Inr c"
    "t = s\<lparr>cur_client := c, ind_number := sz_add (ind_number s) 1\<rparr>"
    using assms by (auto simp: set_new_client_Inr)
  let ?d = "servers s ! (draw g (ind_number s) mod length (servers s))"
  have "?d \<in> set (servers s)" using c(1) by simp
  then show "aims g (servers s) (cur_client t)" using c(2,3) by (auto simp: make_client_Inr aims_def)
qed (use assms in \<open>auto simp: set_new_client_Inr make_client_Inr\<close>)

lemma set_new_client_total:
  assumes "dsts \<noteq> []" "\<forall>d \<in> set dsts. valid_ip g (fst d) \<and> (\<exists>p. stoi (snd d) = Inr p)" "servers s = dsts"
  obtains t where "set_new_client g s = Some (Inr t)"
proof -
  let ?d = "dsts ! (draw g (ind_number s) mod length dsts)"
  have "?d \<in> set dsts" using assms(1) by simp
  then obtain p where "valid_ip g (fst ?d)" "stoi (snd ?d) = Inr p" using assms(2) by blast
  then show thesis using assms that by (auto simp: set_new_client_Inr make_client_Inr)
qed

text \<open>The configuration can be served: its ports are free in turn and its addresses are accepted.\<close>

definition startable :: "boost \<Rightarrow> config \<Rightarrow> bool" where
  "startable g es \<longleftrightarrow>
     (\<forall>e \<in> set es. fst e < 2 ^ 16 \<and> snd e \<noteq> [] \<and> (\<forall>d \<in> set (snd e). valid_ip g (fst d) \<and> snd d < 2 ^ 31))
   \<and> (\<forall>i < length es. can_bind g (map (\<lambda>e. int (fst e)) (take i es)) (int (fst (es ! i))))"

text \<open>A server that was started for an entry.\<close>

definition serves :: "boost \<Rightarrow> nat \<times> (string \<times> nat) list \<Rightarrow> ClientServer \<Rightarrow> bool" where
  "serves g e s \<longleftrightarrow> listen_port s = int (fst e) \<and> servers s = map dst_of (snd e) \<and> clients s = Map.empty
     \<and> (\<exists>d \<in> set (snd e). client_addr (cur_client s) = fst d \<and> client_port (cur_client s) = int (snd d))"

lemma new_ClientServer_serves:
  assumes "fst e < 2 ^ 16" "snd e \<noteq> []" "\<forall>d \<in> set (snd e). valid_ip g (fst d) \<and> snd d < 2 ^ 31"
    "can_bind g bound (int (fst e))"
  obtains s where "new_ClientServer g bound (decimal (fst e)) (map dst_of (snd e)) = Some (Inr s)" "serves g e s"
proof -
  let ?s0 = "\<lparr>listen_port = int (fst e), servers = map dst_of (snd e), ind_number = 0,
    cur_client = \<lparr>client_number = 0, client_addr = [], client_port = 0\<rparr>, clients = Map.empty\<rparr>"
  have ports: "\<forall>d \<in> set (snd e). stoi (decimal (snd d)) = Inr (int (snd d))" using assms(3) stoi_decimal by blast
  then have "\<forall>d \<in> set (map dst_of (snd e)). valid_ip g (fst d) \<and> (\<exists>p. stoi (snd d) = Inr p)"
    using assms(3) by (auto simp: dst_of_def)
  then obtain t where t: "set_new_client g ?s0 = Some (Inr t)"
    using set_new_client_total [of "map dst_of (snd e)" g ?s0] assms(2) by auto
  have "stoi (decimal (fst e)) = Inr (int (fst e))" using assms(1) by (intro stoi_decimal) simp
  moreover have "int (fst e) mod 2 ^ 16 = int (fst e)" using assms(1) by simp
  ultimately have "new_ClientServer g bound (decimal (fst e)) (map dst_of (snd e)) = Some (Inr t)"
    using t assms(4) by (simp add: new_ClientServer_def)
  moreover have "serves g e t"
    using set_new_client_aims [OF t] ports by (auto simp: serves_def aims_def dst_of_def)
  ultimately show thesis by (rule that)
qed

lemma new_servers_serve:
  assumes "\<forall>e \<in> set es. fst e < 2 ^ 16 \<and> snd e \<noteq> [] \<and> (\<forall>d \<in> set (snd e). valid_ip g (fst d) \<and> snd d < 2 ^ 31)"
    "\<forall>i < length es. can_bind g (map listen_port ss @ map (\<lambda>e. int (fst e)) (take i es)) (int (fst (es ! i)))"
  shows "\<exists>ts. new_servers g (map (\<lambda>e. (decimal (fst e), map dst_of (snd e))) es) ss = Some (Inr (ss @ ts))
    \<and> list_all2 (serves g) es ts"
  using assms
proof (induction es arbitrary: ss)
  case (Cons e es)
  obtain s where s: "new_ClientServer g (map listen_port ss) (decimal (fst e)) (map dst_of (snd e)) = Some (Inr s)" "serves g e s"
    using new_ClientServer_serves [of e g "map listen_port ss"] Cons.prems(1) Cons.prems(2) [THEN spec, of 0] by auto
  have "can_bind g (map listen_port (ss @ [s]) @ map (\<lambda>e. int (fst e)) (take i es)) (int (fst (es ! i)))" if "i < length es" for i
    using Cons.prems(2) [THEN spec, of "Suc i"] that s(2) by (simp add: serves_def)
  then obtain ts where "new_servers g (map (\<lambda>e. (decimal (fst e), map dst_of (snd e))) es) (ss @ [s]) = Some (Inr ((ss @ [s]) @ ts))"
    "list_all2 (serves g) es ts"
    using Cons.IH [of "ss @ [s]"] Cons.prems(1) by auto
  then show ?case using s by (intro exI [of _ "s # ts"]) simp
qed simp

text \<open>Property C16.
  Round trip and start of the proxy: the text of a configuration is read back entry by entry, and
  when its ports can be bound and its addresses are accepted, the constructor makes one listening
  server for every line, in order, with the servers of the line and a first client that will
  connect to one of them; \<open>main\<close> started with the name of a file of this text does the same.
\<close>

theorem config_starts_proxy:
  assumes "config_ok es" "startable g es"
  shows "read_config (config_text es) = map (\<lambda>e. (decimal (fst e), map dst_of (snd e))) es
    \<and> (\<exists>ss. new_Proxy g (config_text es) = Some (Inr ss) \<and> list_all2 (serves g) es ss
         \<and> (files f = Some (config_text es) \<longrightarrow> proxy_main files g [f] = Some (Inr ss)))"
proof -
  have "\<exists>ss. new_servers g (map (\<lambda>e. (decimal (fst e), map dst_of (snd e))) es) [] = Some (Inr ([] @ ss)) \<and> list_all2 (serves g) es ss"
    using assms(2) by (intro new_servers_serve) (simp_all add: startable_def)
  then show ?thesis using read_config_text [OF assms(1)] by (auto simp: new_Proxy_def proxy_main_def)
qed

definition boost0 :: boost where
  "boost0 = \<lparr>valid_ip = (\<lambda>s. s = ''1.2.3.4'' \<or> s = ''::1''), can_bind = (\<lambda>ports p. p \<notin> set ports), draw = (\<lambda>n. n)\<rparr>"

definition config0 :: config where
  "config0 = [(8000, [(''1.2.3.4'', 80), (''1.2.3.4'', 8080)]), (53, [(''1.2.3.4'', 5353)])]"

theorem config_starts_proxy_witness:
  "\<exists>ss. proxy_main [''proxy.conf'' \<mapsto> config_text config0] boost0 [''proxy.conf''] = Some (Inr ss)
    \<and> list_all2 (serves boost0) config0 ss"
proof -
  have "config_ok config0" by (simp add: config_ok_def config0_def address_ok_def)
  moreover have "startable boost0 config0"
    by (auto simp: startable_def config0_def boost0_def less_Suc_eq)
  ultimately show ?thesis
    using config_starts_proxy [of config0 boost0 "[''proxy.conf'' \<mapsto> config_text config0]" "''proxy.conf''"] by auto
qed

section \<open>The table of clients\<close>

text \<open>The states of a server: accepts that succeed or fail, and calls of \<open>stop\<close> with any number.\<close>

inductive serving :: "boost \<Rightarrow> server list \<Rightarrow> ClientServer \<Rightarrow> bool" for g dsts where
  created: "new_ClientServer g bound port dsts = Some (Inr s) \<Longrightarrow> serving g dsts s"
| accepted: "serving g dsts s \<Longrightarrow> handle_accept g e s = Some (Inr t) \<Longrightarrow> serving g dsts t"
| stopped: "serving g dsts s \<Longrightarrow> serving g dsts (stop n s)"

definition table_ok :: "boost \<Rightarrow> server list \<Rightarrow> ClientServer \<Rightarrow> bool" where
  "table_ok g dsts s \<longleftrightarrow>
     servers s = dsts \<and> aims g dsts (cur_client s) \<and> client_number (cur_client s) < SZ
   \<and> ind_number s = sz_add (client_number (cur_client s)) 1
   \<and> (\<forall>k c. clients s k = Some c \<longrightarrow> client_number c < SZ \<and> k = sz_add (client_number c) 1 \<and> aims g dsts c)"

lemma sz_add_less: "sz_add a b < SZ"
  by (simp add: sz_add_def)

lemma set_new_client_table:
  assumes "set_new_client g s = Some (Inr t)" "servers s = dsts" "ind_number s < SZ"
    "\<forall>k c. clients s k = Some c \<longrightarrow> client_number c < SZ \<and> k = sz_add (client_number c) 1 \<and> aims g dsts c"
  shows "table_ok g dsts t"
  using set_new_client_aims [OF assms(1)] assms(2-) by (simp add: table_ok_def)

lemma serving_table: "serving g dsts s \<Longrightarrow> table_ok g dsts s"
proof (induction rule: serving.induct)
  case (created bound port s)
  then obtain p where "set_new_client g \<lparr>listen_port = p mod 2 ^ 16, servers = dsts, ind_number = 0,
      cur_client = \<lparr>client_number = 0, client_addr = [], client_port = 0\<rparr>, clients = Map.empty\<rparr> = Some (Inr s)"
    by (auto simp: new_ClientServer_def split: sum.splits if_splits)
  then show ?case by (rule set_new_client_table) simp_all
next
  case (accepted s e t)
  have less: "ind_number s < SZ" using accepted.IH sz_add_less by (simp add: table_ok_def)
  show ?case
  proof (cases e)
    case True
    then have "set_new_client g s = Some (Inr t)" using accepted.hyps by (simp add: handle_accept_def)
    then show ?thesis by (rule set_new_client_table) (use accepted.IH less in \<open>auto simp: table_ok_def\<close>)
  next
    case False
    then have "set_new_client g (add_client s) = Some (Inr t)" using accepted.hyps by (simp add: handle_accept_def)
    then show ?thesis by (rule set_new_client_table) (use accepted.IH less in \<open>auto simp: table_ok_def add_client_def\<close>)
  qed
next
  case (stopped s n)
  then show ?case by (auto simp: table_ok_def stop_def)
qed

lemma sz_Suc_neq: "n < SZ \<Longrightarrow> sz_add n 1 \<noteq> n"
  by (cases "n + 1 = SZ") (auto simp: sz_add_def SZ_def)

text \<open>Property C38.
  In every state of a server, each registered client connects to one of the configured servers,
  but it is registered under the number after its own: when it stops, its entry stays in the
  table, and the entry that is removed is that of the client accepted before it.
\<close>

theorem stop_misses_own_entry:
  assumes "serving g dsts s" "clients s k = Some c"
  shows "aims g dsts c \<and> clients (stop (client_number c) s) k = Some c
    \<and> (\<forall>c'. clients s (client_number c) = Some c' \<longrightarrow>
        sz_add (client_number c') 1 = client_number c \<and> clients (stop (client_number c) s) (client_number c) = None)"
proof -
  have t: "\<forall>k c. clients s k = Some c \<longrightarrow> client_number c < SZ \<and> k = sz_add (client_number c) 1 \<and> aims g dsts c"
    using serving_table [OF assms(1)] by (simp add: table_ok_def)
  then have "k = sz_add (client_number c) 1" "client_number c < SZ" "aims g dsts c" using assms(2) by blast+
  then have "k \<noteq> client_number c" "aims g dsts c" using sz_Suc_neq [of "client_number c"] by simp_all
  then show ?thesis using assms(2) t by (auto simp: stop_def)
qed

lemma serving_example:
  obtains s c where "serving boost0 [(''1.2.3.4'', ''80'')] s" "clients s 1 = Some c" "client_number c = 0"
proof -
  let ?c = "\<lambda>n. \<lparr>client_number = n, client_addr = ''1.2.3.4'', client_port = 80\<rparr>"
  let ?s = "\<lambda>n m. \<lparr>listen_port = 80, servers = [(''1.2.3.4'', ''80'')], ind_number = Suc n, cur_client = ?c n, clients = m\<rparr>"
  have p: "stoi ''80'' = Inr 80" by (simp add: stoi_def Let_def is_space_def is_digit_def)
  have m: "make_client boost0 n (''1.2.3.4'', ''80'') = Inr (?c n)" for n by (simp add: make_client_def boost0_def p)
  have "new_ClientServer boost0 [] ''80'' [(''1.2.3.4'', ''80'')] = Some (Inr (?s 0 Map.empty))"
    by (simp add: new_ClientServer_def p set_new_client_def Let_def m sz_add_def SZ_def) (simp add: boost0_def)
  then have "serving boost0 [(''1.2.3.4'', ''80'')] (?s 0 Map.empty)" by (rule serving.created)
  moreover have "handle_accept boost0 False (?s 0 Map.empty) = Some (Inr (?s 1 [1 \<mapsto> ?c 0]))"
    by (simp add: handle_accept_def add_client_def set_new_client_def Let_def m sz_add_def SZ_def)
  ultimately have "serving boost0 [(''1.2.3.4'', ''80'')] (?s 1 [1 \<mapsto> ?c 0])" by (rule serving.accepted)
  then show thesis by (rule that [where c = "?c 0"]) simp_all
qed

theorem stop_misses_own_entry_witness:
  "\<exists>s c. serving boost0 [(''1.2.3.4'', ''80'')] s \<and> clients s 1 = Some c \<and> client_number c = 0
    \<and> clients (stop 0 s) 1 = Some c"
proof (rule serving_example)
  fix s c assume s: "serving boost0 [(''1.2.3.4'', ''80'')] s" "clients s 1 = Some c" "client_number c = 0"
  then show ?thesis using stop_misses_own_entry [OF s(1,2)] by auto
qed

end
