(* ===== verification/Proxy_Client.thy ===== *)
theory Proxy_Client
  imports Prelude "HOL-Library.Sublist"
begin

text \<open>
  Model of one connection of the proxy, the class \<open>Client\<close> of \<^verbatim>\<open>src/p3/proxy.cpp\<close>. Every asynchronous
  call puts an operation into \<open>pending\<close>; when the kernel completes one, its handler runs with an
  error flag and a size. The bytes that arrived and that were passed on are kept in the \<open>World\<close>
  beside the client. The steps are those that \<open>boost::asio\<close> documents: a receive without error
  gives at least one byte and at most the size of its buffer, a send takes a part of its bytes,
  and every operation may fail. After the sockets were closed an operation that had completed
  before still runs its handler without error; the steps allow this for every operation.
\<close>

section \<open>State\<close>

datatype sock = UserSock | ServerSock
datatype buffer = UserBuffer | ServerBuffer
datatype handler = OnConnect | OnUserRead | OnUserWrite | OnServerRead | OnServerWrite
datatype op = Connect | Receive sock buffer handler | Send sock buffer nat nat handler

definition BUF_SIZE :: nat where
  "BUF_SIZE = 1024"

record Client =
  user_buffer :: "byte list"
  server_buffer :: "byte list"
  server_work :: bool
  serv_size_message :: int
  user_size_message :: int
  serv_cur_size :: int
  user_cur_size :: int
  sockets_open :: bool
  father_stops :: nat
  pending :: "op list"

definition async :: "op \<Rightarrow> Client \<Rightarrow> Client" where
  "async x c = c\<lparr>pending := pending c @ [x]\<rparr>"

section \<open>Handlers\<close>

definition start :: "Client \<Rightarrow> Client" where
  "start c = async Connect c"

definition stop :: "Client \<Rightarrow> Client" where
  "stop c = c\<lparr>sockets_open := False, father_stops := father_stops c + 1\<rparr>"

definition connect :: "bool \<Rightarrow> Client \<Rightarrow> Client" where
  "connect error c =
     (if error then c\<lparr>sockets_open := False\<rparr>
      else
        let c = c\<lparr>server_work := True, serv_cur_size := 0, user_cur_size := 0\<rparr>;
            c = async (Receive UserSock UserBuffer OnUserRead) c
        in async (Receive ServerSock ServerBuffer OnServerRead) c)"

definition userRead :: "bool \<Rightarrow> nat \<Rightarrow> Client \<Rightarrow> Client" where
  "userRead error nbytes c =
     (if error then stop c
      else
        let c = c\<lparr>user_cur_size := 0, user_size_message := int nbytes\<rparr>
        in if nbytes \<noteq> 0 then async (Send ServerSock UserBuffer 0 nbytes OnUserWrite) c
           else async (Receive UserSock UserBuffer OnUserRead) c)"

definition userWrite :: "bool \<Rightarrow> nat \<Rightarrow> Client \<Rightarrow> Client" where
  "userWrite error nbytes c =
     (if error then stop c
      else
        let c = c\<lparr>user_cur_size := user_cur_size c + int nbytes\<rparr>
        in if user_size_message c = user_cur_size c
           then async (Receive UserSock UserBuffer OnUserRead) (c\<lparr>user_size_message := 0, user_cur_size := 0\<rparr>)
           else async (Send ServerSock UserBuffer (nat (user_cur_size c))
                  (nat (user_size_message c - user_cur_size c)) OnUserWrite) c)"

definition serverRead :: "bool \<Rightarrow> nat \<Rightarrow> Client \<Rightarrow> Client" where
  "serverRead error nbytes c =
     (if error then stop c
      else
        let c = c\<lparr>serv_cur_size := 0, serv_size_message := int nbytes\<rparr>
        in if nbytes \<noteq> 0 then async (Send UserSock ServerBuffer 0 nbytes OnServerWrite) c
           else async (Receive UserSock ServerBuffer OnServerRead) c)"

definition serverWrite :: "bool \<Rightarrow> nat \<Rightarrow> Client \<Rightarrow> Client" where
  "serverWrite error nbytes c =
     (if error then stop c
      else
        let c = c\<lparr>serv_cur_size := serv_cur_size c + int nbytes\<rparr>
        in if serv_size_message c = serv_cur_size c
           then async (Receive ServerSock ServerBuffer OnServerRead) (c\<lparr>serv_size_message := 0, serv_cur_size := 0\<rparr>)
           else async (Send UserSock ServerBuffer (nat (serv_cur_size c))
                  (nat (serv_size_message c - serv_cur_size c)) OnServerWrite) c)"

fun run_handler :: "handler \<Rightarrow> bool \<Rightarrow> nat \<Rightarrow> Client \<Rightarrow> Client" where
  "run_handler OnConnect e n c = connect e c"
| "run_handler OnUserRead e n c = userRead e n c"
| "run_handler OnUserWrite e n c = userWrite e n c"
| "run_handler OnServerRead e n c = serverRead e n c"
| "run_handler OnServerWrite e n c = serverWrite e n c"

section \<open>Completions\<close>

record World =
  client :: Client
  from_user :: "byte list"
  to_server :: "byte list"
  from_server :: "byte list"
  to_user :: "byte list"

definition get_buffer :: "buffer \<Rightarrow> Client \<Rightarrow> byte list" where
  "get_buffer b c = (case b of UserBuffer \<Rightarrow> user_buffer c | ServerBuffer \<Rightarrow> server_buffer c)"

definition fill_buffer :: "buffer \<Rightarrow> byte list \<Rightarrow> Client \<Rightarrow> Client" where
  "fill_buffer b bs c = (case b of
      UserBuffer \<Rightarrow> c\<lparr>user_buffer := bs @ drop (length bs) (user_buffer c)\<rparr>
    | ServerBuffer \<Rightarrow> c\<lparr>server_buffer := bs @ drop (length bs) (server_buffer c)\<rparr>)"

definition arrived :: "sock \<Rightarrow> byte list \<Rightarrow> World \<Rightarrow> World" where
  "arrived s bs w = (case s of
      UserSock \<Rightarrow> w\<lparr>from_user := from_user w @ bs\<rparr>
    | ServerSock \<Rightarrow> w\<lparr>from_server := from_server w @ bs\<rparr>)"

definition passed :: "sock \<Rightarrow> byte list \<Rightarrow> World \<Rightarrow> World" where
  "passed s bs w = (case s of
      UserSock \<Rightarrow> w\<lparr>to_user := to_user w @ bs\<rparr>
    | ServerSock \<Rightarrow> w\<lparr>to_server := to_server w @ bs\<rparr>)"

fun handler_of :: "op \<Rightarrow> handler" where
  "handler_of Connect = OnConnect"
| "handler_of (Receive s b h) = h"
| "handler_of (Send s b off len h) = h"

definition complete :: "op list \<Rightarrow> handler \<Rightarrow> bool \<Rightarrow> nat \<Rightarrow> Client \<Rightarrow> Client" where
  "complete ops h e n c = run_handler h e n (c\<lparr>pending := ops\<rparr>)"

inductive step :: "World \<Rightarrow> World \<Rightarrow> bool" where
  connected: "pending (client w) = xs @ Connect # ys \<Longrightarrow>
    step w (w\<lparr>client := complete (xs @ ys) OnConnect False 0 (client w)\<rparr>)"
| received: "pending (client w) = xs @ Receive s b h # ys \<Longrightarrow>
    0 < length bs \<Longrightarrow> length bs \<le> BUF_SIZE \<Longrightarrow>
    step w (arrived s bs (w\<lparr>client := complete (xs @ ys) h False (length bs) (fill_buffer b bs (client w))\<rparr>))"
| sent: "pending (client w) = xs @ Send s b off len h # ys \<Longrightarrow>
    0 < n \<Longrightarrow> n \<le> len \<Longrightarrow>
    step w (passed s (take n (drop off (get_buffer b (client w))))
      (w\<lparr>client := complete (xs @ ys) h False n (client w)\<rparr>))"
| failed: "pending (client w) = xs @ x # ys \<Longrightarrow>
    step w (w\<lparr>client := complete (xs @ ys) (handler_of x) True 0 (client w)\<rparr>)"

text \<open>A new client with indeterminate buffers and sizes, whose connection was accepted.\<close>

definition fresh :: "Client \<Rightarrow> bool" where
  "fresh c \<longleftrightarrow> length (user_buffer c) = BUF_SIZE \<and> length (server_buffer c) = BUF_SIZE
     \<and> \<not> server_work c \<and> sockets_open c \<and> father_stops c = 0 \<and> pending c = []"

inductive reachable :: "World \<Rightarrow> bool" where
  init: "fresh c \<Longrightarrow> reachable \<lparr>client = start c, from_user = [], to_server = [], from_server = [], to_user = []\<rparr>"
| run: "reachable w \<Longrightarrow> step w w' \<Longrightarrow> reachable w'"

section \<open>The two directions\<close>

text \<open>
  A direction of the relay reads from one socket into its buffer and writes the buffer to the
  other. It is idle before the connection, then it reads, or it has bytes left to write.
\<close>

datatype phase = Idle | Reading | Writing "byte list" | Lost

text \<open>The abstract relay: its phase, what came in and what went out.\<close>

type_synonym relay = "phase \<times> byte list \<times> byte list"

inductive relay_step :: "relay \<Rightarrow> relay \<Rightarrow> bool" where
  same: "relay_step v v"
| connect: "relay_step (Idle, i, u) (Reading, i, u)"
| read: "relay_step (Reading, i, u) (Writing bs, i @ bs, u)"
| part: "relay_step (Writing (xs @ ys), i, u) (Writing ys, i, u @ xs)"
| all: "relay_step (Writing xs, i, u) (Reading, i, u @ xs)"
| lose: "relay_step (p, i, u) (Lost, i, u)"

fun relay_inv :: "relay \<Rightarrow> bool" where
  "relay_inv (Idle, i, u) \<longleftrightarrow> i = [] \<and> u = []"
| "relay_inv (Reading, i, u) \<longleftrightarrow> u = i"
| "relay_inv (Writing bs, i, u) \<longleftrightarrow> u @ bs = i"
| "relay_inv (Lost, i, u) \<longleftrightarrow> prefix u i"

inductive_cases relay_stepE: "relay_step v v'"

lemma relay_step_inv: "relay_step v v' \<Longrightarrow> relay_inv v \<Longrightarrow> relay_inv v'"
proof (induction rule: relay_step.induct)
  case (lose p i u)
  then show ?case by (cases p) (auto simp: prefix_def)
qed auto

text \<open>
  A relay is a view of the world in which every step of the connection is a step of the abstract
  relay. \<open>ok\<close> is the invariant of the connection on which this rests.
\<close>

locale relay =
  fixes view :: "World \<Rightarrow> relay" and ok :: "World \<Rightarrow> bool"
  assumes view_init: "fresh c \<Longrightarrow>
      view \<lparr>client = start c, from_user = [], to_server = [], from_server = [], to_user = []\<rparr> = (Idle, [], [])"
    and ok_reachable: "reachable w \<Longrightarrow> ok w"
    and view_step: "ok w \<Longrightarrow> step w w' \<Longrightarrow> relay_step (view w) (view w')"
begin

lemma relay_reachable: "reachable w \<Longrightarrow> relay_inv (view w)"
proof (induction rule: reachable.induct)
  case (init c)
  then show ?case by (simp add: view_init)
next
  case (run w w')
  then show ?case using view_step ok_reachable relay_step_inv by blast
qed

lemma passes_prefix:
  assumes "reachable w" "view w = (p, i, u)"
  shows "prefix u i" "p = Reading \<Longrightarrow> u = i" "p = Writing bs \<Longrightarrow> u @ bs = i"
  using relay_reachable [OF assms(1)] assms(2) by (cases p; auto)+

end

section \<open>The invariant of a connection\<close>

datatype dir = Up | Down

definition source :: "dir \<Rightarrow> sock" where
  "source d = (case d of Up \<Rightarrow> UserSock | Down \<Rightarrow> ServerSock)"

definition target :: "dir \<Rightarrow> sock" where
  "target d = (case d of Up \<Rightarrow> ServerSock | Down \<Rightarrow> UserSock)"

definition buffer_of :: "dir \<Rightarrow> buffer" where
  "buffer_of d = (case d of Up \<Rightarrow> UserBuffer | Down \<Rightarrow> ServerBuffer)"

definition on_read :: "dir \<Rightarrow> handler" where
  "on_read d = (case d of Up \<Rightarrow> OnUserRead | Down \<Rightarrow> OnServerRead)"

definition on_write :: "dir \<Rightarrow> handler" where
  "on_write d = (case d of Up \<Rightarrow> OnUserWrite | Down \<Rightarrow> OnServerWrite)"

definition cur_size :: "dir \<Rightarrow> Client \<Rightarrow> int" where
  "cur_size d c = (case d of Up \<Rightarrow> user_cur_size c | Down \<Rightarrow> serv_cur_size c)"

definition message_size :: "dir \<Rightarrow> Client \<Rightarrow> int" where
  "message_size d c = (case d of Up \<Rightarrow> user_size_message c | Down \<Rightarrow> serv_size_message c)"

definition came_in :: "dir \<Rightarrow> World \<Rightarrow> byte list" where
  "came_in d w = (case d of Up \<Rightarrow> from_user w | Down \<Rightarrow> from_server w)"

definition went_out :: "dir \<Rightarrow> World \<Rightarrow> byte list" where
  "went_out d w = (case d of Up \<Rightarrow> to_server w | Down \<Rightarrow> to_user w)"

lemmas dir_defs = source_def target_def buffer_of_def on_read_def on_write_def cur_size_def message_size_def
  came_in_def went_out_def

text \<open>The operations of a direction that are under way.\<close>

definition ops_of :: "dir \<Rightarrow> op list \<Rightarrow> op list" where
  "ops_of d ops = filter (\<lambda>x. handler_of x \<in> {on_read d, on_write d}) ops"

definition receive_op :: "dir \<Rightarrow> op" where
  "receive_op d = Receive (source d) (buffer_of d) (on_read d)"

definition send_op :: "dir \<Rightarrow> nat \<Rightarrow> nat \<Rightarrow> op" where
  "send_op d off len = Send (target d) (buffer_of d) off len (on_write d)"

definition sending :: "dir \<Rightarrow> Client \<Rightarrow> nat \<Rightarrow> nat \<Rightarrow> bool" where
  "sending d c off len \<longleftrightarrow> 0 < len \<and> off + len \<le> BUF_SIZE \<and> cur_size d c = int off \<and> message_size d c = int (off + len)"

definition dir_ok :: "dir \<Rightarrow> Client \<Rightarrow> bool" where
  "dir_ok d c \<longleftrightarrow> length (get_buffer (buffer_of d) c) = BUF_SIZE \<and>
     (ops_of d (pending c) = [] \<or> ops_of d (pending c) = [receive_op d]
      \<or> (\<exists>off len. ops_of d (pending c) = [send_op d off len] \<and> sending d c off len))"

definition other :: "dir \<Rightarrow> dir" where
  "other d = (case d of Up \<Rightarrow> Down | Down \<Rightarrow> Up)"

text \<open>
  Before the connection only it is pending; after it, as long as the sockets are open, each
  direction has one operation under way.
\<close>

definition connection_ok :: "Client \<Rightarrow> bool" where
  "connection_ok c \<longleftrightarrow> (\<forall>d. dir_ok d c) \<and>
     (pending c = [Connect] \<and> sockets_open c
      \<or> set (pending c) \<subseteq> set (ops_of Up (pending c)) \<union> set (ops_of Down (pending c))
        \<and> (sockets_open c \<longrightarrow> (\<forall>d. ops_of d (pending c) \<noteq> [])))"

text \<open>What a handler leaves alone in a direction.\<close>

definition same_dir :: "dir \<Rightarrow> Client \<Rightarrow> Client \<Rightarrow> bool" where
  "same_dir d c c' \<longleftrightarrow> get_buffer (buffer_of d) c' = get_buffer (buffer_of d) c
     \<and> cur_size d c' = cur_size d c \<and> message_size d c' = message_size d c"

lemma dir_exhaust: "d' = d \<or> d' = other d"
  by (cases d; cases d') (auto simp: other_def)

lemma other_neq [simp]: "other d \<noteq> d" "d \<noteq> other d"
  by (cases d; simp add: other_def)+

lemma ops_of_simps [simp]:
  "ops_of d [] = []" "ops_of d (xs @ ys) = ops_of d xs @ ops_of d ys"
  "ops_of d (Connect # ys) = ops_of d ys"
  "ops_of d (receive_op d # ys) = receive_op d # ops_of d ys" "ops_of (other d) (receive_op d # ys) = ops_of (other d) ys"
  "ops_of d (send_op d off len # ys) = send_op d off len # ops_of d ys"
  "ops_of (other d) (send_op d off len # ys) = ops_of (other d) ys"
  by (cases d; simp add: ops_of_def dir_defs receive_op_def send_op_def other_def)+

lemma ops_of_mem: "x \<in> set (ops_of d xs) \<longleftrightarrow> x \<in> set xs \<and> (handler_of x = on_read d \<or> handler_of x = on_write d)"
  by (auto simp: ops_of_def)

lemma ops_of_Cons: "ops_of d (x # ys) = ops_of d [x] @ ops_of d ys"
  by (simp add: ops_of_def)

lemma ops_of_one: "x \<in> set (ops_of d xs) \<Longrightarrow> ops_of d [x] = [x]"
  by (auto simp: ops_of_def)

lemma read_handler:
  assumes "n \<noteq> 0" "n \<le> BUF_SIZE"
  shows "pending (complete ops (on_read d) False n c) = ops @ [send_op d 0 n]"
    "sending d (complete ops (on_read d) False n c) 0 n"
    "same_dir (other d) c (complete ops (on_read d) False n c)"
    "get_buffer b (complete ops (on_read d) False n c) = get_buffer b c"
    "sockets_open (complete ops (on_read d) False n c) = sockets_open c"
  using assms by (cases d; simp add: complete_def userRead_def serverRead_def async_def Let_def dir_defs send_op_def
      sending_def same_dir_def other_def get_buffer_def split: buffer.split)+

lemma write_handler:
  assumes "sending d c off len" "n \<le> len"
  shows "pending (complete ops (on_write d) False n c) = ops @ [if n = len then receive_op d else send_op d (off + n) (len - n)]"
    "n \<noteq> len \<Longrightarrow> sending d (complete ops (on_write d) False n c) (off + n) (len - n)"
    "same_dir (other d) c (complete ops (on_write d) False n c)"
    "get_buffer b (complete ops (on_write d) False n c) = get_buffer b c"
    "sockets_open (complete ops (on_write d) False n c) = sockets_open c"
  using assms by (cases d; auto simp: complete_def userWrite_def serverWrite_def async_def Let_def dir_defs send_op_def
      receive_op_def sending_def same_dir_def other_def get_buffer_def nat_add_distrib split: buffer.split)+

lemma error_handler:
  "pending (complete ops h True n c) = ops" "\<not> sockets_open (complete ops h True n c)"
  "same_dir d c (complete ops h True n c)" "get_buffer b (complete ops h True n c) = get_buffer b c"
  by (cases h; simp add: complete_def connect_def userRead_def userWrite_def serverRead_def serverWrite_def stop_def
      same_dir_def get_buffer_def dir_defs split: buffer.split dir.split)+

lemma connect_handler:
  "pending (complete ops OnConnect False n c) = ops @ [receive_op Up, receive_op Down]"
  "get_buffer b (complete ops OnConnect False n c) = get_buffer b c"
  "sockets_open (complete ops OnConnect False n c) = sockets_open c"
  by (simp_all add: complete_def connect_def async_def Let_def receive_op_def dir_defs get_buffer_def split: buffer.split)

lemma fill_same:
  "same_dir (other d) c (fill_buffer (buffer_of d) bs c)" "pending (fill_buffer b bs c) = pending c"
  "sockets_open (fill_buffer b bs c) = sockets_open c"
  "get_buffer b (fill_buffer b bs c) = bs @ drop (length bs) (get_buffer b c)"
  by (cases d; cases b; simp add: fill_buffer_def same_dir_def other_def dir_defs get_buffer_def)+

lemma dir_ok_same:
  assumes "same_dir d c c'" "ops_of d (pending c') = ops_of d (pending c)" "dir_ok d c"
  shows "dir_ok d c'"
  using assms by (simp add: same_dir_def dir_ok_def sending_def)

text \<open>Which operation can complete.\<close>

lemma op_cases:
  assumes "connection_ok c" "pending c = xs @ x # ys"
  obtains "x = Connect" "xs = []" "ys = []" "sockets_open c"
  | d where "x = receive_op d" "ops_of d xs = []" "ops_of d ys = []" "pending c \<noteq> [Connect]"
  | d off len where "x = send_op d off len" "sending d c off len" "ops_of d xs = []" "ops_of d ys = []" "pending c \<noteq> [Connect]"
proof -
  consider "pending c = [Connect]" "sockets_open c" | d where "x \<in> set (ops_of d (pending c))" "pending c \<noteq> [Connect]"
  proof (cases "pending c = [Connect] \<and> sockets_open c")
    case False
    then have s: "set (pending c) \<subseteq> set (ops_of Up (pending c)) \<union> set (ops_of Down (pending c))"
      using assms(1) by (auto simp: connection_ok_def)
    moreover have "x \<in> set (pending c)" using assms(2) by simp
    moreover have "pending c \<noteq> [Connect]" using s by auto
    ultimately show ?thesis using that(2) [of Up] that(2) [of Down] by blast
  qed (use that(1) in blast)
  then show ?thesis
  proof cases
    case 1
    then show ?thesis using assms(2) that(1) by (auto simp: Cons_eq_append_conv append_eq_Cons_conv)
  next
    case (2 d)
    have d: "dir_ok d c" using assms(1) by (simp add: connection_ok_def)
    have o: "ops_of d (pending c) = ops_of d xs @ x # ops_of d ys"
      using ops_of_one [OF 2(1)] ops_of_Cons [of d x ys] by (simp add: assms(2))
    have "ops_of d (pending c) \<noteq> []" using 2(1) by auto
    then consider "ops_of d (pending c) = [receive_op d]"
      | off len where "ops_of d (pending c) = [send_op d off len]" "sending d c off len"
      using d by (auto simp: dir_ok_def)
    then show ?thesis
    proof cases
      case 1
      then show ?thesis using that(2) [of d] o 2(2) by (auto simp: append_eq_Cons_conv)
    next
      case (2 off len)
      then show ?thesis using that(3) [of d off len] o \<open>pending c \<noteq> [Connect]\<close> by (auto simp: append_eq_Cons_conv)
    qed
  qed
qed

lemma ops_subset_parts:
  "set (xs @ x # ys) \<subseteq> set (ops_of Up (xs @ x # ys)) \<union> set (ops_of Down (xs @ x # ys))
   \<Longrightarrow> set (xs @ ys) \<subseteq> set (ops_of Up (xs @ ys)) \<union> set (ops_of Down (xs @ ys))"
  unfolding subset_iff Un_iff ops_of_mem by auto

text \<open>A direction is replaced, the other is kept.\<close>

lemma connection_ok_turn:
  assumes c: "connection_ok c" "pending c = xs @ x # ys" "pending c \<noteq> [Connect]"
    and x: "ops_of d xs = []" "ops_of d ys = []" "ops_of (other d) [x] = []"
    and c': "pending c' = (xs @ ys) @ [x']" "sockets_open c' = sockets_open c" "same_dir (other d) c c'"
    and x': "ops_of d [x'] = [x']" "ops_of (other d) [x'] = []" "dir_ok d c'"
  shows "connection_ok c'"
proof -
  have s: "set (pending c) \<subseteq> set (ops_of Up (pending c)) \<union> set (ops_of Down (pending c))"
    and op: "sockets_open c \<longrightarrow> (\<forall>d. ops_of d (pending c) \<noteq> [])"
    using c by (auto simp: connection_ok_def)
  have o: "ops_of (other d) (pending c') = ops_of (other d) (pending c)"
    using x(3) x'(2) ops_of_Cons [of "other d" x ys] unfolding c(2) c'(1) by simp
  have od: "ops_of d (pending c') = [x']" using x x'(1) unfolding c'(1) by simp
  have "dir_ok (other d) c'" using dir_ok_same [OF c'(3) o] c(1) by (simp add: connection_ok_def)
  then have d': "\<forall>e. dir_ok e c'" using x'(3) dir_exhaust by metis
  have "set (xs @ ys) \<subseteq> set (ops_of Up (xs @ ys)) \<union> set (ops_of Down (xs @ ys))"
    using s unfolding c(2) by (rule ops_subset_parts)
  moreover have "x' \<in> set (ops_of Up [x']) \<union> set (ops_of Down [x'])" using x'(1) by (cases d) auto
  ultimately have "set (pending c') \<subseteq> set (ops_of Up (pending c')) \<union> set (ops_of Down (pending c'))"
    unfolding c'(1) by auto
  moreover have "\<forall>e. ops_of e (pending c') \<noteq> []" if "sockets_open c'"
    using that od o op c'(2) dir_exhaust [of _ d] by (metis not_Cons_self2)
  ultimately show ?thesis using d' by (simp add: connection_ok_def)
qed

lemma connection_ok_error:
  assumes "connection_ok c" "pending c = xs @ x # ys"
  shows "connection_ok (complete (xs @ ys) h True n c)"
proof -
  let ?c = "complete (xs @ ys) h True n c"
  have d: "dir_ok d ?c" for d
  proof -
    have k: "dir_ok d c" using assms(1) by (simp add: connection_ok_def)
    have "ops_of d (xs @ ys) = ops_of d (pending c) \<or> ops_of d (xs @ ys) = []"
    proof (rule op_cases [OF assms], goal_cases)
      case 1
      then show ?case by simp
    next
      case (2 e)
      then show ?case using dir_exhaust [of d e] by (auto simp: assms(2))
    next
      case (3 e off len)
      then show ?case using dir_exhaust [of d e] by (auto simp: assms(2))
    qed
    then show ?thesis
      using k error_handler(3) [of d c "xs @ ys" h n] by (auto simp: dir_ok_def error_handler same_dir_def sending_def)
  qed
  have "set (xs @ ys) \<subseteq> set (ops_of Up (xs @ ys)) \<union> set (ops_of Down (xs @ ys))"
  proof (cases "pending c = [Connect] \<and> sockets_open c")
    case True
    then show ?thesis using assms(2) by (auto simp: append_eq_Cons_conv)
  next
    case False
    then have "set (pending c) \<subseteq> set (ops_of Up (pending c)) \<union> set (ops_of Down (pending c))"
      using assms(1) by (auto simp: connection_ok_def)
    then show ?thesis unfolding assms(2) by (rule ops_subset_parts)
  qed
  then show ?thesis using d by (simp add: connection_ok_def error_handler)
qed

section \<open>Every step keeps the invariant and is a step of the relay\<close>

definition phase_of :: "dir \<Rightarrow> Client \<Rightarrow> phase" where
  "phase_of d c = (case ops_of d (pending c) of
       Send s b off len h # _ \<Rightarrow> Writing (take len (drop off (get_buffer b c)))
     | [] \<Rightarrow> (if pending c = [Connect] then Idle else Lost)
     | _ \<Rightarrow> Reading)"

definition view :: "dir \<Rightarrow> World \<Rightarrow> relay" where
  "view d w = (phase_of d (client w), came_in d w, went_out d w)"

lemma phase_same:
  assumes "same_dir d c c'" "ops_of d (pending c') = ops_of d (pending c)" "dir_ok d c"
    and "pending c \<noteq> [Connect]" "pending c' \<noteq> [Connect]"
  shows "phase_of d c' = phase_of d c"
  using assms by (auto simp: phase_of_def dir_ok_def same_dir_def receive_op_def send_op_def)

lemma phase_simps:
  "ops_of d (pending c) = [receive_op d] \<Longrightarrow> phase_of d c = Reading"
  "ops_of d (pending c) = [send_op d off len]
    \<Longrightarrow> phase_of d c = Writing (take len (drop off (get_buffer (buffer_of d) c)))"
  by (simp_all add: phase_of_def receive_op_def send_op_def)

lemma moved_simps [simp]:
  "came_in d (arrived (source d) bs w) = came_in d w @ bs" "came_in (other d) (arrived (source d) bs w) = came_in (other d) w"
  "went_out e (arrived s bs w) = went_out e w"
  "went_out d (passed (target d) bs w) = went_out d w @ bs" "went_out (other d) (passed (target d) bs w) = went_out (other d) w"
  "came_in e (passed s bs w) = came_in e w"
  "client (arrived s bs w) = client w" "client (passed s bs w) = client w"
  "came_in e (w\<lparr>client := c\<rparr>) = came_in e w" "went_out e (w\<lparr>client := c\<rparr>) = went_out e w"
  by (cases d; simp add: arrived_def passed_def dir_defs other_def)
    (cases d; cases e; cases s; simp add: arrived_def passed_def dir_defs other_def)+

lemma op_simps [simp]:
  "receive_op d \<noteq> send_op d off len" "send_op d off len = send_op d off' len' \<longleftrightarrow> off = off' \<and> len = len'"
  "send_op d off len \<noteq> receive_op d" "receive_op d \<noteq> Connect" "send_op d off len \<noteq> Connect" "Connect \<noteq> receive_op d" "Connect \<noteq> send_op d off len"
  by (auto simp: receive_op_def send_op_def)

lemma same_dir_trans: "same_dir d a b \<Longrightarrow> same_dir d b c \<Longrightarrow> same_dir d a c"
  by (simp add: same_dir_def)

text \<open>A receive of direction \<open>e\<close> completes.\<close>

lemma received_ok:
  assumes "connection_ok c" "pending c = xs @ receive_op e # ys" "0 < length bs" "length bs \<le> BUF_SIZE"
    and c': "c' = complete (xs @ ys) (on_read e) False (length bs) (fill_buffer (buffer_of e) bs c)"
  shows "connection_ok c'" "phase_of e c = Reading" "phase_of e c' = Writing bs" "phase_of (other e) c' = phase_of (other e) c"
proof -
  let ?f = "fill_buffer (buffer_of e) bs c"
  have n: "length bs \<noteq> 0" using assms(3) by simp
  note R = read_handler [OF n assms(4)]
  have d: "dir_ok d c" for d using assms(1) by (simp add: connection_ok_def)
  have ne: "pending c \<noteq> [Connect]" using assms(2) by (auto simp: append_eq_Cons_conv)
  have o: "ops_of e xs = []" "ops_of e ys = []"
    using d [of e] assms(2) by (auto simp: dir_ok_def append_eq_Cons_conv)
  have p': "pending c' = (xs @ ys) @ [send_op e 0 (length bs)]" "sockets_open c' = sockets_open c"
    unfolding c' R(1,5) by (simp_all add: fill_same)
  have same: "same_dir (other e) c c'" unfolding c' by (rule same_dir_trans [OF fill_same(1) R(3)])
  have lb: "length (get_buffer (buffer_of e) c) = BUF_SIZE" using d [of e] by (simp add: dir_ok_def)
  have b: "get_buffer (buffer_of e) c' = bs @ drop (length bs) (get_buffer (buffer_of e) c)"
    unfolding c' R(4) by (rule fill_same)
  have "sending e c' 0 (length bs)" unfolding c' by (rule R(2))
  moreover have "ops_of e (pending c') = [send_op e 0 (length bs)]" using o p'(1) by simp
  ultimately have "dir_ok e c'" using lb assms(4) b unfolding dir_ok_def by simp
  then show "connection_ok c'"
    using connection_ok_turn [OF assms(1,2) ne o _ p' same] by simp
  show "phase_of e c = Reading" using assms(2) o by (intro phase_simps) simp_all
  have "phase_of e c' = Writing (take (length bs) (drop 0 (get_buffer (buffer_of e) c')))"
    using o p' by (intro phase_simps) simp_all
  then show "phase_of e c' = Writing bs" by (simp add: b)
  have "ops_of (other e) (pending c') = ops_of (other e) (pending c)" unfolding p'(1) assms(2) by simp
  then show "phase_of (other e) c' = phase_of (other e) c"
    by (rule phase_same [OF same _ d ne]) (use p'(1) in simp)
qed

text \<open>A send of direction \<open>e\<close> completes with \<open>n\<close> bytes.\<close>

lemma sent_ok:
  assumes "connection_ok c" "pending c = xs @ send_op e off len # ys" "0 < n" "n \<le> len"
    and c': "c' = complete (xs @ ys) (on_write e) False n c"
  shows "connection_ok c'" "phase_of (other e) c' = phase_of (other e) c"
    "phase_of e c = Writing (take n (drop off (get_buffer (buffer_of e) c)) @ take (len - n) (drop (off + n) (get_buffer (buffer_of e) c)))"
    "phase_of e c' = (if n = len then Reading else Writing (take (len - n) (drop (off + n) (get_buffer (buffer_of e) c))))"
proof -
  have d: "dir_ok d c" for d using assms(1) by (simp add: connection_ok_def)
  have ne: "pending c \<noteq> [Connect]" using assms(2) by (auto simp: append_eq_Cons_conv)
  have o: "ops_of e xs = []" "ops_of e ys = []" and s: "sending e c off len"
    using d [of e] assms(2) by (auto simp: dir_ok_def append_eq_Cons_conv)
  note W = write_handler [OF s assms(4)]
  let ?x = "if n = len then receive_op e else send_op e (off + n) (len - n)"
  have p': "pending c' = (xs @ ys) @ [?x]" "sockets_open c' = sockets_open c" unfolding c' W(1,5) by simp_all
  have same: "same_dir (other e) c c'" unfolding c' by (rule W(3))
  have b: "get_buffer (buffer_of e) c' = get_buffer (buffer_of e) c" unfolding c' by (rule W(4))
  have "n \<noteq> len \<Longrightarrow> sending e c' (off + n) (len - n)" unfolding c' by (rule W(2))
  moreover have "ops_of e (pending c') = [?x]" using o p'(1) by simp
  ultimately have "dir_ok e c'" using d [of e] b unfolding dir_ok_def by auto
  then show "connection_ok c'"
    using connection_ok_turn [OF assms(1,2) ne o _ p' same] by simp
  have t: "take len (drop off B) = take n (drop off B) @ take (len - n) (drop (off + n) B)" for B :: "byte list"
    using assms(4) by (metis add_diff_inverse_nat add.commute drop_drop not_less take_add)
  have "phase_of e c = Writing (take len (drop off (get_buffer (buffer_of e) c)))"
    using assms(2) o by (intro phase_simps) simp_all
  then show "phase_of e c = Writing (take n (drop off (get_buffer (buffer_of e) c)) @ take (len - n) (drop (off + n) (get_buffer (buffer_of e) c)))"
    unfolding t .
  show "phase_of e c' = (if n = len then Reading else Writing (take (len - n) (drop (off + n) (get_buffer (buffer_of e) c))))"
    using o p' b phase_simps [of e c'] by (cases "n = len") simp_all
  have "ops_of (other e) (pending c') = ops_of (other e) (pending c)" unfolding p'(1) assms(2) by simp
  then show "phase_of (other e) c' = phase_of (other e) c"
    by (rule phase_same [OF same _ d ne]) (use p'(1) in simp)
qed

lemma connected_ok:
  assumes "connection_ok c" "pending c = xs @ Connect # ys"
    and c': "c' = complete (xs @ ys) OnConnect False 0 c"
  shows "connection_ok c'" "phase_of d c = Idle" "phase_of d c' = Reading"
proof -
  have p: "xs = []" "ys = []" "sockets_open c"
    by (rule op_cases [OF assms(1,2)]; simp)+
  have p': "pending c' = [receive_op Up, receive_op Down]" "sockets_open c'"
    "get_buffer b c' = get_buffer b c" for b
    unfolding c' connect_handler using p by simp_all
  have o: "ops_of Down [receive_op Up, receive_op Down] = [receive_op Down]"
    "ops_of Up [receive_op Up, receive_op Down] = [receive_op Up]"
    by (simp_all add: ops_of_def receive_op_def dir_defs)
  have l: "length (get_buffer (buffer_of e) c) = BUF_SIZE" for e
    using assms(1) by (simp add: connection_ok_def dir_ok_def)
  have e: "ops_of e (pending c') = [receive_op e]" for e using o p'(1) by (cases e) simp_all
  show "connection_ok c'" using e l p' by (simp add: connection_ok_def dir_ok_def)
  show "phase_of d c = Idle" using assms(2) p by (simp add: phase_of_def)
  show "phase_of d c' = Reading" using e p'(2) by (intro phase_simps)
qed

text \<open>After an error a direction has lost its operation or is as before.\<close>

lemma failed_phase:
  assumes "connection_ok c" "pending c = xs @ x # ys"
  shows "phase_of d (complete (xs @ ys) h True n c) = phase_of d c \<or> phase_of d (complete (xs @ ys) h True n c) = Lost"
proof -
  let ?c = "complete (xs @ ys) h True n c"
  have same: "same_dir d c ?c" and p': "pending ?c = xs @ ys" by (simp_all add: error_handler)
  have ok: "connection_ok ?c" using connection_ok_error [OF assms] .
  have "pending ?c \<noteq> [Connect]"
    using ok error_handler(2) [of "xs @ ys" h n c] by (auto simp: connection_ok_def)
  moreover from this have "phase_of d ?c = Lost" if "ops_of d (xs @ ys) = []"
    using that p' by (simp add: phase_of_def)
  moreover have "dir_ok d c" using assms(1) by (simp add: connection_ok_def)
  ultimately have *: ?thesis if "pending c \<noteq> [Connect]" "ops_of d (xs @ ys) = ops_of d (pending c) \<or> ops_of d (xs @ ys) = []"
    using that p' phase_same [OF same] by metis
  show ?thesis
  proof (rule op_cases [OF assms], goal_cases)
    case 1
    then show ?case using p' by (simp add: phase_of_def)
  next
    case (2 e)
    show ?case by (rule * [OF 2(4)]) (use 2 dir_exhaust [of d e] in \<open>auto simp: assms(2)\<close>)
  next
    case (3 e off len)
    show ?case by (rule * [OF 3(5)]) (use 3 dir_exhaust [of d e] in \<open>auto simp: assms(2)\<close>)
  qed
qed

lemma step_ok:
  assumes "step w w'" "connection_ok (client w)"
  shows "connection_ok (client w') \<and> relay_step (view d w) (view d w')"
  using assms
proof (cases rule: step.cases)
  case (connected xs ys)
  note C = connected_ok [OF assms(2) connected(2) refl]
  then show ?thesis using connected(1) by (simp add: view_def relay_step.connect)
next
  case (received xs s b h ys bs)
  have "Receive s b h \<noteq> Connect" by simp
  with op_cases [OF assms(2) received(2)] obtain e where e: "Receive s b h = receive_op e"
    by (metis op.distinct(5) send_op_def)
  then have s: "s = source e" "b = buffer_of e" "h = on_read e" by (simp_all add: receive_op_def)
  note R = received_ok [OF assms(2) received(2) [unfolded e] received(3,4) refl]
  show ?thesis using dir_exhaust [of d e] R received(1)
    by (auto simp: s view_def intro: relay_step.intros)
next
  case (sent xs s b off len h ys n)
  with op_cases [OF assms(2) sent(2)] obtain e where e: "Send s b off len h = send_op e off len"
    by (metis op.distinct(3) op.distinct(5) op.inject(2) receive_op_def send_op_def)
  then have s: "s = target e" "b = buffer_of e" "h = on_write e" by (simp_all add: send_op_def)
  note S = sent_ok [OF assms(2) sent(2) [unfolded e] sent(3,4) refl]
  let ?B = "get_buffer (buffer_of e) (client w)"
  show ?thesis
  proof (cases "d = e")
    case True
    have "relay_step (Writing (take n (drop off ?B) @ take (len - n) (drop (off + n) ?B)), i, u)
        (if n = len then Reading else Writing (take (len - n) (drop (off + n) ?B)), i, u @ take n (drop off ?B))" for i u
      using relay_step.part [of "take n (drop off ?B)"] relay_step.all [of "take n (drop off ?B)" i u]
      by (cases "n = len") simp_all
    then show ?thesis using S sent(1) True by (simp add: s view_def)
  next
    case False
    then have "d = other e" using dir_exhaust [of d e] by simp
    then show ?thesis using S sent(1) by (simp add: s view_def relay_step.same)
  qed
next
  case (failed xs x ys)
  have "phase_of d (client w') = phase_of d (client w) \<or> phase_of d (client w') = Lost"
    using failed_phase [OF assms(2) failed(2), of d "handler_of x" 0] failed(1) by simp
  moreover have "connection_ok (client w')" using connection_ok_error [OF assms(2) failed(2)] failed(1) by simp
  moreover have "came_in d w' = came_in d w" "went_out d w' = went_out d w" using failed(1) by simp_all
  ultimately show ?thesis using relay_step.lose relay_step.same by (auto simp: view_def)
qed

lemma fresh_ok:
  assumes "fresh c"
  shows "connection_ok (start c)" "phase_of d (start c) = Idle"
  using assms
  by (auto simp: fresh_def start_def async_def connection_ok_def dir_ok_def phase_of_def get_buffer_def split: buffer.split)

lemma reachable_ok: "reachable w \<Longrightarrow> connection_ok (client w)"
proof (induction rule: reachable.induct)
  case (init c)
  then show ?case by (simp add: fresh_ok)
next
  case (run w w')
  then show ?case using step_ok by blast
qed

interpretation up: relay "view Up" "\<lambda>w. connection_ok (client w)"
proof
  show "view Up \<lparr>client = start c, from_user = [], to_server = [], from_server = [], to_user = []\<rparr> = (Idle, [], [])"
    if "fresh c" for c using fresh_ok(2) [OF that] by (simp add: view_def dir_defs)
qed (use reachable_ok step_ok in blast)+

interpretation down: relay "view Down" "\<lambda>w. connection_ok (client w)"
proof
  show "view Down \<lparr>client = start c, from_user = [], to_server = [], from_server = [], to_user = []\<rparr> = (Idle, [], [])"
    if "fresh c" for c using fresh_ok(2) [OF that] by (simp add: view_def dir_defs)
qed (use reachable_ok step_ok in blast)+

section \<open>What a connection promises\<close>

text \<open>Property C5.
  In every reachable state of a connection, whatever sizes the kernel completes and whenever an
  operation fails, what was sent to the server is a prefix of what came from the user, and what
  was sent to the user is a prefix of what came from the server.
\<close>

theorem relay_in_order:
  assumes "reachable w"
  shows "prefix (to_server w) (from_user w) \<and> prefix (to_user w) (from_server w)"
proof -
  have u: "view Up w = (phase_of Up (client w), from_user w, to_server w)"
    and v: "view Down w = (phase_of Down (client w), from_server w, to_user w)"
    by (simp_all add: view_def dir_defs)
  show ?thesis using up.passes_prefix(1) [OF assms u] down.passes_prefix(1) [OF assms v] by blast
qed

lemma step_example:
  assumes "fresh c"
  shows "\<exists>w. reachable w \<and> from_user w = [1, 2, 3] \<and> to_server w = [1, 2] \<and> sockets_open (client w)"
proof -
  let ?w0 = "\<lparr>client = start c, from_user = [], to_server = [], from_server = [], to_user = []\<rparr>"
  have p0: "pending (start c) = [] @ Connect # []" "sockets_open (start c)" using assms by (simp_all add: fresh_def start_def async_def)
  let ?c1 = "complete ([] @ []) OnConnect False 0 (start c)"
  have s1: "step ?w0 (?w0\<lparr>client := ?c1\<rparr>)" using step.connected [of ?w0 "[]" "[]"] p0 by simp
  have p1: "pending ?c1 = [] @ Receive UserSock UserBuffer OnUserRead # [receive_op Down]" "sockets_open ?c1"
    using p0 by (simp_all add: connect_handler receive_op_def dir_defs)
  let ?c2 = "complete ([] @ [receive_op Down]) OnUserRead False 3 (fill_buffer UserBuffer [1, 2, 3] ?c1)"
  let ?w2 = "arrived UserSock [1, 2, 3] (?w0\<lparr>client := ?c2\<rparr>)"
  have s2: "step (?w0\<lparr>client := ?c1\<rparr>) ?w2"
    using step.received [of "?w0\<lparr>client := ?c1\<rparr>" "[]" UserSock UserBuffer OnUserRead "[receive_op Down]" "[1, 2, 3]"] p1
    by (simp add: BUF_SIZE_def numeral_3_eq_3)
  have p2: "pending ?c2 = [receive_op Down] @ Send ServerSock UserBuffer 0 3 OnUserWrite # []" "sockets_open ?c2"
    using p1 read_handler(1,5) [where n = 3 and d = Up] by (simp_all add: dir_defs send_op_def fill_same BUF_SIZE_def)
  have b2: "get_buffer UserBuffer ?c2 = [1, 2, 3] @ drop 3 (get_buffer UserBuffer ?c1)"
    using read_handler(4) [where n = 3 and d = Up] by (simp add: dir_defs fill_same BUF_SIZE_def numeral_3_eq_3)
  let ?w3 = "passed ServerSock (take 2 (drop 0 (get_buffer UserBuffer ?c2)))
      (?w2\<lparr>client := complete ([receive_op Down] @ []) OnUserWrite False 2 ?c2\<rparr>)"
  have s3: "step ?w2 ?w3"
    using step.sent [of ?w2 "[receive_op Down]" ServerSock UserBuffer 0 3 OnUserWrite "[]" 2] p2 by simp
  have "reachable ?w3"
    using reachable.init [OF assms] s1 s2 s3 reachable.run by blast
  moreover have "sockets_open (client ?w3)"
    using p2(2) by (simp add: complete_def userWrite_def async_def Let_def)
  ultimately show ?thesis by (intro exI [of _ ?w3]) (use b2 in \<open>simp add: arrived_def passed_def\<close>)
qed

definition fresh0 :: Client where
  "fresh0 = \<lparr>user_buffer = replicate 1024 0, server_buffer = replicate 1024 0, server_work = False,
     serv_size_message = 0, user_size_message = 0, serv_cur_size = 0, user_cur_size = 0,
     sockets_open = True, father_stops = 0, pending = []\<rparr>"

lemma fresh0: "fresh fresh0"
  by (simp add: fresh_def fresh0_def BUF_SIZE_def)

theorem relay_in_order_witness:
  "\<exists>w. reachable w \<and> from_user w = [1, 2, 3] \<and> to_server w = [1, 2] \<and> prefix (to_server w) (from_user w) \<and> prefix (to_user w) (from_server w)"
  using step_example [OF fresh0] relay_in_order by blast

text \<open>Property C17.
  State typing: a connection waits for its connect, or each direction has exactly one operation
  under way: a receive, when everything that came in was passed on, or a send of the bytes that
  are missing, which lies inside the buffer of 1024 bytes. Only after the sockets were closed a
  direction may have none.
\<close>

theorem connection_well_typed:
  assumes "reachable w"
  shows "pending (client w) = [Connect] \<or> (\<forall>d.
      ops_of d (pending (client w)) = [] \<and> \<not> sockets_open (client w)
    \<or> ops_of d (pending (client w)) = [receive_op d] \<and> went_out d w = came_in d w
    \<or> (\<exists>off len. ops_of d (pending (client w)) = [send_op d off len] \<and> 0 < len \<and> off + len \<le> BUF_SIZE
        \<and> went_out d w @ take len (drop off (get_buffer (buffer_of d) (client w))) = came_in d w))"
proof -
  have inv: "relay_inv (view d w)" for d using up.relay_reachable down.relay_reachable assms by (cases d) simp_all
  have ok: "connection_ok (client w)" using reachable_ok [OF assms] .
  show ?thesis
  proof (cases "pending (client w) = [Connect]")
    case False
    have "ops_of d (pending (client w)) = [] \<Longrightarrow> \<not> sockets_open (client w)" "dir_ok d (client w)" for d
      using ok False by (auto simp: connection_ok_def)
    then have "ops_of d (pending (client w)) = [] \<and> \<not> sockets_open (client w) \<or> ops_of d (pending (client w)) = [receive_op d]
      \<or> (\<exists>off len. ops_of d (pending (client w)) = [send_op d off len] \<and> sending d (client w) off len)" for d
      by (auto simp: dir_ok_def)
    moreover have "went_out d w = came_in d w" if "ops_of d (pending (client w)) = [receive_op d]" for d
      using inv [of d] phase_simps(1) [OF that] by (simp add: view_def)
    moreover have "went_out d w @ take len (drop off (get_buffer (buffer_of d) (client w))) = came_in d w"
      if "ops_of d (pending (client w)) = [send_op d off len]" for d off len
      using inv [of d] phase_simps(2) [OF that] by (simp add: view_def)
    ultimately show ?thesis by (metis sending_def)
  qed simp
qed

theorem connection_well_typed_witness:
  "\<exists>w. reachable w \<and> sockets_open (client w) \<and> from_user w = [1, 2, 3] \<and> to_server w = [1, 2]
    \<and> (pending (client w) = [Connect] \<or> (\<exists>off len. ops_of Up (pending (client w)) = [send_op Up off len] \<and> off + len \<le> BUF_SIZE))"
proof -
  obtain w where w: "reachable w" "from_user w = [1, 2, 3]" "to_server w = [1, 2]" "sockets_open (client w)"
    using step_example [OF fresh0] by blast
  have "went_out Up w \<noteq> came_in Up w" using w by (simp add: dir_defs)
  then show ?thesis using connection_well_typed [OF w(1)] w by blast
qed

end
