(* ===== verification/Spec2Isabelle.thy ===== *)
theory Spec2Isabelle
  imports Alloc_Tests Merge_Sort Chat_System Shell_Run Index_Correct Proxy_Config Proxy_Client
begin

text \<open>
  The repository holds six independent C++ programs under \<^verbatim>\<open>src/\<close>. This library models each of them
  from its source and proves what makes it correct; where the code does not do what it means to do,
  the theorem states what it does instead. Every theory opens with a text on what it holds.

  \<^bold>\<open>Conventions (\<open>Prelude\<close>).\<close> A \<open>size_t\<close> is a \<open>nat\<close> with the wrap-around at \<open>2 ^ 64\<close> written out
  (\<open>sz_add\<close>, \<open>sz_sub\<close>), a \<open>uint32_t\<close> one with the wrap-around at \<open>2 ^ 32\<close> (\<open>add32\<close>, \<open>mul32\<close>), an \<open>int\<close>
  an \<open>int\<close> of HOL that conversions narrow (\<open>to_int32\<close>) and counters may not leave (\<open>int_next\<close>), a byte an \<open>8 word\<close>, an iterator a position in a list. Undefined behaviour is
  \<^const>\<open>None\<close>: \<open>end()\<close> dereferenced, a write past a buffer, an unset variable read, an overlapping
  \<open>memcpy\<close>. A thrown exception or a call of \<open>exit\<close> is \<^const>\<open>Inl\<close>. What the operating system or a
  library decides is an argument: scripts of answers of \<open>send\<close>, \<open>recv\<close>, \<open>accept\<close> and \<open>epoll_ctl\<close> for
  the chat, the record \<open>kernel\<close> for the shell, the record \<open>boost\<close> and the steps of \<open>boost::asio\<close> for the
  proxy, the content of indeterminate memory as an arbitrary object.

  \<^bold>\<open>p1, a relocating allocator\<close> (\<^verbatim>\<open>allocator.h\<close>, \<^verbatim>\<open>allocator.cpp\<close>, \<^verbatim>\<open>allocator_test.cpp\<close>).
  \<^item> \<open>Alloc_Model\<close>: the arena with its two halves, the list of blocks, and every operation: \<open>findblock\<close>,
    \<open>alloc\<close>, \<open>free\<close> with \<open>joinfree\<close>, \<open>defrag\<close>, \<open>defragWithLast\<close>, \<open>realloc\<close> in its five branches, \<open>print\<close>.
  \<^item> \<open>Alloc_View\<close>: the blocks as a list with sizes, on which each operation is rewritten once.
  \<^item> \<open>Alloc_Inv\<close>, \<open>Alloc_Correct\<close>, \<open>Alloc_Realloc\<close>: the invariant (blocks tile the half, no two free
    neighbours, the free count is exact) and the effect of each operation on it and on the contents.
  \<^item> \<open>Alloc_Client\<close>: the abstract store of byte lists, reachable states of a client, and the properties:
    the allocator refines the store, \<open>realloc\<close> keeps data, \<open>alloc\<close> fails only when too few bytes are free,
    \<open>free\<close> and \<open>defrag\<close> do their work, live blocks are disjoint, \<open>fillUp\<close> of the tests ends.
  \<^item> \<open>Alloc_Tests\<close>: the eleven test cases as programs over the model, each of which passes for every
    address and content of the array.

  \<^bold>\<open>p2, a chat over TCP.\<close>
  \<^item> \<open>Message\<close> (\<^verbatim>\<open>message.cpp\<close>, \<^verbatim>\<open>messagereceiver.cpp\<close>): the incremental decoder with its fixed buffers,
    equal to a reference decoder for every cut of the stream.
  \<^item> \<open>Message_Send\<close> (\<^verbatim>\<open>messageforsend.cpp\<close>, \<^verbatim>\<open>messagesender.cpp\<close>): the queue of blocks of 1024 bytes as a
    byte queue, the loop around \<open>send\<close> over the locale \<open>byte_queue\<close>, and the block boundary on which the
    queue loses bytes.
  \<^item> \<open>Chat_Server\<close> (\<^verbatim>\<open>server.cpp\<close>), \<open>Chat_Client\<close> (\<^verbatim>\<open>client.cpp\<close>): the constructors, the
    handlers of the \<open>epoll\<close> loop, the \<open>select\<close> loop, and the two functions \<open>main\<close>.
    Where it accepts, reads and sends, the server exits only over the socket of a client that fails
    (\<open>serves\<close>), the client only over a failed call (\<open>turn_fails\<close>).
  \<^item> \<open>Chat_Room\<close>: the abstract specification of a run of the server, a function of its events: what each
    socket was heard to send, what was said so far, and since when each client takes part. A simulation
    shows that every run from the constructor on follows it.
  \<^item> \<open>Chat_System\<close>: one client, the server and another client together, each from its \<open>main\<close>; words
    arrive in order, behind the welcome.

  \<^bold>\<open>p3, a TCP proxy over \<open>boost::asio\<close>\<close> (\<^verbatim>\<open>proxy.h\<close>, \<^verbatim>\<open>proxy.cpp\<close>).
  \<^item> \<open>Proxy_Config\<close>: the parser of the configuration, \<open>stoi\<close>, \<open>main\<close>, the constructors of \<open>Proxy\<close>,
    \<open>ClientServer\<close> and \<open>Client\<close> with their exceptions, the accept handler and the table of clients. A
    configuration is read back as written and starts its servers; the table is keyed one number off.
  \<^item> \<open>Proxy_Client\<close>: a connection. Asynchronous calls add to the operations under way, \<open>step\<close> lets one of
    them complete with any size the kernel may choose or with an error. The locale \<open>relay\<close> states one
    direction as an abstract relay; both directions are interpretations of it.

  \<^bold>\<open>p4, an inverted index on disk\<close> (\<^verbatim>\<open>main.cpp\<close>).
  \<^item> \<open>Index_File\<close>: files as byte strings, little-endian numbers, file names, and the \<open>set\<close> and \<open>map\<close>
    of the program as sorted lists.
  \<^item> \<open>Index_Build\<close>: \<open>createIndexsFiles\<close> reads documents and writes one index per 2000 documents.
  \<^item> \<open>Index_Merge\<close>: \<open>mergeIndex\<close> merges these files and patches the offsets; \<open>readIndex\<close>. The sizes of
    all buffers are products of 32 bits; reading or copying past the end of one is undefined.
  \<^item> \<open>Index_Correct\<close>: the written file is the inverted index of the input and is read back by
    \<open>readIndex\<close>; the inputs on which the program is undefined (\<open>2 ^ 29\<close> words in a document among them),
    and the word that breaks the merge.

  \<^bold>\<open>p5, a shell\<close> (\<^verbatim>\<open>parser.cpp\<close>, \<^verbatim>\<open>comand.cpp\<close>, \<^verbatim>\<open>main.cpp\<close>).
  \<^item> \<open>Shell_Parser\<close>: the parser. A line that is written from commands, redirections and delimiters is
    parsed to them; the shape of every result; lines on which the parser is undefined.
  \<^item> \<open>Shell_Run\<close>: redirections, \<open>run\<close>, logging and the main loop, background processes and
    the signal handler. Without signals \<open>run\<close> starts the processes that the line means, for every
    order in which children end; a \<open>SIGINT\<close> during the wait for a pipeline ends the line. Signals
    arrive at the points of the type \<open>point\<close>: reading, before an entity, in a wait, after a fork.

  \<^bold>\<open>p8, a parallel merge sort\<close> (\<^verbatim>\<open>merge_sort.cpp\<close>): \<open>Merge_Sort\<close>, the sort over one array and one
  temporary array, whose lengths are of type \<open>int\<close>, the independence of its two parallel sections, and the
  sorting of the program's input of \<open>int\<close> numbers. A range of \<open>2 ^ 31\<close> elements is not sorted.

  \<^bold>\<open>Termination.\<close> No definition uses fuel. Loops over containers are structural; the others have a
  measure: bytes not yet read (decoder, configuration, index files), entities left (\<open>run_loop\<close>), the
  length of the range (\<open>merge_sort\<close>), the bytes left in the files that the merge still reads
  (\<open>merge_loop\<close>, which ends because every round takes a posting list). Loops that serve for ever
  (\<open>epoll\<close>, \<open>select\<close>, \<open>accept\<close>, the handlers of a connection) are modelled by the step they repeat, over
  a script of events or a step relation. The loops of the tests of p1 count with an \<open>int\<close> and are undefined
  past its largest value.

  \<^bold>\<open>Taken to succeed\<close>: \<open>fork\<close>, \<open>pipe\<close>, opening a file of the index, allocation of memory. A document
  file that ends inside a document counts as undefined, because the program uses what \<open>fread\<close> left.

  \<^bold>\<open>Not modelled\<close>: saving the standard descriptors in p5,
  freeing of memory, and the formatting of console output.
\<close>

end
